(* ===== verification/Prelude.thy ===== *)
theory Prelude
  imports Main "HOL-Library.Word" "HOL-Library.Multiset"
begin

text \<open>
  Shared vocabulary of the development: Go's fixed-width integers as words, byte
  slices as lists, the result type of code that can panic, the little-endian codecs
  of \<open>encoding/binary\<close>, Go's \<open>copy\<close> into a sub-slice, and the generic lemmas
  (words read as naturals, contiguous runs of indices, framed byte streams) on which
  the component theories rest.
\<close>

section \<open>Types and collections of rules\<close>

type_synonym u8 = "8 word"
type_synonym u32 = "32 word"
type_synonym u64 = "64 word"
type_synonym byte = "8 word"
type_synonym bytes = "byte list"

named_theorems codec_simps \<open>lengths and equations of the byte codecs\<close>
named_theorems word_nat_simps \<open>words read as natural numbers\<close>

section \<open>Code that can panic\<close>

text \<open>
  A Go function that can panic returns \<open>Inl\<close> of the panic or \<open>Inr\<close> of its result;
  \<open>and_then\<close> runs the rest of the function when no panic has occurred.
\<close>

definition and_then :: "'p + 'a \<Rightarrow> ('a \<Rightarrow> 'p + 'b) \<Rightarrow> 'p + 'b" where
  "and_then x f = (case x of Inl p \<Rightarrow> Inl p | Inr a \<Rightarrow> f a)"

lemma and_then_simps [simp]:
  "and_then (Inl p) f = Inl p"
  "and_then (Inr a) f = f a"
  by (simp_all add: and_then_def)

lemma and_then_Inr_iff:
  "and_then x f = Inr b \<longleftrightarrow> (\<exists>a. x = Inr a \<and> f a = Inr b)"
  by (cases x) auto

lemma and_then_InrE:
  assumes "and_then x f = Inr b"
  obtains a where "x = Inr a" and "f a = Inr b"
  using assms by (auto simp: and_then_Inr_iff)

lemma and_then_cong [fundef_cong]:
  "x = y \<Longrightarrow> (\<And>a. y = Inr a \<Longrightarrow> f a = g a) \<Longrightarrow> and_then x f = and_then y g"
  by (cases y) auto

section \<open>Words read as natural numbers\<close>

text \<open>A loop whose body may panic.\<close>

fun fold_then :: "('a \<Rightarrow> 's \<Rightarrow> 'p + 's) \<Rightarrow> 'a list \<Rightarrow> 's \<Rightarrow> 'p + 's" where
  "fold_then f [] s = Inr s"
| "fold_then f (x # xs) s = and_then (f x s) (fold_then f xs)"

lemma fold_then_invariant:
  assumes "fold_then f xs s = Inr t" "P s"
    and "\<And>x s s'. x \<in> set xs \<Longrightarrow> P s \<Longrightarrow> f x s = Inr s' \<Longrightarrow> P s'"
  shows "P t"
  using assms
proof (induction xs arbitrary: s)
  case (Cons x xs)
  then show ?case by (auto simp: and_then_Inr_iff)
qed simp

text \<open>Total correctness: the computation does not panic and its result satisfies \<open>P\<close>.\<close>

definition yields :: "('a \<Rightarrow> bool) \<Rightarrow> 'p + 'a \<Rightarrow> bool" where
  "yields P x \<longleftrightarrow> (\<exists>y. x = Inr y \<and> P y)"

lemma yields_simps [simp]: "yields P (Inr y) \<longleftrightarrow> P y" "yields P (Inl e) \<longleftrightarrow> False"
  by (simp_all add: yields_def)

lemma yields_and_then [intro]:
  "yields P x \<Longrightarrow> (\<And>y. P y \<Longrightarrow> yields Q (f y)) \<Longrightarrow> yields Q (and_then x f)"
  by (auto simp: yields_def)

lemma yields_mono: "yields P x \<Longrightarrow> (\<And>y. P y \<Longrightarrow> Q y) \<Longrightarrow> yields Q x"
  by (auto simp: yields_def)

lemma yields_fold_then:
  assumes "P s" "\<And>x s. x \<in> set xs \<Longrightarrow> P s \<Longrightarrow> yields P (f x s)"
  shows "yields P (fold_then f xs s)"
  using assms
proof (induction xs arbitrary: s)
  case (Cons x xs)
  then show ?case by (auto intro!: yields_and_then [where P = P])
qed simp

lemma unat_plus_1 [word_nat_simps]:
  fixes a :: "'a::len word"
  assumes "unat a + 1 < 2 ^ LENGTH('a)"
  shows "unat (a + 1) = unat a + 1"
  using assms by (simp add: unat_word_ariths)

lemma unat_succ: "unat (a :: u64) + 1 < 18446744073709551616 \<Longrightarrow> unat (a + 1) = Suc (unat a)"
  by (simp add: unat_plus_1)

lemma unat_minus_le [word_nat_simps]:
  fixes a b :: "'a::len word"
  shows "b \<le> a \<Longrightarrow> unat (a - b) = unat a - unat b"
  by (rule unat_sub)

lemma unat_less_2p: "unat (x :: 'a::len word) < 2 ^ LENGTH('a)"
  by (rule unsigned_less)

lemma unat_u64_bound: "unat (x :: u64) < 18446744073709551616"
  using unat_less_2p [of x] by simp

lemma word_le_unat: "(a :: 'a::len word) \<le> b \<longleftrightarrow> unat a \<le> unat b"
  by (rule word_le_nat_alt)

lemma word_less_unat: "(a :: 'a::len word) < b \<longleftrightarrow> unat a < unat b"
  by (rule word_less_nat_alt)

lemma word_eq_unat: "(a :: 'a::len word) = b \<longleftrightarrow> unat a = unat b"
  by (rule word_unat_eq_iff)

lemma unat_min: "unat (min a (b :: 'a::len word)) = min (unat a) (unat b)"
  by (simp add: min_def word_le_unat)

lemma unat_max: "unat (max a (b :: 'a::len word)) = max (unat a) (unat b)"
  by (simp add: max_def word_le_unat)

lemmas word_as_nat = word_le_unat word_less_unat word_eq_unat unat_min unat_max

section \<open>encoding/binary: little-endian integers\<close>

fun le_bytes :: "nat \<Rightarrow> nat \<Rightarrow> bytes" where
  "le_bytes 0 v = []"
| "le_bytes (Suc k) v = word_of_nat (v mod 256) # le_bytes k (v div 256)"

fun le_value :: "bytes \<Rightarrow> nat" where
  "le_value [] = 0"
| "le_value (b # bs) = unat b + 256 * le_value bs"

lemma length_le_bytes [simp, codec_simps]: "length (le_bytes k v) = k"
  by (induction k arbitrary: v) auto

lemma le_value_le_bytes: "le_value (le_bytes k v) = v mod 256 ^ k"
proof (induction k arbitrary: v)
  case 0
  then show ?case by simp
next
  case (Suc k)
  have "unat (word_of_nat (v mod 256) :: byte) = v mod 256"
    by (simp add: unat_of_nat)
  then have "le_value (le_bytes (Suc k) v) = v mod 256 + 256 * (v div 256 mod 256 ^ k)"
    by (simp add: Suc.IH)
  also have "\<dots> = v mod (256 * 256 ^ k)"
    by (simp add: mod_mult2_eq)
  finally show ?case by simp
qed

lemma le_value_bound: "le_value bs < 256 ^ length bs"
proof (induction bs)
  case Nil
  then show ?case by simp
next
  case (Cons b bs)
  have "unat b < 256" using unat_less_2p [of b] by simp
  moreover have "le_value bs + 1 \<le> 256 ^ length bs" using Cons.IH by simp
  then have "256 * (le_value bs + 1) \<le> 256 * 256 ^ length bs" by (rule mult_le_mono2)
  ultimately show ?case by simp
qed

lemma le_bytes_le_value: "le_bytes (length bs) (le_value bs) = bs"
proof (induction bs)
  case Nil
  then show ?case by simp
next
  case (Cons b bs)
  have b: "unat b < 256" using unat_less_2p [of b] by simp
  then have "(unat b + 256 * le_value bs) mod 256 = unat b"
    and "(unat b + 256 * le_value bs) div 256 = le_value bs" by auto
  with Cons.IH show ?case by simp
qed

definition PutUint32 :: "u32 \<Rightarrow> bytes" where
  "PutUint32 v = le_bytes 4 (unat v)"

definition PutUint64 :: "u64 \<Rightarrow> bytes" where
  "PutUint64 v = le_bytes 8 (unat v)"

text \<open>\<open>Uint32 b\<close> and \<open>Uint64 b\<close> read the first four and eight bytes of \<open>b\<close>.\<close>

definition Uint32 :: "bytes \<Rightarrow> u32" where
  "Uint32 b = word_of_nat (le_value (take 4 b))"

definition Uint64 :: "bytes \<Rightarrow> u64" where
  "Uint64 b = word_of_nat (le_value (take 8 b))"

lemma length_PutUint32 [simp, codec_simps]: "length (PutUint32 v) = 4"
  by (simp add: PutUint32_def)

lemma length_PutUint64 [simp, codec_simps]: "length (PutUint64 v) = 8"
  by (simp add: PutUint64_def)

lemma PutUint_not_Nil [simp]: "PutUint32 v \<noteq> []" "PutUint64 w \<noteq> []"
  by (simp_all only: length_greater_0_conv [symmetric] length_PutUint32 length_PutUint64 zero_less_numeral)

lemma Uint32_PutUint32 [simp, codec_simps]: "Uint32 (PutUint32 v @ rest) = v"
  using unat_less_2p [of v]
  by (simp add: Uint32_def PutUint32_def le_value_le_bytes)

lemma Uint64_PutUint64 [simp, codec_simps]: "Uint64 (PutUint64 v @ rest) = v"
  using unat_less_2p [of v]
  by (simp add: Uint64_def PutUint64_def le_value_le_bytes)

lemma Uint32_PutUint32_exact [simp, codec_simps]: "Uint32 (PutUint32 v) = v"
  using Uint32_PutUint32 [of v "[]"] by simp

lemma Uint64_PutUint64_exact [simp, codec_simps]: "Uint64 (PutUint64 v) = v"
  using Uint64_PutUint64 [of v "[]"] by simp

lemma PutUint32_Uint32: "4 \<le> length b \<Longrightarrow> PutUint32 (Uint32 b) = take 4 b"
  using le_value_bound [of "take 4 b"] le_bytes_le_value [of "take 4 b"]
  by (simp add: Uint32_def PutUint32_def unat_of_nat min_absorb2)

lemma PutUint64_Uint64: "8 \<le> length b \<Longrightarrow> PutUint64 (Uint64 b) = take 8 b"
  using le_value_bound [of "take 8 b"] le_bytes_le_value [of "take 8 b"]
  by (simp add: Uint64_def PutUint64_def unat_of_nat min_absorb2)

section \<open>Go's copy into a sub-slice\<close>

text \<open>
  \<open>put_bytes buf off src\<close> is \<open>copy(buf[off:], src)\<close>: it overwrites from offset
  \<open>off\<close>, never past the end of the buffer. The fixed-width \<open>PutUint\<close> calls of the
  sources always have room, so they are the same overwrite.
\<close>

definition put_bytes :: "bytes \<Rightarrow> nat \<Rightarrow> bytes \<Rightarrow> bytes" where
  "put_bytes buf off src =
     take off buf @ take (length buf - off) src @ drop (off + length src) buf"

lemma length_put_bytes [simp]: "off \<le> length buf \<Longrightarrow> length (put_bytes buf off src) = length buf"
  by (simp add: put_bytes_def)

lemma put_bytes_append:
  assumes "length pre = off" and "length mid = length src"
  shows "put_bytes (pre @ mid @ post) off src = pre @ src @ post"
  using assms by (simp add: put_bytes_def)

lemma put_bytes_prefix:
  assumes "length mid = length src"
  shows "put_bytes (mid @ post) 0 src = src @ post"
  using put_bytes_append [of "[]" 0 mid src post] assms by simp

text \<open>A fresh buffer: \<open>make([]byte, n)\<close>.\<close>

definition make_bytes :: "nat \<Rightarrow> bytes" where
  "make_bytes n = replicate n 0"

lemma length_make_bytes [simp]: "length (make_bytes n) = n"
  by (simp add: make_bytes_def)

lemma make_bytes_add: "make_bytes (m + n) = make_bytes m @ make_bytes n"
  by (simp add: make_bytes_def replicate_add)

end
