(* ===== verification/Raft_Types.thy ===== *)
theory Raft_Types
  imports Prelude
begin

text \<open>
  The data of package \<open>raftpb\<close> as the raft code uses it (\<open>src/src/raftpb/raft.proto\<close>
  and the structs generated from it), the error values and panics of package \<open>raft\<close>,
  and the node roles. Protobuf pointers that the code compares with nil are options.
\<close>

section \<open>raftpb\<close>

datatype MessageType =
    MsgUnknown
  | MsgApp
  | MsgAppResp
  | MsgVote
  | MsgVoteResp
  | MsgSnap
  | MsgHup
  | MsgBeat
  | MsgProp
  | MsgHeartbeat
  | MsgHeartbeatResp
  | MsgReadIndex
  | MsgReadIndexResp
  | MsgCheckQuorum
  | MsgPreVote
  | MsgPreVoteResp
  | MsgTransferLeader
  | MsgTimeoutNow

record Entry =
  eIndex :: u64
  eTerm :: u64
  eData :: bytes

record SnapshotMeta =
  sIndex :: u64
  sTerm :: u64

record HardState =
  hTerm :: u64
  hVotedFor :: u64
  hCommit :: u64

record Message =
  mType :: MessageType
  mFrom :: u64
  mTo :: u64
  mIndex :: u64
  mLogTerm :: u64
  mTerm :: u64
  mCommit :: u64
  mEntries :: "Entry list"
  mReject :: bool
  mRejectHint :: u64
  mSnapshot :: "SnapshotMeta option"
  mContext :: bytes

text \<open>\<open>&raftpb.Message{Type: t}\<close>: the other fields are zero.\<close>

definition new_Message :: "MessageType \<Rightarrow> Message" where
  "new_Message t = \<lparr>mType = t, mFrom = 0, mTo = 0, mIndex = 0, mLogTerm = 0, mTerm = 0,
     mCommit = 0, mEntries = [], mReject = False, mRejectHint = 0, mSnapshot = None,
     mContext = []\<rparr>"

lemma new_Message_sel [simp]:
  "mType (new_Message t) = t" "mFrom (new_Message t) = 0" "mTo (new_Message t) = 0"
  "mIndex (new_Message t) = 0" "mLogTerm (new_Message t) = 0" "mTerm (new_Message t) = 0"
  "mCommit (new_Message t) = 0" "mEntries (new_Message t) = []"
  "mReject (new_Message t) = False" "mRejectHint (new_Message t) = 0"
  "mSnapshot (new_Message t) = None" "mContext (new_Message t) = []"
  by (simp_all add: new_Message_def)

definition empty_HardState :: HardState where
  "empty_HardState = \<lparr>hTerm = 0, hVotedFor = 0, hCommit = 0\<rparr>"

definition empty_SnapshotMeta :: SnapshotMeta where
  "empty_SnapshotMeta = \<lparr>sIndex = 0, sTerm = 0\<rparr>"

section \<open>util.go and the constants of raft.go\<close>

abbreviation None_id :: u64 where
  "None_id \<equiv> 0"

definition IsLocalMsg :: "MessageType \<Rightarrow> bool" where
  "IsLocalMsg t \<longleftrightarrow> t = MsgBeat \<or> t = MsgHup"

datatype State = Follower | PreCandidate | Candidate | Leader

datatype CampaignType = CampaignPreElection | CampaignElection | CampaignTransfer

definition IsEmptyHardState :: "HardState option \<Rightarrow> bool" where
  "IsEmptyHardState h =
     (case h of
        None \<Rightarrow> True
      | Some h \<Rightarrow> hTerm h = 0 \<and> hVotedFor h = 0 \<and> hCommit h = 0)"

definition hardStatesEqual :: "HardState option \<Rightarrow> HardState option \<Rightarrow> bool" where
  "hardStatesEqual a b =
     (case (a, b) of
        (None, None) \<Rightarrow> True
      | (Some a, Some b) \<Rightarrow> hTerm a = hTerm b \<and> hVotedFor a = hVotedFor b \<and> hCommit a = hCommit b
      | _ \<Rightarrow> False)"

section \<open>Errors and panics of package raft\<close>

datatype panic =
    PanicCommitOutOfRange
  | PanicAppendBeforeCommitted
  | PanicLastEntryTerm
  | PanicSliceBounds
  | PanicVoteWithoutTerm
  | PanicReadState
  | PanicEmptyProp
  | PanicNilProgress
  | PanicNilSnapshot
  | PanicConfig
  | PanicApplied
  | PanicIndexRange
  | PanicTypeAssertion

datatype raft_error =
    ErrUnexpectedBytes
  | ErrProposalDropped
  | ErrCompacted
  | ErrNonContiguous u64 u64
  | ErrSnapOutOfDate
  | ErrUnavailable
  | ErrCorruption
  | ErrTailCorruption
  | ErrSealedCorruption string
  | ErrInvalidRange
  | ErrOutsideRange
  | ErrCompactRange
  | ErrNotAvailable
  | ErrUnknownPeer
  | ErrLocalMessage
  | ErrIO
  | ErrPanic panic \<comment> \<open>a panic raised inside a callback, on its way to the caller\<close>

text \<open>Indexing a slice panics out of range, as does a slice expression past its length.\<close>

definition nth_go :: "'a list \<Rightarrow> nat \<Rightarrow> panic + 'a" where
  "nth_go xs i = (if i < length xs then Inr (xs ! i) else Inl PanicIndexRange)"

definition take_go :: "nat \<Rightarrow> 'a list \<Rightarrow> panic + 'a list" where
  "take_go n xs = (if n \<le> length xs then Inr (take n xs) else Inl PanicSliceBounds)"

definition slice_go :: "nat \<Rightarrow> nat \<Rightarrow> 'a list \<Rightarrow> panic + 'a list" where
  "slice_go i j xs =
     (if i \<le> j \<and> j \<le> length xs then Inr (take (j - i) (drop i xs)) else Inl PanicSliceBounds)"

lemma hardStatesEqual_iff [simp]: "hardStatesEqual a b \<longleftrightarrow> a = b"
  by (auto simp: hardStatesEqual_def split: option.splits)

end
