(* ===== verification/Framing.thy ===== *)
theory Framing
  imports Prelude
begin

text \<open>
  Streams of length-prefixed records. Three loops of the program read such a stream: the
  frames of a raft WAL segment, the entries inside a WAL batch and the frames of a TCP
  connection. \<open>read_chunks\<close> is the reference reader
  over a function that recognises one record, and the locale \<open>framed_stream\<close> states what a
  record format must satisfy; inside it the round trip and the behaviour on a torn tail are
  proved once, for every format that is shown to be an instance.
\<close>

section \<open>The reference reader\<close>

datatype 'a chunk = Chunk_End | Chunk_Torn | Chunk 'a bytes

function read_chunks :: "(bytes \<Rightarrow> 'a chunk) \<Rightarrow> bytes \<Rightarrow> 'a list \<times> bool" where
  "read_chunks nxt b =
     (case nxt b of
        Chunk_End \<Rightarrow> ([], True)
      | Chunk_Torn \<Rightarrow> ([], False)
      | Chunk x rest \<Rightarrow>
          if length rest < length b then
            (case read_chunks nxt rest of (xs, ok) \<Rightarrow> (x # xs, ok))
          else ([x], False))"
  by pat_completeness auto
termination
  by (relation "measure (\<lambda>(nxt, b). length b)") auto

declare read_chunks.simps [simp del]

section \<open>Record formats\<close>

locale framed_stream =
  fixes frame :: "'a \<Rightarrow> bytes"
    and nxt :: "bytes \<Rightarrow> 'a chunk"
    and valid :: "'a \<Rightarrow> bool"
  assumes next_Nil: "nxt [] = Chunk_End"
    and next_frame: "valid x \<Longrightarrow> nxt (frame x @ rest) = Chunk x rest"
    and next_torn: "valid x \<Longrightarrow> 0 < k \<Longrightarrow> k < length (frame x) \<Longrightarrow>
      nxt (take k (frame x)) = Chunk_Torn"
    and frame_nonempty: "valid x \<Longrightarrow> frame x \<noteq> []"
begin

lemma read_frame:
  assumes "valid x"
  shows "read_chunks nxt (frame x @ rest) =
    (case read_chunks nxt rest of (xs, ok) \<Rightarrow> (x # xs, ok))"
  using assms frame_nonempty [OF assms]
  by (subst read_chunks.simps) (simp add: next_frame)

lemma read_append:
  assumes "\<forall>x \<in> set xs. valid x"
  shows "read_chunks nxt (concat (map frame xs) @ rest) =
    (case read_chunks nxt rest of (ys, ok) \<Rightarrow> (xs @ ys, ok))"
  using assms
  by (induction xs) (auto simp: read_frame split: prod.splits)

lemma read_Nil: "read_chunks nxt [] = ([], True)"
  by (subst read_chunks.simps) (simp add: next_Nil)

text \<open>Round trip: a stream of whole records reads back as those records.\<close>

lemma read_all:
  assumes "\<forall>x \<in> set xs. valid x"
  shows "read_chunks nxt (concat (map frame xs)) = (xs, True)"
  using read_append [OF assms, of "[]"] by (simp add: read_Nil)

text \<open>A record cut short by a crash is reported, and the records before it survive.\<close>

lemma read_torn:
  assumes "\<forall>x \<in> set xs. valid x" and "valid y" and "0 < k" and "k < length (frame y)"
  shows "read_chunks nxt (concat (map frame xs) @ take k (frame y)) = (xs, False)"
proof -
  have "read_chunks nxt (take k (frame y)) = ([], False)"
    using assms(2-4) by (subst read_chunks.simps) (simp add: next_torn)
  then show ?thesis using read_append [OF assms(1)] by simp
qed

end

section \<open>How many whole records fit\<close>

fun whole_frames :: "('a \<Rightarrow> nat) \<Rightarrow> nat \<Rightarrow> 'a list \<Rightarrow> 'a list" where
  "whole_frames len n [] = []"
| "whole_frames len n (x # xs) =
     (if len x \<le> n then x # whole_frames len (n - len x) xs else [])"

lemma whole_frames_prefix: "\<exists>j. whole_frames len n xs = take j xs"
proof (induction xs arbitrary: n)
  case Nil
  then show ?case by simp
next
  case (Cons x xs)
  from Cons.IH obtain j where j: "whole_frames len (n - len x) xs = take j xs" by blast
  show ?case
  proof (cases "len x \<le> n")
    case True
    with j have "whole_frames len n (x # xs) = take (Suc j) (x # xs)" by simp
    then show ?thesis by blast
  next
    case False
    then have "whole_frames len n (x # xs) = take 0 (x # xs)" by simp
    then show ?thesis by blast
  qed
qed

context framed_stream
begin

text \<open>
  Crash safety: whatever prefix of the stream reached the disk, reading it yields exactly
  the records that were written completely.
\<close>

lemma read_prefix:
  assumes "\<forall>x \<in> set xs. valid x"
  shows "fst (read_chunks nxt (take n (concat (map frame xs)))) =
    whole_frames (\<lambda>x. length (frame x)) n xs"
  using assms
proof (induction xs arbitrary: n)
  case Nil
  then show ?case by (simp add: read_Nil)
next
  case (Cons x xs)
  show ?case
  proof (cases "length (frame x) \<le> n")
    case True
    then have "take n (concat (map frame (x # xs))) =
        frame x @ take (n - length (frame x)) (concat (map frame xs))" by simp
    then show ?thesis using True Cons.prems Cons.IH [of "n - length (frame x)"]
      by (simp add: read_frame case_prod_beta)
  next
    case False
    then have t: "take n (concat (map frame (x # xs))) = take n (frame x)" by simp
    show ?thesis
    proof (cases "n = 0")
      case True
      with t False show ?thesis by (simp add: read_Nil)
    next
      case n: False
      have "read_chunks nxt (take n (frame x)) = ([], False)"
        using read_torn [of "[]" x n] Cons.prems n False by simp
      with t False show ?thesis by simp
    qed
  qed
qed

end

end
