(* ===== verification/Raft_Codec.thy ===== *)
theory Raft_Codec
  imports Raft_Types Framing
begin

text \<open>
  \<open>raft/message.go\<close>: the binary form of entries, hard states, snapshot metadata and save
  batches. The encoders fill a buffer in place, as the sources do; the first group of lemmas
  shows that this equals the plain concatenation of the fields, the second that decoding
  inverts encoding.
\<close>

section \<open>Definitions\<close>

definition SnapshotMetaBytes :: nat where "SnapshotMetaBytes = 16"
definition HardStateBytes :: nat where "HardStateBytes = 24"
definition frameHeaderSize :: nat where "frameHeaderSize = 4"

lemmas size_consts [simp] = SnapshotMetaBytes_def HardStateBytes_def frameHeaderSize_def

definition entrySize :: "Entry \<Rightarrow> nat" where
  "entrySize e = 8 + 8 + length (eData e)"

definition encodeEntry :: "Entry \<Rightarrow> bytes \<Rightarrow> bytes" where
  "encodeEntry e buf =
     (let buf = put_bytes buf 0 (PutUint64 (eIndex e));
          buf = put_bytes buf 8 (PutUint64 (eTerm e))
      in put_bytes buf 16 (eData e))"

definition DecodeEntry :: "bytes \<Rightarrow> raft_error + Entry" where
  "DecodeEntry data =
     (if length data < 16 then Inl ErrUnexpectedBytes
      else Inr \<lparr>eIndex = Uint64 data, eTerm = Uint64 (drop 8 data), eData = drop 16 data\<rparr>)"

definition encodeHardState :: "HardState \<Rightarrow> bytes \<Rightarrow> bytes" where
  "encodeHardState h buf =
     (let buf = put_bytes buf 0 (PutUint64 (hTerm h));
          buf = put_bytes buf 8 (PutUint64 (hVotedFor h))
      in put_bytes buf 16 (PutUint64 (hCommit h)))"

definition DecodeHardState :: "bytes \<Rightarrow> raft_error + HardState" where
  "DecodeHardState data =
     (if length data \<noteq> HardStateBytes then Inl ErrUnexpectedBytes
      else Inr \<lparr>hTerm = Uint64 (take 8 data), hVotedFor = Uint64 (take 8 (drop 8 data)),
                hCommit = Uint64 (drop 16 data)\<rparr>)"

definition encodeSnapshotMeta :: "SnapshotMeta \<Rightarrow> bytes \<Rightarrow> bytes" where
  "encodeSnapshotMeta s buf =
     put_bytes (put_bytes buf 0 (PutUint64 (sIndex s))) 8 (PutUint64 (sTerm s))"

definition DecodeSnapshotMeta :: "bytes \<Rightarrow> raft_error + SnapshotMeta" where
  "DecodeSnapshotMeta data =
     (if length data \<noteq> SnapshotMetaBytes then Inl ErrUnexpectedBytes
      else Inr \<lparr>sIndex = Uint64 (take 8 data), sTerm = Uint64 (take 8 (drop 8 data))\<rparr>)"

fun computeTotalSize :: "Entry list \<Rightarrow> nat" where
  "computeTotalSize [] = 0"
| "computeTotalSize (e # es) = frameHeaderSize + entrySize e + computeTotalSize es"

text \<open>The loop of \<open>encodeSaveBatch\<close>: \<open>encodeEntry(e, buf[idx:])\<close> writes the tail of the buffer.\<close>

fun encode_entries_at :: "Entry list \<Rightarrow> bytes \<Rightarrow> nat \<Rightarrow> bytes" where
  "encode_entries_at [] buf idx = buf"
| "encode_entries_at (e # es) buf idx =
     (let size = entrySize e;
          buf = put_bytes buf idx (PutUint32 (word_of_nat size));
          idx = idx + frameHeaderSize;
          buf = take idx buf @ encodeEntry e (drop idx buf)
      in encode_entries_at es buf (idx + size))"

definition encodeSaveBatch :: "HardState \<Rightarrow> Entry list \<Rightarrow> bytes" where
  "encodeSaveBatch hard entries =
     (let entryBytes = computeTotalSize entries;
          buf = make_bytes (HardStateBytes + frameHeaderSize + entryBytes);
          buf = encodeHardState hard buf;
          buf = put_bytes buf HardStateBytes (PutUint32 (word_of_nat entryBytes))
      in encode_entries_at entries buf (HardStateBytes + frameHeaderSize))"

function decodeEntries_loop :: "bytes \<Rightarrow> nat \<Rightarrow> Entry list \<Rightarrow> raft_error + Entry list" where
  "decodeEntries_loop data idx entries =
     (let buf = drop idx data in
      if length buf = 0 then Inr entries
      else if length buf < frameHeaderSize then Inl ErrCorruption
      else
        (let frame = unat (Uint32 (take frameHeaderSize buf));
             idx' = idx + frameHeaderSize;
             buf = drop idx' data
         in if length buf < frame then Inl ErrCorruption
            else
              (case DecodeEntry (take frame buf) of
                 Inl _ \<Rightarrow> Inl ErrCorruption
               | Inr e \<Rightarrow> decodeEntries_loop data (idx' + frame) (entries @ [e]))))"
  by pat_completeness auto
termination
  by (relation "measure (\<lambda>(data, idx, entries). length data - idx)") auto

definition decodeEntries :: "bytes \<Rightarrow> raft_error + Entry list" where
  "decodeEntries data = decodeEntries_loop data 0 []"

definition decodeSaveBatch :: "bytes \<Rightarrow> raft_error + (HardState \<times> Entry list)" where
  "decodeSaveBatch batch =
     (if length batch < HardStateBytes then Inl ErrCorruption
      else
        (case DecodeHardState (take HardStateBytes batch) of
           Inl _ \<Rightarrow> Inl ErrCorruption
         | Inr hs \<Rightarrow>
             (let batch = drop HardStateBytes batch in
              if length batch < frameHeaderSize then Inl ErrCorruption
              else
                (let entryBytes = unat (Uint32 batch);
                     batch = drop frameHeaderSize batch
                 in if length batch \<noteq> entryBytes then Inl ErrCorruption
                    else
                      (case decodeEntries batch of
                         Inl _ \<Rightarrow> Inl ErrCorruption
                       | Inr ents \<Rightarrow> Inr (hs, ents))))))"

section \<open>In-place encoding is concatenation\<close>

definition entry_bytes :: "Entry \<Rightarrow> bytes" where
  "entry_bytes e = PutUint64 (eIndex e) @ PutUint64 (eTerm e) @ eData e"

definition hard_bytes :: "HardState \<Rightarrow> bytes" where
  "hard_bytes h = PutUint64 (hTerm h) @ PutUint64 (hVotedFor h) @ PutUint64 (hCommit h)"

definition snap_bytes :: "SnapshotMeta \<Rightarrow> bytes" where
  "snap_bytes s = PutUint64 (sIndex s) @ PutUint64 (sTerm s)"

definition entry_frame :: "Entry \<Rightarrow> bytes" where
  "entry_frame e = PutUint32 (word_of_nat (entrySize e)) @ entry_bytes e"

lemma length_entry_bytes [simp]: "length (entry_bytes e) = entrySize e"
  by (simp add: entry_bytes_def entrySize_def)

lemma length_hard_bytes [simp]: "length (hard_bytes h) = 24"
  by (simp add: hard_bytes_def)

lemma length_snap_bytes [simp]: "length (snap_bytes h) = 16"
  by (simp add: snap_bytes_def)

lemma length_entry_frame [simp]: "length (entry_frame e) = 4 + entrySize e"
  by (simp add: entry_frame_def)

lemma entry_frame_not_Nil [simp]: "entry_frame e \<noteq> []"
  by (simp add: entry_frame_def)

lemma put_bytes_into:
  assumes "length pre = off" and "off + length src \<le> length pre + length buf"
  shows "put_bytes (pre @ buf) off src = pre @ src @ drop (length src) buf"
  using assms by (simp add: put_bytes_def)

lemma encodeEntry_eq:
  assumes "entrySize e \<le> length buf"
  shows "encodeEntry e buf = entry_bytes e @ drop (entrySize e) buf"
proof -
  let ?i = "PutUint64 (eIndex e)" and ?t = "PutUint64 (eTerm e)"
  have "put_bytes buf 0 ?i = ?i @ drop 8 buf"
    using assms put_bytes_into [of "[]" 0 ?i buf] by (simp add: entrySize_def)
  moreover have "put_bytes (?i @ drop 8 buf) 8 ?t = ?i @ ?t @ drop 16 buf"
    using assms put_bytes_into [of ?i 8 ?t "drop 8 buf"] by (simp add: entrySize_def)
  moreover have "put_bytes ((?i @ ?t) @ drop 16 buf) 16 (eData e) =
      (?i @ ?t) @ eData e @ drop (length (eData e)) (drop 16 buf)"
    using assms by (intro put_bytes_into) (auto simp: entrySize_def)
  ultimately show ?thesis
    by (simp add: encodeEntry_def entry_bytes_def entrySize_def add.commute)
qed

lemma encodeHardState_eq:
  assumes "24 \<le> length buf"
  shows "encodeHardState h buf = hard_bytes h @ drop 24 buf"
proof -
  let ?t = "PutUint64 (hTerm h)" and ?v = "PutUint64 (hVotedFor h)"
  have "put_bytes buf 0 ?t = ?t @ drop 8 buf"
    using assms put_bytes_into [of "[]" 0 ?t buf] by simp
  moreover have "put_bytes (?t @ drop 8 buf) 8 ?v = ?t @ ?v @ drop 16 buf"
    using assms put_bytes_into [of ?t 8 ?v "drop 8 buf"] by simp
  moreover have "put_bytes ((?t @ ?v) @ drop 16 buf) 16 (PutUint64 (hCommit h)) =
      (?t @ ?v) @ PutUint64 (hCommit h) @ drop 8 (drop 16 buf)"
    using assms put_bytes_into [of "?t @ ?v" 16 "PutUint64 (hCommit h)" "drop 16 buf"] by simp
  ultimately show ?thesis by (simp add: encodeHardState_def hard_bytes_def)
qed

lemma encodeSnapshotMeta_eq:
  assumes "16 \<le> length buf"
  shows "encodeSnapshotMeta s buf = snap_bytes s @ drop 16 buf"
proof -
  let ?i = "PutUint64 (sIndex s)"
  have "put_bytes buf 0 ?i = ?i @ drop 8 buf"
    using assms put_bytes_into [of "[]" 0 ?i buf] by simp
  moreover have "put_bytes (?i @ drop 8 buf) 8 (PutUint64 (sTerm s)) =
      ?i @ PutUint64 (sTerm s) @ drop 16 buf"
    using assms put_bytes_into [of ?i 8 "PutUint64 (sTerm s)" "drop 8 buf"] by simp
  ultimately show ?thesis by (simp add: encodeSnapshotMeta_def snap_bytes_def)
qed

lemma computeTotalSize_eq: "computeTotalSize es = length (concat (map entry_frame es))"
  by (induction es) auto

lemma encode_entries_at_eq:
  assumes "length buf = computeTotalSize es"
  shows "encode_entries_at es (pre @ buf) (length pre) = pre @ concat (map entry_frame es)"
  using assms
proof (induction es arbitrary: pre buf)
  case Nil
  then show ?case by simp
next
  case (Cons e es)
  let ?h = "PutUint32 (word_of_nat (entrySize e))"
  have len: "4 + entrySize e \<le> length buf" using Cons.prems by simp
  then have h: "put_bytes (pre @ buf) (length pre) ?h = (pre @ ?h) @ drop 4 buf"
    by (simp add: put_bytes_into)
  have "encodeEntry e (drop 4 buf) = entry_bytes e @ drop (entrySize e) (drop 4 buf)"
    using len by (intro encodeEntry_eq) simp
  then have "encode_entries_at (e # es) (pre @ buf) (length pre) =
      encode_entries_at es ((pre @ entry_frame e) @ drop (4 + entrySize e) buf)
        (length (pre @ entry_frame e))"
    using h by (simp add: entry_frame_def Let_def ac_simps)
  also have "\<dots> = (pre @ entry_frame e) @ concat (map entry_frame es)"
    using Cons.prems by (intro Cons.IH) simp
  finally show ?case by simp
qed

definition batch_bytes :: "HardState \<Rightarrow> Entry list \<Rightarrow> bytes" where
  "batch_bytes h es =
     hard_bytes h @ PutUint32 (word_of_nat (computeTotalSize es)) @ concat (map entry_frame es)"

lemma encodeSaveBatch_eq: "encodeSaveBatch h es = batch_bytes h es"
proof -
  let ?n = "computeTotalSize es" and ?p = "PutUint32 (word_of_nat (computeTotalSize es))"
  have "encodeHardState h (make_bytes (28 + ?n)) = hard_bytes h @ make_bytes (4 + ?n)"
    by (simp add: encodeHardState_eq make_bytes_def)
  moreover have "put_bytes (hard_bytes h @ make_bytes (4 + ?n)) 24 ?p =
      (hard_bytes h @ ?p) @ make_bytes ?n"
    by (simp add: put_bytes_into make_bytes_def)
  moreover have "encode_entries_at es ((hard_bytes h @ ?p) @ make_bytes ?n)
      (length (hard_bytes h @ ?p)) = (hard_bytes h @ ?p) @ concat (map entry_frame es)"
    by (rule encode_entries_at_eq) simp
  ultimately show ?thesis by (simp add: encodeSaveBatch_def batch_bytes_def Let_def)
qed

lemma length_encodeSaveBatch: "length (encodeSaveBatch h es) = 28 + computeTotalSize es"
  by (simp add: encodeSaveBatch_eq batch_bytes_def computeTotalSize_eq)

section \<open>Round trips\<close>

lemma DecodeEntry_entry_bytes: "DecodeEntry (entry_bytes e) = Inr e"
  by (simp add: DecodeEntry_def entry_bytes_def)

lemma DecodeHardState_hard_bytes: "DecodeHardState (hard_bytes h) = Inr h"
  by (simp add: DecodeHardState_def hard_bytes_def)

lemma DecodeSnapshotMeta_snap_bytes: "DecodeSnapshotMeta (snap_bytes s) = Inr s"
  by (simp add: DecodeSnapshotMeta_def snap_bytes_def)

lemma DecodeEntry_Inr: "DecodeEntry b = Inr e \<Longrightarrow> entry_bytes e = b"
proof -
  assume "DecodeEntry b = Inr e"
  then have len: "16 \<le> length b" and
    e: "e = \<lparr>eIndex = Uint64 b, eTerm = Uint64 (drop 8 b), eData = drop 16 b\<rparr>"
    by (auto simp: DecodeEntry_def split: if_splits)
  have "take 8 b @ take 8 (drop 8 b) @ drop 16 b = b"
    by (metis append_take_drop_id drop_drop numeral_Bit0)
  with len e show ?thesis by (simp add: entry_bytes_def PutUint64_Uint64)
qed

definition entry_fits :: "Entry \<Rightarrow> bool" where
  "entry_fits e \<longleftrightarrow> entrySize e < 2 ^ 32"

definition next_entry :: "bytes \<Rightarrow> Entry chunk" where
  "next_entry b =
     (if b = [] then Chunk_End
      else if length b < 4 then Chunk_Torn
      else if length b < 4 + unat (Uint32 b) then Chunk_Torn
      else
        (case DecodeEntry (take (unat (Uint32 b)) (drop 4 b)) of
           Inl _ \<Rightarrow> Chunk_Torn
         | Inr e \<Rightarrow> Chunk e (drop (4 + unat (Uint32 b)) b)))"

lemma Uint32_take: "4 \<le> n \<Longrightarrow> Uint32 (take n b) = Uint32 b"
  by (simp add: Uint32_def min_absorb1)

lemma Uint64_take: "8 \<le> n \<Longrightarrow> Uint64 (take n b) = Uint64 b"
  by (simp add: Uint64_def min_absorb1)

lemma unat_entrySize [simp]:
  "entry_fits e \<Longrightarrow> unat (word_of_nat (entrySize e) :: u32) = entrySize e"
  by (simp add: entry_fits_def unat_of_nat)

interpretation entry_stream: framed_stream entry_frame next_entry entry_fits
proof
  show "next_entry [] = Chunk_End" by (simp add: next_entry_def)
next
  fix e rest assume fits: "entry_fits e"
  then show "next_entry (entry_frame e @ rest) = Chunk e rest"
    by (simp add: next_entry_def entry_frame_def DecodeEntry_entry_bytes)
next
  fix e k assume fits: "entry_fits e" and k: "0 < k" "k < length (entry_frame e)"
  have "Uint32 (entry_frame e) = word_of_nat (entrySize e)" by (simp add: entry_frame_def)
  with fits have "4 \<le> k \<Longrightarrow> unat (Uint32 (take k (entry_frame e))) = entrySize e"
    by (simp add: Uint32_take)
  with k show "next_entry (take k (entry_frame e)) = Chunk_Torn"
    by (auto simp: next_entry_def)
next
  fix e show "entry_frame e \<noteq> []" by simp
qed

declare decodeEntries_loop.simps [simp del]

lemma decodeEntries_loop_chunks:
  "decodeEntries_loop data idx es =
     (case read_chunks next_entry (drop idx data) of
        (xs, ok) \<Rightarrow> if ok then Inr (es @ xs) else Inl ErrCorruption)"
proof (induction "length (drop idx data)" arbitrary: idx es rule: less_induct)
  case less
  let ?buf = "drop idx data"
  let ?n = "unat (Uint32 ?buf)"
  have hdr: "Uint32 (take 4 ?buf) = Uint32 ?buf" by (simp add: Uint32_take)
  show ?case
  proof (cases "length ?buf < 4 \<or> length ?buf < 4 + ?n")
    case True
    then show ?thesis
      by (subst decodeEntries_loop.simps, subst read_chunks.simps)
        (auto simp: next_entry_def Let_def hdr)
  next
    case short: False
    show ?thesis
    proof (cases "DecodeEntry (take ?n (drop (idx + 4) data))")
      case (Inl err)
      with short show ?thesis
        by (subst decodeEntries_loop.simps, subst read_chunks.simps)
          (auto simp: next_entry_def Let_def hdr add.commute [of 4 idx])
    next
      case (Inr e)
      let ?rest = "drop (idx + 4 + ?n) data"
      obtain xs ok where r: "read_chunks next_entry ?rest = (xs, ok)" by fastforce
      have rest: "drop (4 + ?n) ?buf = ?rest" by (simp add: ac_simps)
      have nx: "next_entry ?buf = Chunk e ?rest"
        using short Inr rest by (auto simp: next_entry_def add.commute [of 4 idx])
      then have "read_chunks next_entry ?buf = (e # xs, ok)"
        using short r by (subst read_chunks.simps) auto
      moreover have "decodeEntries_loop data idx es =
          decodeEntries_loop data (idx + 4 + ?n) (es @ [e])"
        using short Inr by (subst decodeEntries_loop.simps) (auto simp: Let_def hdr)
      moreover have "decodeEntries_loop data (idx + 4 + ?n) (es @ [e]) =
          (if ok then Inr ((es @ [e]) @ xs) else Inl ErrCorruption)"
        using short less [of "idx + 4 + ?n" "es @ [e]"] r by auto
      ultimately show ?thesis by simp
    qed
  qed
qed

lemma decodeEntries_frames:
  assumes "\<forall>e \<in> set es. entry_fits e"
  shows "decodeEntries (concat (map entry_frame es)) = Inr es"
  using entry_stream.read_all [OF assms]
  by (simp add: decodeEntries_def decodeEntries_loop_chunks)

definition batch_fits :: "Entry list \<Rightarrow> bool" where
  "batch_fits es \<longleftrightarrow> computeTotalSize es < 2 ^ 32"

lemma batch_fits_entry: "batch_fits es \<Longrightarrow> e \<in> set es \<Longrightarrow> entry_fits e"
  by (induction es) (auto simp: batch_fits_def entry_fits_def)

lemma decodeSaveBatch_batch_bytes:
  assumes "batch_fits es"
  shows "decodeSaveBatch (batch_bytes h es) = Inr (h, es)"
proof -
  have "decodeEntries (concat (map entry_frame es)) = Inr es"
    using assms batch_fits_entry by (intro decodeEntries_frames) blast
  moreover have "unat (word_of_nat (computeTotalSize es) :: u32) = computeTotalSize es"
    using assms by (simp add: batch_fits_def unat_of_nat)
  ultimately show ?thesis
    by (simp add: decodeSaveBatch_def batch_bytes_def DecodeHardState_hard_bytes
        computeTotalSize_eq [symmetric])
qed

end
