(* ===== verification/Raft_WAL.thy ===== *)
theory Raft_WAL
  imports Raft_Codec "HOL-Library.AList" "HOL-Library.Char_ord" "HOL-Library.List_Lexorder"
begin

text \<open>
  \<open>raft/wal.go\<close> and \<open>raft/segment.go\<close>: one append-only file of frames, and the log cut
  into segments. The directory is an association list from file names to contents; a
  \<open>wal\<close> is the open handle (its name, the size the struct tracks, the read offset, whether
  it is open). Files are opened with \<open>O_APPEND\<close>, so a write lands at the end of the file.
  Every system call can fail: its outcome is an argument of the operation, and a failed
  write may leave any prefix of the frame behind.
\<close>

section \<open>Files and system calls\<close>

type_synonym disk = "(string \<times> bytes) list"

record disk_io =
  io_write :: "nat option" \<comment> \<open>\<open>Some n\<close>: the write stops with an error after \<open>n\<close> bytes\<close>
  io_sync :: bool
  io_close :: bool
  io_open :: bool
  io_truncate :: bool
  io_remove :: bool

definition good_io :: disk_io where
  "good_io = \<lparr>io_write = None, io_sync = True, io_close = True, io_open = True,
     io_truncate = True, io_remove = True\<rparr>"

definition file_bytes :: "disk \<Rightarrow> string \<Rightarrow> bytes" where
  "file_bytes d f = (case map_of d f of None \<Rightarrow> [] | Some b \<Rightarrow> b)"

definition set_file :: "disk \<Rightarrow> string \<Rightarrow> bytes \<Rightarrow> disk" where
  "set_file d f b = AList.update f b d"

lemma file_bytes_set_file [simp]:
  "file_bytes (set_file d f b) g = (if g = f then b else file_bytes d g)"
  by (simp add: file_bytes_def set_file_def update_conv')

lemma keys_set_file [simp]: "fst ` set (set_file d f b) = insert f (fst ` set d)"
  by (simp add: set_file_def dom_update)

lemma distinct_set_file: "distinct (map fst d) \<Longrightarrow> distinct (map fst (set_file d f b))"
  by (simp add: set_file_def distinct_update)

section \<open>wal.go\<close>

record wal =
  wfilename :: string
  wsize :: int
  wpos :: nat
  wopen :: bool

definition newWAL :: "disk_io \<Rightarrow> disk \<Rightarrow> string \<Rightarrow> disk \<times> (raft_error + wal)" where
  "newWAL io d filename =
     (if \<not> io_open io then (d, Inl ErrIO)
      else
        (let d' = (if map_of d filename = None then set_file d filename [] else d) in
         (d', Inr \<lparr>wfilename = filename, wsize = int (length (file_bytes d' filename)),
                   wpos = 0, wopen = True\<rparr>)))"

definition openWALReadOnly :: "disk_io \<Rightarrow> disk \<Rightarrow> string \<Rightarrow> raft_error + wal" where
  "openWALReadOnly io d filename =
     (if \<not> io_open io then Inl ErrIO
      else
        (case map_of d filename of
           None \<Rightarrow> Inl ErrIO
         | Some b \<Rightarrow>
             Inr \<lparr>wfilename = filename, wsize = int (length b), wpos = 0, wopen = True\<rparr>))"

definition wal_close :: "disk_io \<Rightarrow> wal \<Rightarrow> wal \<times> raft_error option" where
  "wal_close io w =
     (w\<lparr>wopen := False\<rparr>, if wopen w \<and> io_close io then None else Some ErrIO)"

definition wal_clear :: "disk_io \<Rightarrow> disk \<Rightarrow> wal \<Rightarrow> disk \<times> wal \<times> raft_error option" where
  "wal_clear io d w =
     (case wal_close io w of
        (w', Some err) \<Rightarrow> (d, w', Some err)
      | (w', None) \<Rightarrow>
          if \<not> io_remove io then (d, w', Some ErrIO)
          else (AList.delete (wfilename w) d, w', None))"

definition wal_sync :: "disk_io \<Rightarrow> wal \<Rightarrow> raft_error option" where
  "wal_sync io w = (if wopen w \<and> io_sync io then None else Some ErrIO)"

definition wal_write :: "disk_io \<Rightarrow> disk \<Rightarrow> wal \<Rightarrow> bytes \<Rightarrow> disk \<times> wal \<times> raft_error option" where
  "wal_write io d w batch =
     (let framed = make_bytes (frameHeaderSize + length batch);
          framed = put_bytes framed 0 (PutUint32 (word_of_nat (length batch)));
          framed = put_bytes framed frameHeaderSize batch
      in if \<not> wopen w then (d, w, Some ErrIO)
         else
           (let n = (case io_write io of None \<Rightarrow> length framed | Some k \<Rightarrow> min k (length framed));
                content = file_bytes d (wfilename w) @ take n framed
            in (set_file d (wfilename w) content,
                w\<lparr>wsize := wsize w + int n, wpos := length content\<rparr>,
                if io_write io = None then None else Some ErrIO)))"

datatype read_result = ReadEOF | ReadErr raft_error | ReadBatch bytes

text \<open>
  \<open>io.ReadFull\<close> returns \<open>EOF\<close> when nothing is left and \<open>ErrUnexpectedEOF\<close> after a
  partial read, which moves the offset to the end of the file.
\<close>

definition wal_read :: "disk \<Rightarrow> wal \<Rightarrow> wal \<times> read_result" where
  "wal_read d w =
     (let content = file_bytes d (wfilename w);
          avail = drop (wpos w) content
      in if \<not> wopen w then (w, ReadErr ErrIO)
         else if avail = [] then (w, ReadEOF)
         else if length avail < frameHeaderSize then
           (w\<lparr>wpos := length content\<rparr>, ReadErr ErrTailCorruption)
         else
           (let size = unat (Uint32 (take frameHeaderSize avail));
                current = wpos w + frameHeaderSize;
                w' = w\<lparr>wpos := current\<rparr>;
                remaining = wsize w - int current
            in if int size > remaining then (w', ReadErr ErrTailCorruption)
               else
                 (let rest = drop current content in
                  if length rest < size then
                    (w'\<lparr>wpos := length content\<rparr>, ReadErr ErrTailCorruption)
                  else (w'\<lparr>wpos := current + size\<rparr>, ReadBatch (take size rest)))))"

definition wal_truncate :: "disk_io \<Rightarrow> disk \<Rightarrow> wal \<Rightarrow> nat \<Rightarrow> disk \<times> wal \<times> raft_error option" where
  "wal_truncate io d w offset =
     (case wal_close io w of
        (w', Some err) \<Rightarrow> (d, w', Some err)
      | (w', None) \<Rightarrow>
          if \<not> io_truncate io then (d, w', Some ErrIO)
          else
            (let content = file_bytes d (wfilename w);
                 d' = set_file d (wfilename w)
                        (take offset content @ replicate (offset - length content) 0)
             in if \<not> io_open io then (d', w', Some ErrIO)
                else (d', w'\<lparr>wsize := int offset, wpos := 0, wopen := True\<rparr>, None)))"

section \<open>segment.go: names\<close>

definition segmentPrefix :: string where "segmentPrefix = ''wal-''"
definition segmentSuffix :: string where "segmentSuffix = ''.log''"
definition defaultSegmentLimit :: int where "defaultSegmentLimit = 64 * 1000 * 1000"

definition digit_char :: "nat \<Rightarrow> char" where
  "digit_char k = char_of (48 + k)"

fun dec_digits :: "nat \<Rightarrow> string" where
  "dec_digits n = (if n < 10 then [digit_char n] else dec_digits (n div 10) @ [digit_char (n mod 10)])"

declare dec_digits.simps [simp del]

text \<open>\<open>%08d\<close>: at least eight digits, padded with zeros.\<close>

definition segmentName :: "u32 \<Rightarrow> string" where
  "segmentName seq =
     (let digits = dec_digits (unat seq) in
      segmentPrefix @ replicate (8 - length digits) (CHR ''0'') @ digits @ segmentSuffix)"

definition is_digit :: "char \<Rightarrow> bool" where
  "is_digit c \<longleftrightarrow> 48 \<le> (of_char c :: nat) \<and> (of_char c :: nat) \<le> 57"

fun digits_value :: "nat \<Rightarrow> string \<Rightarrow> nat" where
  "digits_value acc [] = acc"
| "digits_value acc (c # cs) = digits_value (10 * acc + (of_char c - 48)) cs"

text \<open>Leading blanks are skipped by every scan verb; a newline is an error.\<close>

fun skip_space :: "string \<Rightarrow> string option" where
  "skip_space [] = Some []"
| "skip_space (c # cs) =
     (if (of_char c :: nat) = 10 then None
      else if (of_char c :: nat) \<in> {9, 11, 12, 13, 32} then skip_space cs
      else Some (c # cs))"

text \<open>\<open>fmt.Sscanf(s, "%08d", &seq)\<close> reads at most eight digits and ignores what follows.\<close>

definition Sscanf_08d :: "string \<Rightarrow> u32 option" where
  "Sscanf_08d s =
     (case skip_space s of
        None \<Rightarrow> None
      | Some s' \<Rightarrow>
          (let ds = takeWhile is_digit (take 8 s') in
           if ds = [] then None else Some (word_of_nat (digits_value 0 ds))))"

definition parseSegmentSeq :: "string \<Rightarrow> u32 option" where
  "parseSegmentSeq name =
     (if take (length segmentPrefix) name \<noteq> segmentPrefix
         \<or> drop (length name - length segmentSuffix) name \<noteq> segmentSuffix
      then None
      else Sscanf_08d (take (length name - length segmentSuffix - length segmentPrefix)
                         (drop (length segmentPrefix) name)))"

section \<open>segment.go: the segmented log\<close>

record segmentedWAL =
  segmentLimit :: int
  segments :: "string list"
  current :: wal

definition listSegments :: "disk \<Rightarrow> string list" where
  "listSegments d = sort (filter (\<lambda>n. parseSegmentSeq n \<noteq> None) (map fst d))"

definition newSegmentedWAL :: "disk_io \<Rightarrow> disk \<Rightarrow> int \<Rightarrow> disk \<times> (raft_error + segmentedWAL)" where
  "newSegmentedWAL io d limit =
     (let limit' = (if limit \<le> 0 then defaultSegmentLimit else limit);
          segs = listSegments d;
          name = (if segs = [] then segmentName 0 else last segs);
          segs' = (if segs = [] then [segmentName 0] else segs)
      in case newWAL io d name of
           (d', Inl err) \<Rightarrow> (d', Inl err)
         | (d', Inr w) \<Rightarrow>
             (d', Inr \<lparr>segmentLimit = limit', segments = segs', current = w\<rparr>))"

definition seg_write ::
  "disk_io \<Rightarrow> disk \<Rightarrow> segmentedWAL \<Rightarrow> bytes \<Rightarrow> disk \<times> segmentedWAL \<times> raft_error option" where
  "seg_write io d sw batch =
     (case wal_write io d (current sw) batch of (d', w, err) \<Rightarrow> (d', sw\<lparr>current := w\<rparr>, err))"

definition seg_sync :: "disk_io \<Rightarrow> segmentedWAL \<Rightarrow> raft_error option" where
  "seg_sync io sw = wal_sync io (current sw)"

definition cut :: "disk_io \<Rightarrow> disk \<Rightarrow> segmentedWAL \<Rightarrow> disk \<times> segmentedWAL \<times> raft_error option" where
  "cut io d sw =
     (case wal_sync io (current sw) of
        Some err \<Rightarrow> (d, sw, Some err)
      | None \<Rightarrow>
          (case wal_close io (current sw) of
             (w, Some err) \<Rightarrow> (d, sw\<lparr>current := w\<rparr>, Some err)
           | (w, None) \<Rightarrow>
               (let lastSeq = (case parseSegmentSeq (last (segments sw)) of
                                 None \<Rightarrow> 0 | Some s \<Rightarrow> s);
                    name = segmentName (lastSeq + 1)
                in case newWAL io d name of
                     (d', Inl err) \<Rightarrow> (d', sw\<lparr>current := w\<rparr>, Some err)
                   | (d', Inr w') \<Rightarrow>
                       (d', sw\<lparr>segments := segments sw @ [name], current := w'\<rparr>, None))))"

definition maybeCut :: "disk_io \<Rightarrow> disk \<Rightarrow> segmentedWAL \<Rightarrow> disk \<times> segmentedWAL \<times> raft_error option" where
  "maybeCut io d sw =
     (if wsize (current sw) \<ge> segmentLimit sw then cut io d sw else (d, sw, None))"

lemma wal_read_advances:
  "wal_read d w = (w', ReadBatch b) \<Longrightarrow>
     wfilename w' = wfilename w \<and> wpos w' = wpos w + 4 + length b
     \<and> wpos w' \<le> length (file_bytes d (wfilename w))"
  by (auto simp: wal_read_def Let_def split: if_splits)

datatype 's seg_result = SegOk 's | SegTail nat 's | SegErr raft_error

text \<open>
  \<open>readSegmentFrames\<close> hands every frame to the callback, which updates the caller's state
  or fails; a torn frame is reported with the position after the last good one.
\<close>

function readSegmentFrames ::
  "disk \<Rightarrow> wal \<Rightarrow> (string \<Rightarrow> bytes \<Rightarrow> 's \<Rightarrow> raft_error + 's) \<Rightarrow> 's \<Rightarrow> nat \<Rightarrow> wal \<times> 's seg_result" where
  "readSegmentFrames d w fn st goodPos =
     (case wal_read d w of
        (w', ReadEOF) \<Rightarrow> (w', SegOk st)
      | (w', ReadErr err) \<Rightarrow>
          if err = ErrTailCorruption then (w', SegTail goodPos st) else (w', SegErr err)
      | (w', ReadBatch batch) \<Rightarrow>
          (case fn (wfilename w) batch st of
             Inl err \<Rightarrow> (w', SegErr err)
           | Inr st' \<Rightarrow>
               readSegmentFrames d w' fn st' (goodPos + (frameHeaderSize + length batch))))"
  by pat_completeness auto
termination
  by (relation "measure (\<lambda>(d, w, fn, st, g). length (file_bytes d (wfilename w)) - wpos w)")
    (auto dest!: sym [of _ "wal_read _ _"] wal_read_advances)

declare readSegmentFrames.simps [simp del]

fun readAll_segments ::
  "disk_io \<Rightarrow> (string \<Rightarrow> bytes \<Rightarrow> 's \<Rightarrow> raft_error + 's) \<Rightarrow> disk \<Rightarrow> wal \<Rightarrow> string list \<Rightarrow> 's
     \<Rightarrow> disk \<times> wal \<times> (raft_error + 's)" where
  "readAll_segments io fn d cur [] st = (d, cur, Inr st)"
| "readAll_segments io fn d cur [name] st =
     (case readSegmentFrames d (cur\<lparr>wpos := 0\<rparr>) fn st 0 of
        (w, SegOk st') \<Rightarrow> (d, w, Inr st')
      | (w, SegErr err) \<Rightarrow> (d, w, Inl err)
      | (w, SegTail goodPos st') \<Rightarrow>
          (case wal_truncate io d w goodPos of
             (d', w', Some err) \<Rightarrow> (d', w', Inl err)
           | (d', w', None) \<Rightarrow> (d', w', Inr st')))"
| "readAll_segments io fn d cur (name # n2 # rest) st =
     (case openWALReadOnly io d name of
        Inl err \<Rightarrow> (d, cur, Inl err)
      | Inr r \<Rightarrow>
          (case readSegmentFrames d r fn st 0 of
             (_, SegOk st') \<Rightarrow> readAll_segments io fn d cur (n2 # rest) st'
           | (_, SegErr err) \<Rightarrow> (d, cur, Inl err)
           | (_, SegTail goodPos st') \<Rightarrow> (d, cur, Inl (ErrSealedCorruption name))))"

definition readAll ::
  "disk_io \<Rightarrow> disk \<Rightarrow> segmentedWAL \<Rightarrow> (string \<Rightarrow> bytes \<Rightarrow> 's \<Rightarrow> raft_error + 's) \<Rightarrow> 's
     \<Rightarrow> disk \<times> segmentedWAL \<times> (raft_error + 's)" where
  "readAll io d sw fn st =
     (case readAll_segments io fn d (current sw) (segments sw) st of
        (d', w, res) \<Rightarrow> (d', sw\<lparr>current := w\<rparr>, res))"

text \<open>An already missing file is no error; another failed removal stops the loop.\<close>

fun deleteSegments_loop ::
  "disk_io \<Rightarrow> string \<Rightarrow> (string \<Rightarrow> bool) \<Rightarrow> disk \<Rightarrow> string list \<Rightarrow> string list
     \<Rightarrow> disk \<times> (raft_error + string list)" where
  "deleteSegments_loop io cur shouldDelete d [] kept = (d, Inr kept)"
| "deleteSegments_loop io cur shouldDelete d (name # rest) kept =
     (if name = cur \<or> \<not> shouldDelete name then
        deleteSegments_loop io cur shouldDelete d rest (kept @ [name])
      else if map_of d name \<noteq> None \<and> \<not> io_remove io then (d, Inl ErrIO)
      else deleteSegments_loop io cur shouldDelete (AList.delete name d) rest kept)"

definition deleteSegments ::
  "disk_io \<Rightarrow> disk \<Rightarrow> segmentedWAL \<Rightarrow> (string \<Rightarrow> bool) \<Rightarrow> disk \<times> segmentedWAL \<times> raft_error option" where
  "deleteSegments io d sw shouldDelete =
     (case deleteSegments_loop io (wfilename (current sw)) shouldDelete d (segments sw) [] of
        (d', Inl err) \<Rightarrow> (d', sw, Some err)
      | (d', Inr kept) \<Rightarrow> (d', sw\<lparr>segments := kept\<rparr>, None))"

definition segmentCount :: "segmentedWAL \<Rightarrow> nat" where
  "segmentCount sw = length (segments sw)"

definition currentSegment :: "segmentedWAL \<Rightarrow> string" where
  "currentSegment sw = wfilename (current sw)"

section \<open>Frames\<close>

definition wal_frame :: "bytes \<Rightarrow> bytes" where
  "wal_frame b = PutUint32 (word_of_nat (length b)) @ b"

definition frame_fits :: "bytes \<Rightarrow> bool" where
  "frame_fits b \<longleftrightarrow> length b < 2 ^ 32"

definition next_frame :: "bytes \<Rightarrow> bytes chunk" where
  "next_frame b =
     (if b = [] then Chunk_End
      else if length b < 4 + unat (Uint32 b) \<or> length b < 4 then Chunk_Torn
      else Chunk (take (unat (Uint32 b)) (drop 4 b)) (drop (4 + unat (Uint32 b)) b))"

lemma length_wal_frame [simp]: "length (wal_frame b) = 4 + length b"
  by (simp add: wal_frame_def)

lemma unat_frame_length [simp]:
  "frame_fits b \<Longrightarrow> unat (word_of_nat (length b) :: u32) = length b"
  by (simp add: frame_fits_def unat_of_nat)

interpretation wal_stream: framed_stream wal_frame next_frame frame_fits
proof
  show "next_frame [] = Chunk_End" by (simp add: next_frame_def)
next
  fix b rest assume "frame_fits b"
  then show "next_frame (wal_frame b @ rest) = Chunk b rest"
    by (simp add: next_frame_def wal_frame_def)
next
  fix b k assume fits: "frame_fits b" and k: "0 < k" "k < length (wal_frame b)"
  have "Uint32 (wal_frame b) = word_of_nat (length b)" by (simp add: wal_frame_def)
  with fits have "4 \<le> k \<Longrightarrow> unat (Uint32 (take k (wal_frame b))) = length b"
    by (simp add: Uint32_take)
  moreover have "take k (wal_frame b) \<noteq> []" using k by (auto simp: wal_frame_def)
  ultimately show "next_frame (take k (wal_frame b)) = Chunk_Torn"
    using k by (auto simp: next_frame_def)
next
  fix b show "wal_frame b \<noteq> []" by (simp add: wal_frame_def)
qed

text \<open>The size field of an open handle agrees with its file.\<close>

definition wal_ok :: "disk \<Rightarrow> wal \<Rightarrow> bool" where
  "wal_ok d w \<longleftrightarrow> wopen w \<and> map_of d (wfilename w) \<noteq> None
     \<and> wsize w = int (length (file_bytes d (wfilename w)))"

lemma wal_write_eq:
  assumes "wopen w"
  shows "wal_write io d w batch =
    (let n = (case io_write io of None \<Rightarrow> 4 + length batch | Some k \<Rightarrow> min k (4 + length batch));
         content = file_bytes d (wfilename w) @ take n (wal_frame batch)
     in (set_file d (wfilename w) content,
         w\<lparr>wsize := wsize w + int n, wpos := length content\<rparr>,
         if io_write io = None then None else Some ErrIO))"
proof -
  let ?h = "PutUint32 (word_of_nat (length batch))"
  have "put_bytes (make_bytes (4 + length batch)) 0 ?h = ?h @ make_bytes (length batch)"
    using put_bytes_into [of "[]" 0 ?h "make_bytes (4 + length batch)"]
    by (simp add: make_bytes_def)
  moreover have "put_bytes (?h @ make_bytes (length batch)) 4 batch = ?h @ batch"
    by (simp add: put_bytes_into)
  ultimately show ?thesis
    using assms by (auto simp add: wal_write_def wal_frame_def Let_def split: option.split)
qed

lemma wal_write_good:
  assumes "wopen w"
  shows "wal_write good_io d w batch =
    (let content = file_bytes d (wfilename w) @ wal_frame batch in
     (set_file d (wfilename w) content,
      w\<lparr>wsize := wsize w + int (4 + length batch), wpos := length content\<rparr>, None))"
  using assms by (simp add: wal_write_eq good_io_def Let_def)

lemma wal_ok_pos [simp]: "wal_ok d (w\<lparr>wpos := p\<rparr>) = wal_ok d w"
  by (simp add: wal_ok_def)

lemma wal_read_next:
  assumes "wal_ok d w" and "content = file_bytes d (wfilename w)"
  shows "next_frame (drop (wpos w) content) = Chunk_End \<Longrightarrow> wal_read d w = (w, ReadEOF)"
    and "next_frame (drop (wpos w) content) = Chunk_Torn \<Longrightarrow>
      snd (wal_read d w) = ReadErr ErrTailCorruption"
    and "next_frame (drop (wpos w) content) = Chunk b rest \<Longrightarrow>
      wal_read d w = (w\<lparr>wpos := wpos w + 4 + length b\<rparr>, ReadBatch b)"
proof -
  let ?a = "drop (wpos w) content"
  define n where "n = unat (Uint32 ?a)"
  have o: "wopen w" and sz: "wsize w = int (length content)"
    using assms by (auto simp: wal_ok_def)
  have hdr: "unat (Uint32 (take 4 ?a)) = n" by (simp add: Uint32_take n_def)
  then have hdri: "uint (Uint32 (take 4 ?a)) = int n" by (metis of_nat_unat)
  note rd = wal_read_def [of d w, folded assms(2), unfolded Let_def]
  {
    assume "next_frame ?a = Chunk_End"
    with o show "wal_read d w = (w, ReadEOF)"
      unfolding rd by (simp add: next_frame_def split: if_splits)
  next
    assume torn: "next_frame ?a = Chunk_Torn"
    show "snd (wal_read d w) = ReadErr ErrTailCorruption"
    proof (cases "length ?a < 4")
      case True
      with torn o show ?thesis unfolding rd by (auto simp: next_frame_def split: if_splits)
    next
      case False
      with torn have "?a \<noteq> []" and "int (length content) - (int (wpos w) + 4) < int n"
        by (auto simp: next_frame_def n_def [symmetric] split: if_splits)
      with False o sz hdri show ?thesis unfolding rd by simp
    qed
  next
    assume "next_frame ?a = Chunk b rest"
    then have "?a \<noteq> []" and "\<not> length ?a < 4" and le: "4 + n \<le> length ?a"
      and b: "b = take n (drop 4 ?a)"
      by (auto simp: next_frame_def n_def [symmetric] split: if_splits)
    moreover from le have "\<not> int (length content) - (int (wpos w) + 4) < int n"
      and "\<not> length content - (wpos w + 4) < n" by auto
    ultimately show "wal_read d w = (w\<lparr>wpos := wpos w + 4 + length b\<rparr>, ReadBatch b)"
      using o sz hdr hdri unfolding rd by (simp add: add.commute)
  }
qed

fun run_handler ::
  "(string \<Rightarrow> bytes \<Rightarrow> 's \<Rightarrow> raft_error + 's) \<Rightarrow> string \<Rightarrow> bytes list \<Rightarrow> 's \<Rightarrow> raft_error + 's" where
  "run_handler fn name [] st = Inr st"
| "run_handler fn name (b # bs) st =
     (case fn name b st of Inl err \<Rightarrow> Inl err | Inr st' \<Rightarrow> run_handler fn name bs st')"

text \<open>
  The frame loop is the reference reader followed by the callback: same frames, same order,
  and the good position is the total length of the frames read.
\<close>

lemma readSegmentFrames_chunks:
  assumes "wal_ok d w"
  shows "snd (readSegmentFrames d w fn st g) =
    (case read_chunks next_frame (drop (wpos w) (file_bytes d (wfilename w))) of
       (bs, ok) \<Rightarrow>
         (case run_handler fn (wfilename w) bs st of
            Inl err \<Rightarrow> SegErr err
          | Inr st' \<Rightarrow> if ok then SegOk st' else SegTail (g + length (concat (map wal_frame bs))) st'))"
  using assms
proof (induction d w fn st g rule: readSegmentFrames.induct)
  case (1 d w fn st g)
  let ?c = "file_bytes d (wfilename w)"
  note rd = wal_read_next [OF "1.prems" refl]
  show ?case
  proof (cases "next_frame (drop (wpos w) ?c)")
    case Chunk_End
    with rd(1) show ?thesis
      by (subst readSegmentFrames.simps, subst read_chunks.simps) simp
  next
    case Chunk_Torn
    then obtain w' where "wal_read d w = (w', ReadErr ErrTailCorruption)"
      using rd(2) by (cases "wal_read d w") auto
    with Chunk_Torn show ?thesis
      by (subst readSegmentFrames.simps, subst read_chunks.simps) simp
  next
    case (Chunk b rest)
    then have rd': "wal_read d w = (w\<lparr>wpos := wpos w + 4 + length b\<rparr>, ReadBatch b)"
      by (rule rd(3))
    have rest: "rest = drop (wpos w + 4 + length b) ?c" and lt: "length rest < length (drop (wpos w) ?c)"
      using Chunk by (auto simp: next_frame_def ac_simps split: if_splits)
    obtain bs ok where r: "read_chunks next_frame rest = (bs, ok)" by fastforce
    then have r2: "read_chunks next_frame (drop (wpos w) ?c) = (b # bs, ok)"
      using Chunk lt by (subst read_chunks.simps) simp
    show ?thesis
    proof (cases "fn (wfilename w) b st")
      case (Inl err)
      with rd' r2 show ?thesis by (subst readSegmentFrames.simps) simp
    next
      case (Inr st')
      have "snd (readSegmentFrames d (w\<lparr>wpos := wpos w + 4 + length b\<rparr>) fn st' (g + (4 + length b))) =
          (case run_handler fn (wfilename w) bs st' of Inl err \<Rightarrow> SegErr err
           | Inr st'' \<Rightarrow> if ok then SegOk st''
               else SegTail (g + (4 + length b) + length (concat (map wal_frame bs))) st'')"
        using "1.IH" [OF rd' [symmetric] refl Inr] "1.prems" r rest by (simp split: sum.split)
      with Inr rd' r2 show ?thesis
        by (subst readSegmentFrames.simps) (simp add: add.assoc split: sum.split)
    qed
  qed
qed

lemma wal_read_handle: "\<exists>p. fst (wal_read d w) = w\<lparr>wpos := p\<rparr>"
  by (auto simp: wal_read_def Let_def intro: exI [of _ "wpos w"])

lemma readSegmentFrames_handle: "\<exists>p. fst (readSegmentFrames d w fn st g) = w\<lparr>wpos := p\<rparr>"
proof (induction d w fn st g rule: readSegmentFrames.induct)
  case (1 d w fn st g)
  obtain p res where rd: "wal_read d w = (w\<lparr>wpos := p\<rparr>, res)"
    using wal_read_handle [of d w] by (metis prod.collapse)
  show ?case
  proof (cases res)
    case (ReadBatch b)
    show ?thesis
    proof (cases "fn (wfilename w) b st")
      case (Inr st')
      with "1" [OF rd [symmetric], of b st'] rd ReadBatch show ?thesis
        by (subst readSegmentFrames.simps) auto
    qed (use rd ReadBatch in \<open>subst readSegmentFrames.simps, auto\<close>)
  qed (use rd in \<open>subst readSegmentFrames.simps, auto\<close>)+
qed

section \<open>Segment names\<close>

text \<open>Below ten to the eight the eight-digit names parse back and sort as their numbers do.\<close>

fun pad_digits :: "nat \<Rightarrow> nat \<Rightarrow> string" where
  "pad_digits 0 n = []"
| "pad_digits (Suc k) n = pad_digits k (n div 10) @ [digit_char (n mod 10)]"

lemma of_digit_char [simp]: "k < 10 \<Longrightarrow> of_char (digit_char k) = 48 + k"
  by (simp add: digit_char_def)

lemma digit_char_0: "digit_char 0 = CHR ''0''"
  unfolding digit_char_def by code_simp

lemma is_digit_char [simp]: "k < 10 \<Longrightarrow> is_digit (digit_char k)"
  by (simp add: is_digit_def)

lemma digit_char_less: "a < 10 \<Longrightarrow> b < 10 \<Longrightarrow> digit_char a < digit_char b \<longleftrightarrow> a < b"
  by (simp add: less_char_def)

lemma length_pad_digits [simp]: "length (pad_digits k n) = k"
  by (induction k arbitrary: n) auto

lemma pad_digits_0: "pad_digits k 0 = replicate k (CHR ''0'')"
  by (induction k) (auto simp: digit_char_0 replicate_append_same)

lemma set_pad_digits: "c \<in> set (pad_digits k n) \<Longrightarrow> is_digit c"
  by (induction k arbitrary: n) auto

lemma dec_digits_pad:
  "0 < k \<Longrightarrow> n < 10 ^ k \<Longrightarrow>
     length (dec_digits n) \<le> k
     \<and> replicate (k - length (dec_digits n)) (CHR ''0'') @ dec_digits n = pad_digits k n"
proof (induction k arbitrary: n)
  case 0
  then show ?case by simp
next
  case (Suc k)
  show ?case
  proof (cases "n < 10")
    case True
    then show ?thesis by (subst (1 2 3) dec_digits.simps) (simp add: pad_digits_0)
  next
    case False
    with Suc.prems have "0 < k" by (cases k) auto
    moreover have "n div 10 < 10 ^ k" using Suc.prems by (simp add: less_mult_imp_div_less mult.commute)
    ultimately show ?thesis using Suc.IH [of "n div 10"] False
      by (subst (1 2 3) dec_digits.simps) auto
  qed
qed

lemma digits_value_snoc: "digits_value a (cs @ [c]) = 10 * digits_value a cs + (of_char c - 48)"
  by (induction cs arbitrary: a) auto

lemma digits_value_pad: "n < 10 ^ k \<Longrightarrow> digits_value 0 (pad_digits k n) = n"
  by (induction k arbitrary: n) (auto simp: digits_value_snoc less_mult_imp_div_less mult.commute)

lemma snoc_less:
  "length xs = length ys \<Longrightarrow>
     xs @ [a] < ys @ [b] \<longleftrightarrow> xs < ys \<or> (xs = ys \<and> (a :: 'a :: linorder) < b)"
  by (induction xs ys rule: list_induct2) auto

lemma digits_less:
  "a < 10 \<Longrightarrow> b < 10 \<Longrightarrow> (10 * x + a < 10 * y + b) = (x < y \<or> (x = y \<and> a < (b :: nat)))"
  by arith

lemma pad_digits_less:
  "m < 10 ^ k \<Longrightarrow> n < 10 ^ k \<Longrightarrow> pad_digits k m < pad_digits k n \<longleftrightarrow> m < n"
proof (induction k arbitrary: m n)
  case 0
  then show ?case by simp
next
  case (Suc k)
  have "m div 10 < 10 ^ k" "n div 10 < 10 ^ k"
    using Suc.prems by (auto simp: less_mult_imp_div_less mult.commute)
  moreover from this have "pad_digits k (m div 10) = pad_digits k (n div 10) \<longleftrightarrow> m div 10 = n div 10"
    by (metis digits_value_pad)
  moreover have "m < n \<longleftrightarrow> m div 10 < n div 10 \<or> (m div 10 = n div 10 \<and> m mod 10 < n mod 10)"
    using digits_less [of "m mod 10" "n mod 10" "m div 10" "n div 10"] by simp
  ultimately show ?case
    using Suc.IH by (simp add: snoc_less digit_char_less)
qed

lemma append_less_same [simp]: "p @ xs < p @ ys \<longleftrightarrow> xs < (ys :: 'a :: linorder list)"
  by (induction p) auto

lemma append_less_suffix:
  "length xs = length ys \<Longrightarrow> xs @ s < ys @ s \<longleftrightarrow> xs < (ys :: 'a :: linorder list)"
  by (induction xs ys rule: list_induct2) auto

lemma segmentName_pad:
  "unat seq < 10 ^ 8 \<Longrightarrow> segmentName seq = segmentPrefix @ pad_digits 8 (unat seq) @ segmentSuffix"
  using dec_digits_pad [of 8 "unat seq"] by (auto simp add: segmentName_def Let_def dest: sym)

lemma segmentName_less:
  "unat a < 10 ^ 8 \<Longrightarrow> unat b < 10 ^ 8 \<Longrightarrow> segmentName a < segmentName b \<longleftrightarrow> unat a < unat b"
  by (simp add: segmentName_pad append_less_suffix pad_digits_less)

lemma Sscanf_pad: "n < 10 ^ 8 \<Longrightarrow> Sscanf_08d (pad_digits 8 n) = Some (word_of_nat n)"
proof -
  assume n: "n < 10 ^ 8"
  obtain c cs where p: "pad_digits 8 n = c # cs"
    by (cases "pad_digits 8 n") (use length_pad_digits [of 8 n] in auto)
  moreover have "is_digit c" using set_pad_digits [of c 8 n] p by simp
  ultimately have "skip_space (pad_digits 8 n) = Some (pad_digits 8 n)"
    by (auto simp: is_digit_def)
  moreover have "takeWhile is_digit (pad_digits 8 n) = pad_digits 8 n"
    using set_pad_digits by (simp add: takeWhile_eq_all_conv)
  moreover have "pad_digits 8 n \<noteq> []" using p by simp
  moreover have "take 8 (pad_digits 8 n) = pad_digits 8 n" by simp
  ultimately show ?thesis
    using digits_value_pad [OF n] by (simp add: Sscanf_08d_def Let_def takeWhile_eq_all_conv [THEN iffD2])
qed

lemma parseSegmentSeq_segmentName:
  "unat seq < 10 ^ 8 \<Longrightarrow> parseSegmentSeq (segmentName seq) = Some seq"
  by (simp add: segmentName_pad parseSegmentSeq_def segmentPrefix_def segmentSuffix_def
      Sscanf_pad)

section \<open>Replaying a directory\<close>

fun run_segments ::
  "(string \<Rightarrow> bytes \<Rightarrow> 's \<Rightarrow> raft_error + 's) \<Rightarrow> (string \<times> bytes list) list \<Rightarrow> 's \<Rightarrow> raft_error + 's" where
  "run_segments fn [] st = Inr st"
| "run_segments fn ((name, bs) # rest) st =
     (case run_handler fn name bs st of Inl err \<Rightarrow> Inl err | Inr st' \<Rightarrow> run_segments fn rest st')"

lemma run_handler_append:
  "run_handler fn name (bs @ cs) st =
     (case run_handler fn name bs st of Inl err \<Rightarrow> Inl err | Inr st' \<Rightarrow> run_handler fn name cs st')"
  by (induction bs arbitrary: st) (auto split: sum.split)

lemma run_segments_append:
  "run_segments fn (B @ C) st =
     (case run_segments fn B st of Inl err \<Rightarrow> Inl err | Inr st' \<Rightarrow> run_segments fn C st')"
  by (induction B arbitrary: st) (auto split: sum.split)

definition frames_of :: "bytes list \<Rightarrow> bytes" where
  "frames_of bs = concat (map wal_frame bs)"

text \<open>The sealed segments of a directory hold exactly the given batches.\<close>

definition holds_segment :: "disk \<Rightarrow> string \<times> bytes list \<Rightarrow> bool" where
  "holds_segment d seg \<longleftrightarrow>
     map_of d (fst seg) = Some (frames_of (snd seg)) \<and> (\<forall>b \<in> set (snd seg). frame_fits b)"

lemma read_frames_of:
  "\<forall>b \<in> set bs. frame_fits b \<Longrightarrow> read_chunks next_frame (frames_of bs) = (bs, True)"
  unfolding frames_of_def by (rule wal_stream.read_all)

lemma read_frames_of_torn:
  "\<forall>b \<in> set bs. frame_fits b \<Longrightarrow> frame_fits b \<Longrightarrow> k < length (wal_frame b) \<Longrightarrow>
     read_chunks next_frame (frames_of bs @ take k (wal_frame b)) = (bs, k = 0)"
  by (cases "k = 0") (auto simp: frames_of_def wal_stream.read_all wal_stream.read_torn)

lemma read_sealed_segment:
  assumes "holds_segment d (name, bs)" and "run_handler fn name bs st = Inr st'"
  shows "\<exists>r w. openWALReadOnly good_io d name = Inr r
    \<and> readSegmentFrames d r fn st 0 = (w, SegOk st')"
proof -
  let ?r = "\<lparr>wfilename = name, wsize = int (length (frames_of bs)), wpos = 0, wopen = True\<rparr>"
  have "openWALReadOnly good_io d name = Inr ?r"
    using assms by (simp add: openWALReadOnly_def good_io_def holds_segment_def)
  moreover have f: "file_bytes d name = frames_of bs"
    using assms by (simp add: file_bytes_def holds_segment_def)
  moreover have "wal_ok d ?r"
    using assms f by (simp add: wal_ok_def holds_segment_def)
  then have "snd (readSegmentFrames d ?r fn st 0) = SegOk st'"
    using readSegmentFrames_chunks [of d ?r fn st 0] f assms
    by (simp add: read_frames_of holds_segment_def)
  ultimately show ?thesis by (metis prod.collapse)
qed

text \<open>
  Replaying a directory: the sealed segments are whole, the last one may end in a torn
  frame. Every complete batch reaches the callback in order, and the torn frame is cut off.
\<close>

lemma readAll_last:
  assumes ok: "wal_ok d cur" and content: "file_bytes d (wfilename cur) = frames_of bs @ take k (wal_frame b)"
    and fits: "\<forall>b \<in> set bs. frame_fits b" "frame_fits b" "k < length (wal_frame b)"
    and run: "run_handler fn (wfilename cur) bs st = Inr st'"
  shows "\<exists>p. readAll_segments good_io fn d cur [name] st =
     ((if k = 0 then d else set_file d (wfilename cur) (frames_of bs)),
      cur\<lparr>wsize := int (length (frames_of bs)), wpos := p\<rparr>, Inr st')"
proof -
  let ?c = "cur\<lparr>wpos := 0\<rparr>"
  have "snd (readSegmentFrames d ?c fn st 0) =
      (if k = 0 then SegOk st' else SegTail (length (frames_of bs)) st')"
    using readSegmentFrames_chunks [of d ?c fn st 0] ok run content
    by (simp add: read_frames_of_torn [OF fits] flip: frames_of_def)
  moreover obtain p where "fst (readSegmentFrames d ?c fn st 0) = cur\<lparr>wpos := p\<rparr>"
    using readSegmentFrames_handle [of d ?c fn st 0] by auto
  ultimately have rd: "readSegmentFrames d ?c fn st 0 =
      (cur\<lparr>wpos := p\<rparr>, if k = 0 then SegOk st' else SegTail (length (frames_of bs)) st')"
    by (simp add: prod_eq_iff)
  show ?thesis
  proof (cases "k = 0")
    case True
    with ok content have "wsize cur = int (length (frames_of bs))" by (simp add: wal_ok_def)
    then have "cur\<lparr>wpos := p\<rparr> = cur\<lparr>wsize := int (length (frames_of bs)), wpos := p\<rparr>" by simp
    with True rd show ?thesis by auto
  next
    case False
    with ok content rd show ?thesis
      by (auto simp: wal_truncate_def wal_close_def good_io_def wal_ok_def Let_def intro!: exI [of _ 0])
  qed
qed

lemma readAll_segments_run:
  assumes "\<forall>seg \<in> set B. holds_segment d seg"
    and "wal_ok d cur" and "file_bytes d (wfilename cur) = frames_of bs @ take k (wal_frame b)"
    and "\<forall>b \<in> set bs. frame_fits b" "frame_fits b" "k < length (wal_frame b)"
    and "run_segments fn (B @ [(wfilename cur, bs)]) st = Inr st'"
  shows "\<exists>p. readAll_segments good_io fn d cur (map fst B @ [wfilename cur]) st =
     ((if k = 0 then d else set_file d (wfilename cur) (frames_of bs)),
      cur\<lparr>wsize := int (length (frames_of bs)), wpos := p\<rparr>, Inr st')"
  using assms
proof (induction B arbitrary: st)
  case Nil
  then show ?case using readAll_last [OF Nil(2-6)] by (auto split: sum.splits)
next
  case (Cons seg B)
  obtain name cs where seg: "seg = (name, cs)" by fastforce
  with Cons.prems obtain st1 where st1: "run_handler fn name cs st = Inr st1"
    and run: "run_segments fn (B @ [(wfilename cur, bs)]) st1 = Inr st'"
    by (auto split: sum.splits)
  obtain r w where r: "openWALReadOnly good_io d name = Inr r"
    and w: "readSegmentFrames d r fn st 0 = (w, SegOk st1)"
    using read_sealed_segment [OF _ st1, of d] Cons.prems(1) seg by auto
  obtain n2 rest where "map fst B @ [wfilename cur] = n2 # rest"
    by (cases "map fst B @ [wfilename cur]") auto
  then show ?case
    using Cons.IH [OF _ Cons.prems(2-6) run] Cons.prems(1) seg r w by simp
qed

end
