(* ===== verification/Log_Interface.thy ===== *)
theory Log_Interface
  imports Raft_Types
begin

text \<open>
  What the raft core relies on when it reads a log: consecutive indices above a base, and
  agreement of \<open>LastIndex\<close>, \<open>Entries\<close> and \<open>Term\<close> on one list of entries. The contract is
  the locale \<open>indexed_log\<close>; the durable storage and the in-memory log on top of it are both
  shown to satisfy it, so the lemmas about ranges hold for either.
\<close>

section \<open>Consecutive entries\<close>

fun contiguous_from :: "nat \<Rightarrow> Entry list \<Rightarrow> bool" where
  "contiguous_from n [] \<longleftrightarrow> True"
| "contiguous_from n (e # es) \<longleftrightarrow> unat (eIndex e) = n \<and> contiguous_from (Suc n) es"

lemma contiguous_from_append:
  "contiguous_from n (xs @ ys) \<longleftrightarrow> contiguous_from n xs \<and> contiguous_from (n + length xs) ys"
  by (induction xs arbitrary: n) auto

lemma contiguous_from_nth:
  "contiguous_from n es \<Longrightarrow> i < length es \<Longrightarrow> unat (eIndex (es ! i)) = n + i"
  by (induction es arbitrary: n i) (auto simp: nth_Cons split: nat.split)

lemma contiguous_from_hd: "contiguous_from n es \<Longrightarrow> es \<noteq> [] \<Longrightarrow> unat (eIndex (hd es)) = n"
  by (cases es) auto

lemma contiguous_from_last:
  "contiguous_from n es \<Longrightarrow> es \<noteq> [] \<Longrightarrow> unat (eIndex (last es)) = n + length es - 1"
  by (cases es) (auto simp: last_conv_nth contiguous_from_nth)

lemma contiguous_from_drop: "contiguous_from n es \<Longrightarrow> contiguous_from (n + k) (drop k es)"
proof (induction es arbitrary: n k)
  case (Cons e es)
  then show ?case using Cons.IH [of "Suc n"] by (cases k) auto
qed simp

lemma contiguous_from_take: "contiguous_from n es \<Longrightarrow> contiguous_from n (take k es)"
  by (induction es arbitrary: n k) (auto simp: take_Cons split: nat.split)

lemma contiguous_from_set:
  "contiguous_from n es \<Longrightarrow> e \<in> set es \<Longrightarrow> n \<le> unat (eIndex e) \<and> unat (eIndex e) < n + length es"
  by (auto simp: in_set_conv_nth contiguous_from_nth)

text \<open>Skipping the entries up to an index is dropping by position.\<close>

lemma contiguous_from_dropWhile:
  "contiguous_from n es \<Longrightarrow> n \<le> Suc (unat i) \<Longrightarrow>
     dropWhile (\<lambda>e. eIndex e \<le> i) es = drop (Suc (unat i) - n) es"
proof (induction es arbitrary: n)
  case Nil
  then show ?case by simp
next
  case (Cons e es)
  show ?case
  proof (cases "n \<le> unat i")
    case True
    with Cons.prems have "eIndex e \<le> i" by (simp add: word_le_nat_alt)
    moreover have "Suc (unat i) - n = Suc (Suc (unat i) - Suc n)" using True by simp
    ultimately show ?thesis using Cons.IH [of "Suc n"] Cons.prems True by simp
  next
    case False
    with Cons.prems show ?thesis by (simp add: word_le_nat_alt)
  qed
qed

section \<open>The contract\<close>

definition log_slice :: "nat \<Rightarrow> Entry list \<Rightarrow> nat \<Rightarrow> nat \<Rightarrow> Entry list" where
  "log_slice base es lo hi = take (hi - lo) (drop (lo - Suc base) es)"

definition log_term :: "nat \<Rightarrow> u64 \<Rightarrow> Entry list \<Rightarrow> nat \<Rightarrow> u64" where
  "log_term base bterm es i = (if i = base then bterm else eTerm (es ! (i - Suc base)))"

definition log_well :: "nat \<Rightarrow> Entry list \<Rightarrow> bool" where
  "log_well base es \<longleftrightarrow> contiguous_from (Suc base) es \<and> base + length es + 1 < 2 ^ 64"

lemma log_well_D:
  assumes "log_well base es"
  shows "contiguous_from (Suc base) es" "base + length es + 1 < 18446744073709551616"
  using assms by (simp_all add: log_well_def)

lemma log_slice_all: "log_slice base es (Suc base) (Suc (base + length es)) = es"
  by (simp add: log_slice_def)

lemma log_slice_append:
  "base < lo \<Longrightarrow> lo \<le> mid \<Longrightarrow> mid \<le> hi \<Longrightarrow>
     log_slice base es lo mid @ log_slice base es mid hi = log_slice base es lo hi"
proof -
  assume a: "base < lo" "lo \<le> mid" "mid \<le> hi"
  then have "hi - lo = (mid - lo) + (hi - mid)" and "drop (mid - Suc base) es = drop (mid - lo) (drop (lo - Suc base) es)"
    by (auto simp: add.commute)
  then show ?thesis by (simp add: log_slice_def take_add)
qed

lemma length_log_slice:
  "base < lo \<Longrightarrow> lo \<le> hi \<Longrightarrow> hi \<le> Suc (base + length es) \<Longrightarrow> length (log_slice base es lo hi) = hi - lo"
  by (simp add: log_slice_def)

lemma nth_log_slice:
  "base < lo \<Longrightarrow> lo + i < hi \<Longrightarrow> hi \<le> Suc (base + length es) \<Longrightarrow>
     log_slice base es lo hi ! i = es ! (lo - Suc base + i)"
  by (simp add: log_slice_def)

lemma contiguous_log_slice:
  "log_well base es \<Longrightarrow> base < lo \<Longrightarrow> contiguous_from lo (log_slice base es lo hi)"
  using contiguous_from_drop [of "Suc base" es "lo - Suc base"]
  by (simp add: log_slice_def log_well_def contiguous_from_take)

locale indexed_log =
  fixes ok :: "'s \<Rightarrow> bool"
    and base :: "'s \<Rightarrow> nat"
    and base_term :: "'s \<Rightarrow> u64"
    and contents :: "'s \<Rightarrow> Entry list"
    and last_index :: "'s \<Rightarrow> u64"
    and fetch :: "'s \<Rightarrow> u64 \<Rightarrow> u64 \<Rightarrow> panic + (raft_error + Entry list)"
    and term_at :: "'s \<Rightarrow> u64 \<Rightarrow> panic + (raft_error + u64)"
  assumes well: "ok s \<Longrightarrow> log_well (base s) (contents s)"
    and last_index: "ok s \<Longrightarrow> unat (last_index s) = base s + length (contents s)"
    and fetch: "ok s \<Longrightarrow> base s < unat lo \<Longrightarrow> lo < hi \<Longrightarrow> unat hi \<le> Suc (base s + length (contents s)) \<Longrightarrow>
      fetch s lo hi = Inr (Inr (log_slice (base s) (contents s) (unat lo) (unat hi)))"
    and term_at: "ok s \<Longrightarrow> base s \<le> unat i \<Longrightarrow> unat i \<le> base s + length (contents s) \<Longrightarrow>
      term_at s i = Inr (Inr (log_term (base s) (base_term s) (contents s) (unat i)))"
    and term_before: "ok s \<Longrightarrow> 0 < unat i \<Longrightarrow> unat i < base s \<Longrightarrow>
      term_at s i = Inr (Inl ErrCompacted)"
begin

lemma last_index_le_iff: "ok s \<Longrightarrow> i \<le> last_index s \<longleftrightarrow> unat i \<le> base s + length (contents s)"
  by (simp add: word_le_nat_alt last_index)

text \<open>A fetched range has consecutive indices, one entry for each index asked for.\<close>

lemma fetch_contiguous:
  assumes "ok s" "base s < unat lo" "lo < hi" "hi \<le> last_index s + 1"
  obtains es where "fetch s lo hi = Inr (Inr es)" "contiguous_from (unat lo) es"
    "length es = unat hi - unat lo"
proof -
  have "unat (last_index s + 1) = Suc (base s + length (contents s))"
    using assms(1) well [OF assms(1)] last_index [OF assms(1)]
    by (simp add: unat_plus_1 log_well_def word_as_nat)
  with assms have hi: "unat hi \<le> Suc (base s + length (contents s))" by (simp add: word_le_nat_alt)
  show ?thesis
    using that [OF fetch [OF assms(1-3) hi]] contiguous_log_slice [OF well [OF assms(1)] assms(2)]
      length_log_slice [OF assms(2) _ hi] assms(3)
    by (simp add: word_less_nat_alt)
qed

text \<open>Two adjacent ranges fetched one after the other are the range fetched at once.\<close>

lemma fetch_split:
  assumes "ok s" "base s < unat lo" "lo < mid" "mid < hi"
    "unat hi \<le> Suc (base s + length (contents s))"
    "fetch s lo mid = Inr (Inr xs)" "fetch s mid hi = Inr (Inr ys)"
  shows "fetch s lo hi = Inr (Inr (xs @ ys))"
  using assms fetch [of s lo mid] fetch [of s mid hi] fetch [of s lo hi]
    log_slice_append [of "base s" "unat lo" "unat mid" "unat hi" "contents s"]
  by (simp add: word_less_nat_alt)

text \<open>\<open>Term\<close> tells the term of the entry that a fetch returns.\<close>

lemma term_of_fetched:
  assumes "ok s" "base s < unat lo" "lo < hi" "unat hi \<le> Suc (base s + length (contents s))"
    "fetch s lo hi = Inr (Inr es)" "i < length es"
  shows "term_at s (eIndex (es ! i)) = Inr (Inr (eTerm (es ! i)))"
proof -
  have lt: "unat lo < unat hi" using assms(3) by (simp add: word_less_nat_alt)
  have es: "es = log_slice (base s) (contents s) (unat lo) (unat hi)"
    using assms fetch [OF assms(1-4)] by simp
  with assms lt have i: "unat lo + i < unat hi"
    by (simp add: length_log_slice)
  have idx: "unat (eIndex (es ! i)) = unat lo + i"
    using contiguous_from_nth [OF contiguous_log_slice [OF well [OF assms(1)] assms(2)]] assms(6) es
    by simp
  then show ?thesis
    using term_at [OF assms(1), of "eIndex (es ! i)"] i assms(2,4) es
    by (simp add: log_term_def nth_log_slice)
qed

end

text \<open>
  A log whose \<open>Term\<close> also refuses every index past its end. Then \<open>Term\<close> decides
  membership.
\<close>

locale closed_log = indexed_log +
  assumes term_after: "ok s \<Longrightarrow> base s + length (contents s) < unat i \<Longrightarrow>
    term_at s i = Inr (Inl ErrUnavailable)"
begin

lemma term_known_iff:
  assumes "ok s" "0 < unat i"
  shows "(\<exists>t. term_at s i = Inr (Inr t)) \<longleftrightarrow> base s \<le> unat i \<and> i \<le> last_index s"
  using assms term_before [of s i] term_after [of s i] term_at [of s i] last_index_le_iff [of s i]
  by (cases "unat i < base s"; cases "base s + length (contents s) < unat i") auto

end

end
