(* ===== verification/Raft_Storage.thy ===== *)
theory Raft_Storage
  imports Raft_WAL Log_Interface
begin

text \<open>
  \<open>raft/storage.go\<close>: the durable log. The state is the struct together with the directory
  it writes to; the lock is not modelled, since each operation runs under it. System calls
  take their outcome as an argument: \<open>io\<close> for the first batch of calls of an operation,
  \<open>cio\<close> for the calls that follow them (cutting a segment, removing segments).
\<close>

section \<open>Definitions\<close>

record DurableStorage =
  disk :: disk
  rw :: segmentedWAL
  sw :: wal
  hs :: HardState
  entries :: "Entry list"
  snap :: SnapshotMeta
  segLastIdx :: "string \<rightharpoonup> u64"
  compactThreshold :: u64

definition snapFilename :: string where "snapFilename = ''snapshot.log''"
definition DefaultCompactThreshold :: u64 where "DefaultCompactThreshold = 10000"

definition InitialState :: "DurableStorage \<Rightarrow> HardState" where
  "InitialState s = hs s"

definition FirstIndex :: "DurableStorage \<Rightarrow> u64" where
  "FirstIndex s =
     (if entries s \<noteq> [] then eIndex (hd (entries s))
      else if sIndex (snap s) = 0 then 0
      else sIndex (snap s) + 1)"

definition LastIndex :: "DurableStorage \<Rightarrow> u64" where
  "LastIndex s =
     (if entries s \<noteq> [] then eIndex (last (entries s))
      else if sIndex (snap s) = 0 then 0
      else sIndex (snap s))"

definition Entries :: "DurableStorage \<Rightarrow> u64 \<Rightarrow> u64 \<Rightarrow> panic + (raft_error + Entry list)" where
  "Entries s lo hi =
     (if lo > hi then Inr (Inl ErrInvalidRange)
      else if sIndex (snap s) > 0 \<and> lo \<le> sIndex (snap s) then Inr (Inl ErrCompacted)
      else
        (let firstIndex = FirstIndex s;
             lastIndex = LastIndex s;
             availableLo = firstIndex;
             availableHi = (if entries s \<noteq> [] then lastIndex + 1 else firstIndex)
         in if lo < availableLo \<or> hi > availableHi then Inr (Inl ErrOutsideRange)
            else if lo = hi then Inr (Inr [])
            else
              and_then (slice_go (unat (lo - firstIndex)) (unat (hi - firstIndex)) (entries s))
                (\<lambda>ents. Inr (Inr ents))))"

definition termWithoutLock :: "DurableStorage \<Rightarrow> u64 \<Rightarrow> panic + (raft_error + u64)" where
  "termWithoutLock s index =
     (if sIndex (snap s) > 0 \<and> index = sIndex (snap s) then Inr (Inr (sTerm (snap s)))
      else if entries s = [] \<or> index < FirstIndex s \<or> index > LastIndex s then
        Inr (Inl ErrNotAvailable)
      else
        and_then (nth_go (entries s) (unat (index - FirstIndex s))) (\<lambda>e. Inr (Inr (eTerm e))))"

definition Term :: "DurableStorage \<Rightarrow> u64 \<Rightarrow> panic + (raft_error + u64)" where
  "Term s i =
     (if i < sIndex (snap s) then Inr (Inl ErrCompacted)
      else if i > LastIndex s then Inr (Inl ErrUnavailable)
      else if i = sIndex (snap s) then Inr (Inr (sTerm (snap s)))
      else and_then (nth_go (entries s) (unat (i - FirstIndex s))) (\<lambda>e. Inr (Inr (eTerm e))))"

definition Snapshot :: "DurableStorage \<Rightarrow> SnapshotMeta" where
  "Snapshot s = snap s"

definition storage_truncateAndAppend ::
  "DurableStorage \<Rightarrow> Entry list \<Rightarrow> panic + (DurableStorage \<times> raft_error option)" where
  "storage_truncateAndAppend s es =
     (if es = [] then Inr (s, None)
      else if entries s = [] then
        (let expected = (if sIndex (snap s) > 0 then sIndex (snap s) + 1 else 1) in
         if eIndex (hd es) \<noteq> expected then
           Inr (s, Some (ErrNonContiguous (eIndex (hd es)) expected))
         else Inr (s\<lparr>entries := entries s @ es\<rparr>, None))
      else
        (let first = eIndex (hd es); last = LastIndex s in
         if first = last + 1 then Inr (s\<lparr>entries := entries s @ es\<rparr>, None)
         else if first > last + 1 then Inr (s, Some (ErrNonContiguous first (last + 1)))
         else if first \<le> FirstIndex s then Inr (s\<lparr>entries := es\<rparr>, None)
         else
           and_then (take_go (unat (first - FirstIndex s)) (entries s))
             (\<lambda>kept. Inr (s\<lparr>entries := kept @ es\<rparr>, None))))"

definition Save ::
  "disk_io \<Rightarrow> disk_io \<Rightarrow> DurableStorage \<Rightarrow> Entry list \<Rightarrow> HardState option
     \<Rightarrow> panic + (DurableStorage \<times> raft_error option)" where
  "Save io cio s es hard =
     (if es = [] \<and> IsEmptyHardState hard then Inr (s, None)
      else
        (let effectiveHard =
               (case hard of
                  None \<Rightarrow> hs s
                | Some h \<Rightarrow> if IsEmptyHardState (Some h) then hs s else h);
             buf = encodeSaveBatch effectiveHard es
         in case seg_write io (disk s) (rw s) buf of
              (d1, rw1, we) \<Rightarrow>
                (let s1 = s\<lparr>disk := d1, rw := rw1\<rparr>;
                     se = (if we = None then seg_sync io rw1 else None)
                 in if we \<noteq> None \<or> se \<noteq> None then Inr (s1, Some ErrIO)
                    else
                      (let s2 = (if es \<noteq> [] then
                                   s1\<lparr>segLastIdx :=
                                        (segLastIdx s1)(currentSegment rw1 \<mapsto> eIndex (last es))\<rparr>
                                 else s1)
                       in case maybeCut cio (disk s2) (rw s2) of
                            (d3, rw3, ce) \<Rightarrow>
                              (let s3 = s2\<lparr>disk := d3, rw := rw3\<rparr> in
                               if ce \<noteq> None then Inr (s3, ce)
                               else storage_truncateAndAppend (s3\<lparr>hs := effectiveHard\<rparr>) es)))))"

definition persistSnapshotMeta ::
  "disk_io \<Rightarrow> DurableStorage \<Rightarrow> SnapshotMeta \<Rightarrow> DurableStorage \<times> raft_error option" where
  "persistSnapshotMeta io s sn =
     (let buf = encodeSnapshotMeta sn (make_bytes SnapshotMetaBytes) in
      case wal_truncate io (disk s) (sw s) 0 of
        (d1, w1, Some err) \<Rightarrow> (s\<lparr>disk := d1, sw := w1\<rparr>, Some err)
      | (d1, w1, None) \<Rightarrow>
          (case wal_write io d1 w1 buf of
             (d2, w2, we) \<Rightarrow>
               (let se = (if we = None then wal_sync io w2 else None) in
                (s\<lparr>disk := d2, sw := w2\<rparr>,
                 if we \<noteq> None \<or> se \<noteq> None then Some ErrIO else None))))"

text \<open>The loop skips the compacted prefix; nil and empty are the same list.\<close>

definition filterRetainedEntries :: "Entry list \<Rightarrow> u64 \<Rightarrow> Entry list" where
  "filterRetainedEntries es lastIncludedIndex =
     (if lastIncludedIndex = 0 then es
      else dropWhile (\<lambda>e. eIndex e \<le> lastIncludedIndex) es)"

text \<open>Names of the segments that may be deleted: the walk stops at the first \<open>break\<close>.\<close>

fun deletable_segments :: "string \<Rightarrow> (string \<rightharpoonup> u64) \<Rightarrow> u64 \<Rightarrow> string list \<Rightarrow> string list" where
  "deletable_segments cur lastIdx boundary [] = []"
| "deletable_segments cur lastIdx boundary (name # rest) =
     (if name = cur then []
      else
        (case lastIdx name of
           None \<Rightarrow> name # deletable_segments cur lastIdx boundary rest
         | Some i \<Rightarrow>
             if i > boundary then []
             else name # deletable_segments cur lastIdx boundary rest))"

definition deleteOldSegments :: "disk_io \<Rightarrow> DurableStorage \<Rightarrow> DurableStorage \<times> raft_error option" where
  "deleteOldSegments io s =
     (let boundary = sIndex (snap s);
          canDelete = deletable_segments (currentSegment (rw s)) (segLastIdx s) boundary
                        (segments (rw s))
      in if canDelete = [] then (s, None)
         else
           (let s1 = s\<lparr>segLastIdx := segLastIdx s |` (- set canDelete)\<rparr> in
            case deleteSegments io (disk s1) (rw s1) (\<lambda>name. name \<in> set canDelete) of
              (d2, rw2, err) \<Rightarrow> (s1\<lparr>disk := d2, rw := rw2\<rparr>, err)))"

definition compactLocked ::
  "disk_io \<Rightarrow> disk_io \<Rightarrow> DurableStorage \<Rightarrow> u64 \<Rightarrow> panic + (DurableStorage \<times> raft_error option)" where
  "compactLocked io cio s index =
     (if sIndex (snap s) > 0 \<and> index \<le> sIndex (snap s) then Inr (s, Some ErrCompacted)
      else if entries s = [] then Inr (s, Some ErrCompactRange)
      else if index > LastIndex s then Inr (s, Some ErrCompactRange)
      else
        and_then (termWithoutLock s index)
          (\<lambda>t. case t of
             Inl err \<Rightarrow> Inr (s, Some err)
           | Inr term \<Rightarrow>
               (let sn = \<lparr>sIndex = index, sTerm = term\<rparr> in
                case persistSnapshotMeta io s sn of
                  (s1, Some err) \<Rightarrow> Inr (s1, Some err)
                | (s1, None) \<Rightarrow>
                    Inr (deleteOldSegments cio
                      (s1\<lparr>entries := dropWhile (\<lambda>e. eIndex e \<le> index) (entries s1),
                          snap := sn\<rparr>)))))"

definition MaybeCompact ::
  "disk_io \<Rightarrow> disk_io \<Rightarrow> DurableStorage \<Rightarrow> u64 \<Rightarrow> panic + (DurableStorage \<times> raft_error option)" where
  "MaybeCompact io cio s appliedIndex =
     (if appliedIndex \<le> sIndex (snap s) then Inr (s, None)
      else if appliedIndex - sIndex (snap s) < compactThreshold s then Inr (s, None)
      else compactLocked io cio s appliedIndex)"

text \<open>A nil snapshot is dereferenced on every path, so it panics.\<close>

definition ApplySnapshot ::
  "disk_io \<Rightarrow> DurableStorage \<Rightarrow> SnapshotMeta option \<Rightarrow> panic + (DurableStorage \<times> raft_error option)" where
  "ApplySnapshot io s sn =
     (case sn of
        None \<Rightarrow> Inl PanicNilSnapshot
      | Some sn \<Rightarrow>
          if sIndex (snap s) > 0 \<and> sIndex sn \<le> sIndex (snap s) then
            Inr (s, Some ErrSnapOutOfDate)
          else
            (case persistSnapshotMeta io s sn of
               (s1, Some err) \<Rightarrow> Inr (s1, Some err)
             | (s1, None) \<Rightarrow>
                 Inr (s1\<lparr>snap := sn,
                         entries := filterRetainedEntries (entries s1) (sIndex sn)\<rparr>, None)))"

section \<open>Opening a directory: replay\<close>

definition replay_batch :: "string \<Rightarrow> bytes \<Rightarrow> DurableStorage \<Rightarrow> raft_error + DurableStorage" where
  "replay_batch seg batch s =
     (case decodeSaveBatch batch of
        Inl err \<Rightarrow> Inl err
      | Inr (h, ents) \<Rightarrow>
          (let s1 = (if ents \<noteq> [] then
                       s\<lparr>segLastIdx := (segLastIdx s)(seg \<mapsto> eIndex (last ents))\<rparr>
                     else s);
               ents' = filterRetainedEntries ents (sIndex (snap s1))
           in case storage_truncateAndAppend (s1\<lparr>hs := h\<rparr>) ents' of
                Inl p \<Rightarrow> Inl (ErrPanic p)
              | Inr (s2, Some err) \<Rightarrow> Inl err
              | Inr (s2, None) \<Rightarrow> Inr s2))"

text \<open>A failed replay still leaves the truncations it made on the disk.\<close>

definition replayLog :: "disk_io \<Rightarrow> DurableStorage \<Rightarrow> disk \<times> (raft_error + DurableStorage)" where
  "replayLog io s =
     (case readAll io (disk s) (rw s) replay_batch (s\<lparr>entries := []\<rparr>) of
        (d, r, Inl err) \<Rightarrow> (d, Inl err)
      | (d, r, Inr s') \<Rightarrow> (d, Inr (s'\<lparr>disk := d, rw := r\<rparr>)))"

text \<open>
  The loop of \<open>replaySnapshotMeta\<close> is the frame loop with a callback that decodes the
  metadata; a torn tail is cut off and is no error.
\<close>

definition replaySnapshotMeta ::
  "disk_io \<Rightarrow> DurableStorage \<Rightarrow> disk \<times> (raft_error + DurableStorage)" where
  "replaySnapshotMeta io s =
     (case readSegmentFrames (disk s) (sw s)
             (\<lambda>_ batch _. case DecodeSnapshotMeta batch of
                            Inl _ \<Rightarrow> Inl ErrCorruption | Inr sn \<Rightarrow> Inr sn)
             empty_SnapshotMeta 0 of
        (w, SegOk sn) \<Rightarrow> (disk s, Inr (s\<lparr>sw := w, snap := sn\<rparr>))
      | (w, SegErr err) \<Rightarrow> (disk s, Inl err)
      | (w, SegTail position sn) \<Rightarrow>
          (case wal_truncate io (disk s) w position of
             (d', w', Some err) \<Rightarrow> (d', Inl err)
           | (d', w', None) \<Rightarrow> (d', Inr (s\<lparr>disk := d', sw := w', snap := sn\<rparr>))))"

definition replay :: "disk_io \<Rightarrow> DurableStorage \<Rightarrow> disk \<times> (raft_error + DurableStorage)" where
  "replay io s =
     (case replaySnapshotMeta io s of
        (d, Inl err) \<Rightarrow> (d, Inl err)
      | (d, Inr s') \<Rightarrow> replayLog io s')"

definition NewDurableStorageWithOptions ::
  "disk_io \<Rightarrow> disk \<Rightarrow> int \<Rightarrow> u64 \<Rightarrow> disk \<times> (raft_error + DurableStorage)" where
  "NewDurableStorageWithOptions io d limit threshold =
     (case newSegmentedWAL io d limit of
        (d1, Inl err) \<Rightarrow> (d1, Inl err)
      | (d1, Inr r) \<Rightarrow>
          (case newWAL io d1 snapFilename of
             (d2, Inl err) \<Rightarrow> (d2, Inl err)
           | (d2, Inr w) \<Rightarrow>
               replay io
                 \<lparr>disk = d2, rw = r, sw = w, hs = empty_HardState, entries = [],
                  snap = empty_SnapshotMeta, segLastIdx = Map.empty,
                  compactThreshold =
                    (if threshold = 0 then DefaultCompactThreshold else threshold)\<rparr>))"

definition NewDurableStorage :: "disk_io \<Rightarrow> disk \<Rightarrow> disk \<times> (raft_error + DurableStorage)" where
  "NewDurableStorage io d = NewDurableStorageWithOptions io d 0 0"

definition storage_Close :: "disk_io \<Rightarrow> DurableStorage \<Rightarrow> DurableStorage \<times> raft_error option" where
  "storage_Close io s =
     (case wal_close io (current (rw s)) of
        (w1, e1) \<Rightarrow>
          (case wal_close io (sw s) of
             (w2, e2) \<Rightarrow>
               (s\<lparr>rw := (rw s)\<lparr>current := w1\<rparr>, sw := w2\<rparr>,
                if e1 \<noteq> None \<or> e2 \<noteq> None then Some ErrIO else None)))"

section \<open>The log it serves\<close>

abbreviation storage_base :: "DurableStorage \<Rightarrow> nat" where
  "storage_base s \<equiv> unat (sIndex (snap s))"

definition storage_ok :: "DurableStorage \<Rightarrow> bool" where
  "storage_ok s \<longleftrightarrow> log_well (storage_base s) (entries s)"

lemma FirstIndex_ok: "storage_ok s \<Longrightarrow> entries s \<noteq> [] \<Longrightarrow> unat (FirstIndex s) = Suc (storage_base s)"
  by (simp add: FirstIndex_def storage_ok_def log_well_def contiguous_from_hd)

lemma LastIndex_ok: "storage_ok s \<Longrightarrow> unat (LastIndex s) = storage_base s + length (entries s)"
  by (auto simp: LastIndex_def storage_ok_def log_well_def contiguous_from_last)

lemma Entries_ok:
  assumes ok: "storage_ok s" and r: "storage_base s < unat lo" "lo < hi"
    "unat hi \<le> Suc (storage_base s + length (entries s))"
  shows "Entries s lo hi = Inr (Inr (log_slice (storage_base s) (entries s) (unat lo) (unat hi)))"
proof -
  have ne: "entries s \<noteq> []" using r by (auto simp: word_less_unat)
  note F = FirstIndex_ok [OF ok ne] and L = LastIndex_ok [OF ok]
  have "unat (LastIndex s + 1) = Suc (unat (LastIndex s))"
    using L ok log_well_D(2) by (intro unat_succ) (simp add: storage_ok_def)
  moreover have "unat (lo - FirstIndex s) = unat lo - Suc (storage_base s)"
    and "unat (hi - FirstIndex s) = unat hi - Suc (storage_base s)"
    using r F by (simp_all add: unat_minus_le word_as_nat)
  moreover have "unat hi - Suc (storage_base s) - (unat lo - Suc (storage_base s)) = unat hi - unat lo"
    and "unat lo - Suc (storage_base s) \<le> unat hi - Suc (storage_base s)"
    and "unat hi - Suc (storage_base s) \<le> length (entries s)"
    using r by (auto simp: word_less_unat)
  ultimately show ?thesis
    using r F L ne by (simp add: Entries_def Let_def slice_go_def log_slice_def word_as_nat)
qed

lemma Term_ok:
  assumes ok: "storage_ok s" and r: "storage_base s \<le> unat i" "unat i \<le> storage_base s + length (entries s)"
  shows "Term s i = Inr (Inr (log_term (storage_base s) (sTerm (snap s)) (entries s) (unat i)))"
proof (cases "i = sIndex (snap s)")
  case True
  then show ?thesis using LastIndex_ok [OF ok] by (simp add: Term_def log_term_def word_as_nat)
next
  case False
  with r have ne: "entries s \<noteq> []" by (auto simp: word_eq_unat)
  have "unat (i - FirstIndex s) = unat i - Suc (storage_base s)"
    using r False FirstIndex_ok [OF ok ne] by (simp add: unat_minus_le word_as_nat)
  then show ?thesis
    using False r LastIndex_ok [OF ok] by (auto simp: Term_def log_term_def nth_go_def word_as_nat)
qed

lemma Term_before: "unat i < storage_base s \<Longrightarrow> Term s i = Inr (Inl ErrCompacted)"
  by (simp add: Term_def word_as_nat)

lemma Term_after:
  "storage_ok s \<Longrightarrow> storage_base s + length (entries s) < unat i \<Longrightarrow> Term s i = Inr (Inl ErrUnavailable)"
  using LastIndex_ok [of s] by (simp add: Term_def word_as_nat)

interpretation storage_log:
  closed_log storage_ok storage_base "\<lambda>s. sTerm (snap s)" entries LastIndex Entries Term
  by unfold_locales (auto simp: LastIndex_ok Entries_ok Term_ok Term_before Term_after storage_ok_def [THEN iffD1])

lemma truncateAndAppend_ok:
  assumes ok: "storage_ok s" and c: "contiguous_from f es" "es \<noteq> []"
    and f: "storage_base s < f" "f \<le> Suc (storage_base s + length (entries s))"
    and b: "f + length es < 2 ^ 64"
  shows "storage_truncateAndAppend s es =
      Inr (s\<lparr>entries := take (f - Suc (storage_base s)) (entries s) @ es\<rparr>, None)"
proof (cases "entries s = []")
  case True
  with ok have "unat (sIndex (snap s) + 1) = Suc (storage_base s)"
    by (intro unat_succ) (auto simp: storage_ok_def dest: log_well_D)
  with True c f show ?thesis
    by (auto simp: storage_truncateAndAppend_def Let_def word_as_nat contiguous_from_hd)
next
  case False
  note F = FirstIndex_ok [OF ok False] and L = LastIndex_ok [OF ok]
  have L1: "unat (LastIndex s + 1) = Suc (unat (LastIndex s))"
    using L ok log_well_D(2) by (intro unat_succ) (simp add: storage_ok_def)
  have h: "unat (eIndex (hd es)) = f" using c by (simp add: contiguous_from_hd)
  moreover have "unat (eIndex (hd es) - FirstIndex s) = f - Suc (storage_base s)"
    using h F f by (simp add: unat_minus_le word_as_nat)
  ultimately show ?thesis
    using False c f F L L1 
    by (auto simp: storage_truncateAndAppend_def Let_def word_as_nat take_go_def le_Suc_eq)
qed

lemma storage_ok_truncateAndAppend:
  assumes ok: "storage_ok s" and c: "contiguous_from f es"
    and f: "storage_base s < f" "f \<le> Suc (storage_base s + length (entries s))"
    and b: "f + length es < 2 ^ 64"
  shows "storage_ok (s\<lparr>entries := take (f - Suc (storage_base s)) (entries s) @ es\<rparr>)"
proof -
  have "min (length (entries s)) (f - Suc (storage_base s)) = f - Suc (storage_base s)"
    using f by simp
  with assms show ?thesis
    by (simp add: storage_ok_def log_well_def contiguous_from_append contiguous_from_take)
qed

lemma truncateAndAppend_gap:
  assumes ok: "storage_ok s" and c: "contiguous_from f es" "es \<noteq> []"
    and f: "Suc (storage_base s + length (entries s)) < f"
  shows "storage_truncateAndAppend s es =
      Inr (s, Some (ErrNonContiguous (eIndex (hd es)) (LastIndex s + 1)))"
proof -
  have L1: "unat (LastIndex s + 1) = Suc (unat (LastIndex s))"
    using LastIndex_ok [OF ok] ok log_well_D(2) by (intro unat_succ) (simp add: storage_ok_def)
  have h: "unat (eIndex (hd es)) = f" using c by (simp add: contiguous_from_hd)
  show ?thesis
  proof (cases "entries s = []")
    case True
    then have "(if 0 < sIndex (snap s) then sIndex (snap s) + 1 else 1) = LastIndex s + 1"
      by (auto simp: LastIndex_def word_as_nat)
    with True c f h L1 LastIndex_ok [OF ok] show ?thesis
      by (simp add: storage_truncateAndAppend_def Let_def word_as_nat)
  next
    case False
    with c f h L1 LastIndex_ok [OF ok] show ?thesis
      by (simp add: storage_truncateAndAppend_def Let_def word_as_nat)
  qed
qed

end
