(* ===== verification/Raft_Log.thy ===== *)
theory Raft_Log
  imports Raft_Storage
begin

text \<open>
  \<open>raft/log.go\<close> and \<open>raft/log_unstable.go\<close>: the log the raft core works on, entries not yet
  persisted (\<open>unstable\<close>) on top of the storage. Slices are lists: that \<open>unstable\<close> hands its
  backing array to the caller of \<open>Ready\<close> is not modelled, and a slice expression past the
  length of a slice is a panic.
\<close>

section \<open>log\_unstable.go\<close>

record unstable =
  uentries :: "Entry list"
  offset :: u64

definition unstable_stableTo :: "unstable \<Rightarrow> u64 \<Rightarrow> u64 \<Rightarrow> panic + unstable" where
  "unstable_stableTo u index term =
     (if index < offset u then Inr u
      else
        (let i = index - offset u in
         if sint i \<ge> int (length (uentries u)) then Inr u
         else
           and_then (nth_go (uentries u) (unat i))
             (\<lambda>e. if eTerm e \<noteq> term then Inr u
                  else Inr \<lparr>uentries = drop (unat i + 1) (uentries u), offset = index + 1\<rparr>)))"

definition unstable_truncateAndAppend :: "unstable \<Rightarrow> Entry list \<Rightarrow> panic + unstable" where
  "unstable_truncateAndAppend u ents =
     and_then (nth_go ents 0)
       (\<lambda>e0.
          (let first = eIndex e0 in
           if first \<le> offset u then Inr \<lparr>uentries = ents, offset = first\<rparr>
           else if first = offset u + word_of_nat (length (uentries u)) then
             Inr (u\<lparr>uentries := uentries u @ ents\<rparr>)
           else
             and_then (take_go (unat (first - offset u)) (uentries u))
               (\<lambda>kept. Inr (u\<lparr>uentries := kept @ ents\<rparr>))))"

definition maybeLastIndex :: "unstable \<Rightarrow> u64 option" where
  "maybeLastIndex u = (if uentries u = [] then None else Some (eIndex (last (uentries u))))"

definition maybeTerm :: "unstable \<Rightarrow> u64 \<Rightarrow> panic + u64 option" where
  "maybeTerm u index =
     (if index < offset u \<or> index \<ge> offset u + word_of_nat (length (uentries u)) then Inr None
      else and_then (nth_go (uentries u) (unat (index - offset u))) (\<lambda>e. Inr (Some (eTerm e))))"

section \<open>log.go\<close>

record raftLog =
  storage :: DurableStorage
  unstable :: unstable
  committed :: u64
  applied :: u64

definition newRaftLog :: "DurableStorage \<Rightarrow> raftLog" where
  "newRaftLog s =
     (let firstIndex = FirstIndex s;
          lastIndex = LastIndex s;
          boundary = (if firstIndex > 0 then firstIndex - 1 else 0)
      in \<lparr>storage = s, unstable = \<lparr>uentries = [], offset = lastIndex + 1\<rparr>,
          committed = boundary, applied = boundary\<rparr>)"

definition log_term_of :: "raftLog \<Rightarrow> u64 \<Rightarrow> panic + (raft_error + u64)" where
  "log_term_of l i =
     (if i = 0 then Inr (Inr 0)
      else
        and_then (maybeTerm (unstable l) i)
          (\<lambda>t. case t of Some t \<Rightarrow> Inr (Inr t) | None \<Rightarrow> Term (storage l) i))"

definition matchTerm :: "raftLog \<Rightarrow> u64 \<Rightarrow> u64 \<Rightarrow> panic + bool" where
  "matchTerm l i term =
     and_then (log_term_of l i)
       (\<lambda>t. Inr (case t of Inl _ \<Rightarrow> False | Inr t \<Rightarrow> t = term))"

definition lastIndex :: "raftLog \<Rightarrow> u64" where
  "lastIndex l =
     (case maybeLastIndex (unstable l) of Some i \<Rightarrow> i | None \<Rightarrow> LastIndex (storage l))"

definition log_slice_of :: "raftLog \<Rightarrow> u64 \<Rightarrow> u64 \<Rightarrow> panic + Entry list" where
  "log_slice_of l lo hi =
     (let off = offset (unstable l); uents = uentries (unstable l) in
      if lo \<ge> hi then Inr []
      else
        and_then
          (if lo < off then Entries (storage l) lo (min hi off) else Inr (Inr []))
          (\<lambda>stored. case stored of
             Inl _ \<Rightarrow> Inr []
           | Inr ents \<Rightarrow>
               if hi > off then
                 (let unstableLo = max lo off - off;
                      unstableHi = hi - off;
                      unstableHi = (if unstableHi > word_of_nat (length uents)
                                    then word_of_nat (length uents) else unstableHi)
                  in and_then (slice_go (unat unstableLo) (unat unstableHi) uents)
                       (\<lambda>us. Inr (ents @ us)))
               else Inr ents))"

definition nextUnstableEnts :: "raftLog \<Rightarrow> Entry list" where
  "nextUnstableEnts l = uentries (unstable l)"

definition nextCommittedEnts :: "raftLog \<Rightarrow> panic + Entry list" where
  "nextCommittedEnts l =
     (if applied l \<ge> committed l then Inr []
      else log_slice_of l (applied l + 1) (committed l + 1))"

definition stableTo :: "raftLog \<Rightarrow> u64 \<Rightarrow> u64 \<Rightarrow> panic + raftLog" where
  "stableTo l i term =
     and_then (unstable_stableTo (unstable l) i term) (\<lambda>u. Inr (l\<lparr>unstable := u\<rparr>))"

definition appliedTo :: "raftLog \<Rightarrow> u64 \<Rightarrow> raftLog" where
  "appliedTo l i = l\<lparr>applied := i\<rparr>"

definition commitTo :: "raftLog \<Rightarrow> u64 \<Rightarrow> panic + raftLog" where
  "commitTo l i =
     (if i \<le> committed l then Inr l
      else if i > lastIndex l then Inl PanicCommitOutOfRange
      else Inr (l\<lparr>committed := i\<rparr>))"

definition appendEntries :: "raftLog \<Rightarrow> Entry list \<Rightarrow> panic + raftLog \<times> u64" where
  "appendEntries l ents =
     (if ents = [] then Inr (l, lastIndex l)
      else if eIndex (hd ents) - 1 < committed l then Inl PanicAppendBeforeCommitted
      else
        and_then (unstable_truncateAndAppend (unstable l) ents)
          (\<lambda>u. (let l' = l\<lparr>unstable := u\<rparr> in Inr (l', lastIndex l'))))"

definition hasNextUnstableEnts :: "raftLog \<Rightarrow> bool" where
  "hasNextUnstableEnts l \<longleftrightarrow> uentries (unstable l) \<noteq> []"

definition hasNextCommittedEnts :: "raftLog \<Rightarrow> bool" where
  "hasNextCommittedEnts l \<longleftrightarrow> applied l < committed l"

definition lastEntryID :: "raftLog \<Rightarrow> panic + u64 \<times> u64" where
  "lastEntryID l =
     (let index = lastIndex l in
      if index = 0 then Inr (0, 0)
      else
        and_then (log_term_of l index)
          (\<lambda>t. case t of Inl _ \<Rightarrow> Inl PanicLastEntryTerm | Inr t \<Rightarrow> Inr (index, t)))"

definition isUpToDate :: "raftLog \<Rightarrow> u64 \<Rightarrow> u64 \<Rightarrow> panic + bool" where
  "isUpToDate l index term =
     and_then (lastEntryID l)
       (\<lambda>(lastIdx, lastTerm). Inr (term > lastTerm \<or> (term = lastTerm \<and> index \<ge> lastIdx)))"

definition restore :: "raftLog \<Rightarrow> u64 \<Rightarrow> raftLog" where
  "restore l snapIndex =
     l\<lparr>unstable := \<lparr>uentries = [], offset = snapIndex + 1\<rparr>,
       committed := (if committed l < snapIndex then snapIndex else committed l),
       applied := (if applied l < snapIndex then snapIndex else applied l)\<rparr>"

section \<open>The log it presents\<close>

abbreviation log_base :: "raftLog \<Rightarrow> nat" where
  "log_base l \<equiv> storage_base (storage l)"

definition log_contents :: "raftLog \<Rightarrow> Entry list" where
  "log_contents l =
     take (unat (offset (unstable l)) - Suc (log_base l)) (entries (storage l)) @ uentries (unstable l)"

definition log_shape :: "raftLog \<Rightarrow> bool" where
  "log_shape l \<longleftrightarrow>
     storage_ok (storage l)
     \<and> (sIndex (snap (storage l)) = 0 \<longrightarrow> sTerm (snap (storage l)) = 0)
     \<and> contiguous_from (unat (offset (unstable l))) (uentries (unstable l))
     \<and> log_base l < unat (offset (unstable l))
     \<and> unat (offset (unstable l)) \<le> Suc (log_base l + length (entries (storage l)))
     \<and> unat (offset (unstable l)) + length (uentries (unstable l)) < 2 ^ 64
     \<and> (uentries (unstable l) = [] \<longrightarrow>
          unat (offset (unstable l)) = Suc (log_base l + length (entries (storage l))))"

lemma log_shape_D:
  assumes "log_shape l"
  shows "storage_ok (storage l)" "sIndex (snap (storage l)) = 0 \<Longrightarrow> sTerm (snap (storage l)) = 0"
    "contiguous_from (unat (offset (unstable l))) (uentries (unstable l))"
    "log_base l < unat (offset (unstable l))"
    "unat (offset (unstable l)) \<le> Suc (log_base l + length (entries (storage l)))"
    "unat (offset (unstable l)) + length (uentries (unstable l)) < 18446744073709551616"
    "uentries (unstable l) = [] \<Longrightarrow>
       unat (offset (unstable l)) = Suc (log_base l + length (entries (storage l)))"
  using assms by (simp_all add: log_shape_def)

lemma length_log_contents:
  "log_shape l \<Longrightarrow>
     Suc (log_base l + length (log_contents l)) = unat (offset (unstable l)) + length (uentries (unstable l))"
  using log_shape_D(4,5) [of l] by (simp add: log_contents_def)

lemma log_well_contents:
  assumes "log_shape l"
  shows "log_well (log_base l) (log_contents l)"
proof -
  note D = log_shape_D [OF assms]
  have "contiguous_from (Suc (log_base l)) (entries (storage l))"
    using D(1) by (simp add: storage_ok_def log_well_D)
  moreover have "Suc (log_base l) + min (length (entries (storage l))) (unat (offset (unstable l)) - Suc (log_base l))
      = unat (offset (unstable l))" using D(4,5) by simp
  ultimately have "contiguous_from (Suc (log_base l)) (log_contents l)"
    unfolding log_contents_def contiguous_from_append length_take
    using D(3) by (simp add: contiguous_from_take)
  moreover have "log_base l + length (log_contents l) + 1 < 2 ^ 64"
    using length_log_contents [OF assms] D(6) by simp
  ultimately show ?thesis by (simp add: log_well_def)
qed

lemma lastIndex_ok:
  assumes "log_shape l"
  shows "unat (lastIndex l) = log_base l + length (log_contents l)"
proof (cases "uentries (unstable l) = []")
  case True
  with log_shape_D [OF assms] show ?thesis
    by (simp add: lastIndex_def maybeLastIndex_def LastIndex_ok log_contents_def)
next
  case False
  then show ?thesis
    using log_shape_D(3) [OF assms] length_log_contents [OF assms]
    by (simp add: lastIndex_def maybeLastIndex_def contiguous_from_last)
qed

lemma unat_offset_end:
  assumes "log_shape l"
  shows "unat (offset (unstable l) + word_of_nat (length (uentries (unstable l)))) =
    unat (offset (unstable l)) + length (uentries (unstable l))"
    and "unat (word_of_nat (length (uentries (unstable l))) :: u64) = length (uentries (unstable l))"
  using log_shape_D(6) [OF assms] by (simp_all add: unat_word_ariths unat_of_nat)

text \<open>The entry at an index lives in \<open>unstable\<close> from the offset on and in the storage below it.\<close>

lemma log_term_contents:
  assumes "log_shape l" "log_base l \<le> unat i" "unat i \<le> log_base l + length (log_contents l)"
  shows "log_term (log_base l) bt (log_contents l) (unat i) =
    (if unat (offset (unstable l)) \<le> unat i
     then eTerm (uentries (unstable l) ! (unat i - unat (offset (unstable l))))
     else log_term (log_base l) bt (entries (storage l)) (unat i))"
proof -
  note D = log_shape_D [OF assms(1)]
  let ?k = "unat (offset (unstable l)) - Suc (log_base l)"
  have "length (take ?k (entries (storage l))) = ?k" using D(4,5) by simp
  then show ?thesis
    using assms(2,3) D(4,5)
    by (auto simp: log_term_def log_contents_def nth_append)
qed

lemma log_term_of_ok:
  assumes sh: "log_shape l" and r: "log_base l \<le> unat i" "unat i \<le> log_base l + length (log_contents l)"
  shows "log_term_of l i =
    Inr (Inr (log_term (log_base l) (sTerm (snap (storage l))) (log_contents l) (unat i)))"
proof (cases "i = 0")
  case True
  with r have "sIndex (snap (storage l)) = 0" by (simp add: word_eq_unat)
  with log_shape_D(2) [OF sh] True show ?thesis
    by (simp add: log_term_of_def log_term_def word_eq_unat)
next
  case False
  note D = log_shape_D [OF sh] and L = length_log_contents [OF sh]
  show ?thesis
  proof (cases "offset (unstable l) \<le> i")
    case True
    then have "unat (i - offset (unstable l)) = unat i - unat (offset (unstable l))"
      by (simp add: unat_minus_le)
    moreover have "unat i - unat (offset (unstable l)) < length (uentries (unstable l))"
      "\<not> offset (unstable l) + word_of_nat (length (uentries (unstable l))) \<le> i"
      using True r(2) L unat_offset_end(1) [OF sh] by (auto simp: word_as_nat)
    ultimately show ?thesis
      using False True r log_term_contents [OF sh r]
      by (simp add: log_term_of_def maybeTerm_def nth_go_def word_le_unat word_less_unat)
  next
    case below: False
    then have "unat i \<le> log_base l + length (entries (storage l))" using D(5) by (simp add: word_as_nat)
    then have "Term (storage l) i = Inr (Inr (log_term (log_base l) (sTerm (snap (storage l)))
        (entries (storage l)) (unat i)))"
      using Term_ok [OF D(1) r(1)] by simp
    then show ?thesis
      using False below log_term_contents [OF sh r]
      by (simp add: log_term_of_def maybeTerm_def word_as_nat)
  qed
qed

lemma log_term_before:
  assumes "log_shape l" "0 < unat i" "unat i < log_base l"
  shows "log_term_of l i = Inr (Inl ErrCompacted)"
proof -
  have "i \<noteq> 0" and "i < offset (unstable l)"
    using assms log_shape_D(4) [OF assms(1)] by (auto simp: word_less_unat)
  then show ?thesis using Term_before [OF assms(3)] by (simp add: log_term_of_def maybeTerm_def)
qed

lemma log_slice_contents:
  assumes sh: "log_shape l" and r: "log_base l < lo" "lo \<le> hi" "hi \<le> Suc (log_base l + length (log_contents l))"
  defines "off \<equiv> unat (offset (unstable l))"
  shows "log_slice (log_base l) (log_contents l) lo hi =
    log_slice (log_base l) (entries (storage l)) lo (min hi off)
    @ take (hi - off - (max lo off - off)) (drop (max lo off - off) (uentries (unstable l)))"
proof -
  note D = log_shape_D [OF sh, folded off_def]
  let ?k = "off - Suc (log_base l)"
  have k: "length (take ?k (entries (storage l))) = ?k" using D(4,5) by simp
  show ?thesis
  proof (cases "lo < off")
    case True
    have a: "min (hi - lo) (?k - (lo - Suc (log_base l))) = min hi off - lo"
      and b: "hi - lo - (?k - (lo - Suc (log_base l))) = hi - off" using True r D(4) by linarith+
    have c: "min (Suc (length (entries (storage l)) + log_base l) - lo) (off - lo) = off - lo"
      "lo + (off - lo) = off" using True D(5) by simp_all
    show ?thesis
      using True r k a b c
      by (simp add: log_slice_def log_contents_def off_def [symmetric] drop_take max_def)
  next
    case False
    have "lo - Suc (log_base l) - ?k = lo - off" using False r D(4) by linarith
    with False r k show ?thesis
      by (simp add: log_slice_def log_contents_def off_def [symmetric] max_def)
  qed
qed

lemma log_slice_of_ok:
  assumes sh: "log_shape l" and r: "log_base l < unat lo" "lo < hi"
    "unat hi \<le> Suc (log_base l + length (log_contents l))"
  shows "log_slice_of l lo hi =
    Inr (log_slice (log_base l) (log_contents l) (unat lo) (unat hi))"
proof -
  let ?off = "offset (unstable l)" and ?us = "uentries (unstable l)"
  note D = log_shape_D [OF sh] and L = length_log_contents [OF sh] and U = unat_offset_end [OF sh]
  have stored: "(if lo < ?off then Entries (storage l) lo (min hi ?off) else Inr (Inr [])) =
      Inr (Inr (log_slice (log_base l) (entries (storage l)) (unat lo) (min (unat hi) (unat ?off))))"
  proof (cases "lo < ?off")
    case True
    have "lo < min hi ?off" "unat (min hi ?off) \<le> Suc (log_base l + length (entries (storage l)))"
      using True r(2) D(5) by (auto simp: word_as_nat)
    from Entries_ok [OF D(1) r(1) this] True show ?thesis by (simp add: unat_min)
  next
    case False
    with r(2) show ?thesis by (simp add: log_slice_def word_as_nat)
  qed
  have nle: "\<not> hi \<le> lo" "unat lo \<le> unat hi" using r(2) by (auto simp: word_as_nat)
  show ?thesis
  proof (cases "?off < hi")
    case True
    let ?lo = "max lo ?off - ?off"
    have lo: "unat ?lo = max (unat lo) (unat ?off) - unat ?off" "unat (hi - ?off) = unat hi - unat ?off"
      using True by (simp_all add: unat_minus_le word_as_nat)
    moreover have "unat hi - unat ?off \<le> length ?us" using r(3) L by simp
    then have "\<not> word_of_nat (length ?us) < hi - ?off"
      using lo U(2) by (simp add: word_less_unat)
    moreover have "max (unat lo) (unat ?off) - unat ?off \<le> unat hi - unat ?off"
      using r(2) True by (auto simp: word_as_nat)
    ultimately have "slice_go (unat ?lo) (unat (hi - ?off)) ?us =
        Inr (take (unat hi - unat ?off - (max (unat lo) (unat ?off) - unat ?off))
          (drop (max (unat lo) (unat ?off) - unat ?off) ?us))"
      using \<open>unat hi - unat ?off \<le> length ?us\<close> by (simp add: slice_go_def)
    then show ?thesis
      using True nle(1) stored \<open>\<not> word_of_nat (length ?us) < hi - ?off\<close> log_slice_contents [OF sh r(1) nle(2) r(3)]
      by (simp add: log_slice_of_def Let_def)
  next
    case False
    then have "unat hi \<le> unat ?off" by (simp add: word_as_nat)
    then show ?thesis
      using False nle(1) stored log_slice_contents [OF sh r(1) nle(2) r(3)]
      by (simp add: log_slice_of_def Let_def)
  qed
qed

text \<open>The in-memory log meets the same contract as the storage below it.\<close>

interpretation raft_log:
  indexed_log log_shape log_base "\<lambda>l. sTerm (snap (storage l))" log_contents lastIndex
    "\<lambda>l lo hi. and_then (log_slice_of l lo hi) (\<lambda>es. Inr (Inr es))" log_term_of
  by unfold_locales
    (simp_all add: log_well_contents lastIndex_ok log_slice_of_ok log_term_of_ok log_term_before)

definition log_ok :: "raftLog \<Rightarrow> bool" where
  "log_ok l \<longleftrightarrow> log_shape l \<and> log_base l \<le> unat (applied l) \<and> applied l \<le> committed l
     \<and> unat (committed l) \<le> log_base l + length (log_contents l)"

lemma log_ok_D:
  assumes "log_ok l"
  shows "log_shape l" "log_base l \<le> unat (applied l)" "unat (applied l) \<le> unat (committed l)"
    "log_base l \<le> unat (committed l)" "unat (committed l) \<le> log_base l + length (log_contents l)"
  using assms by (auto simp: log_ok_def word_le_unat)

lemma committed_le_lastIndex: "log_ok l \<Longrightarrow> committed l \<le> lastIndex l"
  using log_ok_D [of l] lastIndex_ok [of l] by (simp add: word_le_unat)

section \<open>Operations\<close>

lemma storage_boundary:
  assumes "storage_ok s"
  shows "(if FirstIndex s > 0 then FirstIndex s - 1 else 0) = sIndex (snap s)"
proof (cases "entries s = []")
  case True
  have "unat (sIndex (snap s) + 1) = Suc (storage_base s)"
    using assms by (intro unat_succ) (auto simp: storage_ok_def dest: log_well_D)
  with True show ?thesis by (auto simp: FirstIndex_def word_as_nat)
next
  case False
  with FirstIndex_ok [OF assms] have "unat (FirstIndex s) = Suc (storage_base s)" by simp
  moreover from this have "unat (FirstIndex s - 1) = storage_base s" "FirstIndex s > 0"
    by (simp_all add: unat_minus_le word_as_nat)
  ultimately show ?thesis by (simp add: word_eq_unat)
qed

lemma newRaftLog_ok:
  assumes "storage_ok s" "sIndex (snap s) = 0 \<Longrightarrow> sTerm (snap s) = 0"
  shows "log_ok (newRaftLog s)" "log_contents (newRaftLog s) = entries s"
proof -
  have L: "unat (LastIndex s + 1) = Suc (storage_base s + length (entries s))"
    using LastIndex_ok [OF assms(1)] assms(1) log_well_D(2)
    by (subst unat_succ) (simp_all add: storage_ok_def)
  show "log_contents (newRaftLog s) = entries s"
    by (simp add: newRaftLog_def Let_def log_contents_def L)
  then show "log_ok (newRaftLog s)"
    using assms L storage_boundary [OF assms(1)]
    by (simp add: log_ok_def log_shape_def newRaftLog_def Let_def storage_ok_def log_well_def)
qed

lemma commitTo_ok:
  assumes "log_ok l" "commitTo l i = Inr l'"
  shows "log_ok l' \<and> l' = l\<lparr>committed := max (committed l) i\<rparr>"
proof -
  have "unat (lastIndex l) = log_base l + length (log_contents l)"
    using assms(1) by (simp add: lastIndex_ok log_ok_def)
  then show ?thesis
    using assms
    by (auto simp: commitTo_def log_ok_def log_contents_def log_shape_def word_as_nat max_def split: if_splits)
qed

lemma commitTo_in_range:
  "i \<le> lastIndex l \<Longrightarrow> commitTo l i = Inr (l\<lparr>committed := max (committed l) i\<rparr>)"
  by (auto simp: commitTo_def max_def)

definition appended :: "raftLog \<Rightarrow> nat \<Rightarrow> Entry list \<Rightarrow> Entry list" where
  "appended l f es = take (f - Suc (log_base l)) (log_contents l) @ es"

lemma unstable_truncateAndAppend_ok:
  assumes sh: "log_shape l" and c: "contiguous_from f es" "es \<noteq> []"
    and f: "log_base l < f" "f \<le> Suc (log_base l + length (log_contents l))"
  obtains u where "unstable_truncateAndAppend (unstable l) es = Inr u"
    "unat (offset u) = min f (unat (offset (unstable l)))"
    "uentries u = take (f - unat (offset (unstable l))) (uentries (unstable l)) @ es"
proof -
  note D = log_shape_D [OF sh] and L = length_log_contents [OF sh] and U = unat_offset_end [OF sh]
  have h: "nth_go es 0 = Inr (hd es)" "unat (eIndex (hd es)) = f"
    using c by (simp add: nth_go_def hd_conv_nth) (use c in \<open>simp add: contiguous_from_hd\<close>)
  show ?thesis
  proof (cases "f \<le> unat (offset (unstable l))")
    case True
    with h that [of "\<lparr>uentries = es, offset = eIndex (hd es)\<rparr>"] show ?thesis
      by (simp add: unstable_truncateAndAppend_def Let_def word_as_nat)
  next
    case False
    then have "unat (eIndex (hd es) - offset (unstable l)) = f - unat (offset (unstable l))"
      using h by (simp add: unat_minus_le word_as_nat)
    moreover have "f - unat (offset (unstable l)) \<le> length (uentries (unstable l))" using L f by simp
    ultimately have "unstable_truncateAndAppend (unstable l) es =
        Inr ((unstable l)\<lparr>uentries := take (f - unat (offset (unstable l))) (uentries (unstable l)) @ es\<rparr>)"
      using False h U
      by (cases "f = unat (offset (unstable l)) + length (uentries (unstable l))")
        (simp_all add: unstable_truncateAndAppend_def Let_def word_as_nat take_go_def)
    with False that show ?thesis by simp
  qed
qed

lemma log_contents_append:
  assumes sh: "log_shape l" and f: "log_base l < f"
    and u: "unat (offset u) = min f (unat (offset (unstable l)))"
    "uentries u = take (f - unat (offset (unstable l))) (uentries (unstable l)) @ es"
  shows "log_contents (l\<lparr>unstable := u\<rparr>) = appended l f es"
proof -
  note D = log_shape_D [OF sh]
  have k: "min (length (entries (storage l))) (unat (offset (unstable l)) - Suc (log_base l)) =
      unat (offset (unstable l)) - Suc (log_base l)" using D(4,5) by simp
  have d: "Suc (log_base l + (unat (offset (unstable l)) - Suc (log_base l))) = unat (offset (unstable l))"
    "min (f - Suc (log_base l)) (unat (offset (unstable l)) - Suc (log_base l)) =
      min f (unat (offset (unstable l))) - Suc (log_base l)"
    using f D(4) by auto
  show ?thesis using u by (simp add: log_contents_def appended_def k d)
qed

lemma log_shape_append:
  assumes sh: "log_shape l" and c: "contiguous_from f es" "es \<noteq> []"
    and f: "log_base l < f" "f \<le> Suc (log_base l + length (log_contents l))" "f + length es < 2 ^ 64"
    and u: "unat (offset u) = min f (unat (offset (unstable l)))"
    "uentries u = take (f - unat (offset (unstable l))) (uentries (unstable l)) @ es"
  shows "log_shape (l\<lparr>unstable := u\<rparr>)"
proof -
  note D = log_shape_D [OF sh] and L = length_log_contents [OF sh]
  have "contiguous_from (unat (offset u)) (uentries u)"
  proof (cases "f \<le> unat (offset (unstable l))")
    case True
    then show ?thesis using u c by simp
  next
    case False
    then have "min (length (uentries (unstable l))) (f - unat (offset (unstable l))) = f - unat (offset (unstable l))"
      using f(2) L by simp
    with False u c D(3) show ?thesis
      by (simp add: contiguous_from_append contiguous_from_take min_def)
  qed
  moreover have "unat (offset u) + length (uentries u) < 2 ^ 64"
    using u f L by simp
  ultimately show ?thesis
    using u D f(1) c(2) by (simp add: log_shape_def min_def)
qed

text \<open>
  Appending at \<open>f\<close> keeps the entries below \<open>f\<close>, whether they are stored or unstable, and
  replaces the rest; nothing committed is touched.
\<close>

lemma appendEntries_ok:
  assumes ok: "log_ok l" and c: "contiguous_from f es" "es \<noteq> []"
    and f: "unat (committed l) < f" "f \<le> Suc (log_base l + length (log_contents l))"
    and b: "f + length es < 2 ^ 64"
  obtains l' where "appendEntries l es = Inr (l', lastIndex l')" "log_ok l'"
    "log_contents l' = appended l f es" "storage l' = storage l" "committed l' = committed l"
    "applied l' = applied l" 
proof -
  note O = log_ok_D [OF ok]
  have bf: "log_base l < f" using O(4) f(1) by simp
  obtain u where u: "unstable_truncateAndAppend (unstable l) es = Inr u"
    "unat (offset u) = min f (unat (offset (unstable l)))"
    "uentries u = take (f - unat (offset (unstable l))) (uentries (unstable l)) @ es"
    using unstable_truncateAndAppend_ok [OF O(1) c bf f(2)] by auto
  let ?l = "l\<lparr>unstable := u\<rparr>"
  have "unat (eIndex (hd es) - 1) = f - 1"
    using c f by (subst unat_minus_le) (simp_all add: contiguous_from_hd word_as_nat)
  then have "appendEntries l es = Inr (?l, lastIndex ?l)"
    using u(1) c f by (simp add: appendEntries_def Let_def word_as_nat)
  moreover have con: "log_contents ?l = appended l f es"
    by (rule log_contents_append [OF O(1) bf u(2,3)])
  moreover have "log_ok ?l"
    using log_shape_append [OF O(1) c bf f(2) b u(2,3)] O f con
    by (simp add: log_ok_def word_as_nat appended_def)
  ultimately show ?thesis using that by simp
qed

text \<open>Persisting entries that were unstable when they were handed out leaves the log as it is.\<close>

lemma log_persisted:
  assumes sh: "log_shape l" and c: "contiguous_from g es" "es \<noteq> []"
    and g: "unat (offset (unstable l)) \<le> g" "g \<le> Suc (log_base l + length (entries (storage l)))"
    and u: "uentries (unstable l) \<noteq> []" and s: "storage_ok s" "snap s = snap (storage l)"
    "entries s = take (g - Suc (log_base l)) (entries (storage l)) @ es"
  shows "log_shape (l\<lparr>storage := s\<rparr>)" "log_contents (l\<lparr>storage := s\<rparr>) = log_contents l"
proof -
  note D = log_shape_D [OF sh]
  have "min (length (entries (storage l))) (g - Suc (log_base l)) = g - Suc (log_base l)"
    "min (unat (offset (unstable l)) - Suc (log_base l)) (g - Suc (log_base l)) =
      unat (offset (unstable l)) - Suc (log_base l)"
    "unat (offset (unstable l)) - Suc (log_base l) - (g - Suc (log_base l)) = 0"
    using g by auto
  then show "log_contents (l\<lparr>storage := s\<rparr>) = log_contents l"
    using s by (simp add: log_contents_def)
  show "log_shape (l\<lparr>storage := s\<rparr>)"
    using D g u s by (auto simp: log_shape_def)
qed

lemma stableTo_cases:
  assumes "stableTo l i t = Inr l'"
  obtains "l' = l"
  | "offset (unstable l) \<le> i" "unat i - unat (offset (unstable l)) < length (uentries (unstable l))"
    "eTerm (uentries (unstable l) ! (unat i - unat (offset (unstable l)))) = t"
    "l' = l\<lparr>unstable := \<lparr>uentries = drop (Suc (unat i - unat (offset (unstable l)))) (uentries (unstable l)),
                        offset = i + 1\<rparr>\<rparr>"
proof (cases "i < offset (unstable l)")
  case True
  with assms that(1) show ?thesis by (simp add: stableTo_def unstable_stableTo_def)
next
  case False
  then have "unat (i - offset (unstable l)) = unat i - unat (offset (unstable l))"
    by (simp add: unat_minus_le)
  note d = stableTo_def unstable_stableTo_def Let_def nth_go_def this
  consider "sint (i - offset (unstable l)) \<ge> int (length (uentries (unstable l)))"
    | "sint (i - offset (unstable l)) < int (length (uentries (unstable l)))"
      "unat i - unat (offset (unstable l)) < length (uentries (unstable l))"
    using assms False by (simp add: d split: if_split_asm)
  then show ?thesis
  proof cases
    case 1
    with assms that(1) False show ?thesis by (simp add: d)
  next
    case 2
    with assms False have eq: "(if eTerm (uentries (unstable l) ! (unat i - unat (offset (unstable l)))) \<noteq> t then l
        else l\<lparr>unstable := \<lparr>uentries = drop (Suc (unat i - unat (offset (unstable l)))) (uentries (unstable l)),
                           offset = i + 1\<rparr>\<rparr>) = l'"
      by (simp add: d split: if_split_asm)
    show ?thesis
    proof (cases "eTerm (uentries (unstable l) ! (unat i - unat (offset (unstable l)))) = t")
      case True
      with eq 2 False show ?thesis by (intro that(2)) simp_all
    next
      case False
      with eq show ?thesis by (intro that(1)) simp
    qed
  qed
qed

text \<open>
  \<open>stableTo\<close> forgets the unstable entries up to the given one. When the storage holds the
  log up to there, nothing changes in the log; entries appended later stay unstable.
\<close>

lemma stableTo_ok:
  assumes ok: "log_ok l" and st: "stableTo l i t = Inr l'"
    and held: "offset (unstable l) \<le> i \<Longrightarrow> unat i \<le> log_base l + length (entries (storage l))
      \<and> take (unat i - log_base l) (entries (storage l)) = take (unat i - log_base l) (log_contents l)
      \<and> (unat i = log_base l + length (log_contents l) \<longrightarrow> unat i = log_base l + length (entries (storage l)))"
  shows "log_ok l' \<and> log_contents l' = log_contents l"
  using st
proof (cases rule: stableTo_cases)
  case 1
  with ok show ?thesis by simp
next
  case 2
  note O = log_ok_D [OF ok]
  note D = log_shape_D [OF O(1)] and L = length_log_contents [OF O(1)] and H = held [OF 2(1)]
  have i1: "unat (i + 1) = Suc (unat i)"
    using 2(2) D(6) by (intro unat_succ) simp
  have n: "unat i - log_base l = Suc (unat i - unat (offset (unstable l))) + (unat (offset (unstable l)) - Suc (log_base l))"
    using 2(1) D(4) by (simp add: word_le_unat)
  have "log_contents l' = take (unat i - log_base l) (log_contents l)
      @ drop (Suc (unat i - unat (offset (unstable l)))) (uentries (unstable l))"
    using 2(4) i1 H by (simp add: log_contents_def)
  also have "drop (Suc (unat i - unat (offset (unstable l)))) (uentries (unstable l)) =
      drop (unat i - log_base l) (log_contents l)"
    using n D(4,5) 2(1) by (simp add: log_contents_def word_le_unat Suc_diff_le)
  finally have con: "log_contents l' = log_contents l" by simp
  moreover have "log_shape l'"
    using 2 D H i1 L contiguous_from_drop [OF D(3), of "Suc (unat i - unat (offset (unstable l)))"]
    by (auto simp: log_shape_def word_le_unat)
  ultimately show ?thesis using 2(4) ok by (simp add: log_ok_def)
qed

end
