(* ===== verification/Quorum.thy ===== *)
theory Quorum
  imports Raft_Types
begin

text \<open>
  Package \<open>raft/quorum\<close>: vote tallying and the committed index of a majority
  configuration. A \<open>MajorityConfig\<close> is a Go map used as a set; it is the list of its
  keys in the order in which \<open>range\<close> visits them, so that a statement about every
  list without repetition is a statement about every iteration order. The locale
  \<open>quorum_system\<close> is the contract the consensus layer needs from majorities: any two
  quorums share a member.
\<close>

section \<open>Definitions\<close>

datatype VoteResult = VotePending | VoteLost | VoteWon

type_synonym MajorityConfig = "u64 list"

fun tally_votes :: "(u64 \<rightharpoonup> bool) \<Rightarrow> u64 list \<Rightarrow> nat \<Rightarrow> nat \<Rightarrow> nat \<times> nat" where
  "tally_votes votes [] granted missing = (granted, missing)"
| "tally_votes votes (nid # c) granted missing =
     (case votes nid of
        None \<Rightarrow> tally_votes votes c granted (missing + 1)
      | Some v \<Rightarrow> tally_votes votes c (if v then granted + 1 else granted) missing)"

definition MajorityConfig_VoteResult :: "MajorityConfig \<Rightarrow> (u64 \<rightharpoonup> bool) \<Rightarrow> VoteResult" where
  "MajorityConfig_VoteResult c votes =
     (if length c = 0 then VoteWon
      else
        (let (granted, missing) = tally_votes votes c 0 0;
             q = length c div 2 + 1
         in if granted \<ge> q then VoteWon
            else if granted + missing \<ge> q then VotePending
            else VoteLost))"

text \<open>The slice is filled from its right end; unfilled places keep the zero of \<open>make\<close>.\<close>

fun fill_acked :: "(u64 \<rightharpoonup> u64) \<Rightarrow> u64 list \<Rightarrow> u64 list \<Rightarrow> int \<Rightarrow> u64 list" where
  "fill_acked acked [] srt i = srt"
| "fill_acked acked (nid # c) srt i =
     (case acked nid of
        None \<Rightarrow> fill_acked acked c srt i
      | Some idx \<Rightarrow> fill_acked acked c (srt[nat i := idx]) (i - 1))"

definition MajorityConfig_CommittedIndex :: "MajorityConfig \<Rightarrow> (u64 \<rightharpoonup> u64) \<Rightarrow> u64" where
  "MajorityConfig_CommittedIndex c acked =
     (let n = length c in
      if n = 0 then - 1
      else
        (let srt = sort (fill_acked acked c (replicate n 0) (int n - 1));
             pos = n - (n div 2 + 1)
         in srt ! pos))"

section \<open>Quorum systems\<close>

locale quorum_system =
  fixes quorum :: "'a set \<Rightarrow> bool"
  assumes quorum_intersect: "quorum A \<Longrightarrow> quorum B \<Longrightarrow> A \<inter> B \<noteq> {}"
    and quorum_mono: "quorum A \<Longrightarrow> A \<subseteq> B \<Longrightarrow> quorum B"
begin

text \<open>Voters that cast at most one vote elect at most one candidate.\<close>

lemma single_winner:
  assumes "quorum {v. vote v = Some a}" and "quorum {v. vote v = Some b}"
  shows "a = b"
proof -
  obtain v where "vote v = Some a" and "vote v = Some b"
    using quorum_intersect [OF assms] by blast
  then show ?thesis by simp
qed

text \<open>A member of one quorum is found in every other: what the first stored, the second sees.\<close>

lemma common_member:
  assumes "quorum A" and "quorum B"
  obtains v where "v \<in> A" and "v \<in> B"
  using quorum_intersect [OF assms] by blast

lemma quorum_not_empty: "quorum A \<Longrightarrow> A \<noteq> {}"
  using quorum_intersect [of A A] by blast

end

definition is_majority :: "MajorityConfig \<Rightarrow> u64 set \<Rightarrow> bool" where
  "is_majority c A \<longleftrightarrow> card (set c) div 2 + 1 \<le> card (A \<inter> set c)"

lemma majorities_meet:
  assumes "is_majority c A" and "is_majority c B"
  shows "A \<inter> B \<noteq> {}"
proof
  assume "A \<inter> B = {}"
  then have "(A \<inter> set c) \<inter> (B \<inter> set c) = {}" by blast
  then have "card (A \<inter> set c) + card (B \<inter> set c) = card ((A \<inter> set c) \<union> (B \<inter> set c))"
    by (simp add: card_Un_disjoint)
  also have "\<dots> \<le> card (set c)" by (intro card_mono) auto
  finally show False using assms by (simp add: is_majority_def)
qed

interpretation majority: quorum_system "is_majority c" for c
proof
  fix A B :: "u64 set"
  show "is_majority c A \<Longrightarrow> is_majority c B \<Longrightarrow> A \<inter> B \<noteq> {}" by (rule majorities_meet)
  assume maj: "is_majority c A" and sub: "A \<subseteq> B"
  from sub have "card (A \<inter> set c) \<le> card (B \<inter> set c)" by (intro card_mono) auto
  with maj show "is_majority c B" by (simp add: is_majority_def)
qed

section \<open>Vote tallying\<close>

lemma tally_votes_count:
  "tally_votes votes c g m =
     (g + length (filter (\<lambda>nid. votes nid = Some True) c),
      m + length (filter (\<lambda>nid. votes nid = None) c))"
  by (induction c arbitrary: g m) (auto split: option.splits)

lemma length_filter_card:
  "distinct c \<Longrightarrow> length (filter P c) = card ({x. P x} \<inter> set c)"
proof -
  assume "distinct c"
  then have "length (filter P c) = card (set (filter P c))"
    using distinct_card [of "filter P c"] by simp
  also have "set (filter P c) = {x. P x} \<inter> set c" by auto
  finally show ?thesis .
qed

lemma VoteWon_iff_majority:
  assumes "distinct c"
  shows "MajorityConfig_VoteResult c votes = VoteWon \<longleftrightarrow>
    c = [] \<or> is_majority c {nid. votes nid = Some True}"
  using assms
  by (auto simp: MajorityConfig_VoteResult_def tally_votes_count length_filter_card
      is_majority_def distinct_card)

lemma VoteLost_iff_no_majority:
  assumes "distinct c"
  shows "MajorityConfig_VoteResult c votes = VoteLost \<longleftrightarrow>
    c \<noteq> [] \<and> \<not> is_majority c {nid. votes nid \<noteq> Some False}"
proof -
  have split: "{nid. votes nid \<noteq> Some False} \<inter> set c =
      ({nid. votes nid = Some True} \<inter> set c) \<union> ({nid. votes nid = None} \<inter> set c)"
    by auto
  have "card ({nid. votes nid \<noteq> Some False} \<inter> set c) =
      card ({nid. votes nid = Some True} \<inter> set c) + card ({nid. votes nid = None} \<inter> set c)"
    unfolding split by (rule card_Un_disjoint) auto
  with assms show ?thesis
    by (auto simp: MajorityConfig_VoteResult_def tally_votes_count length_filter_card
        is_majority_def distinct_card)
qed

lemma VoteResult_perm:
  assumes "mset c = mset c'"
  shows "MajorityConfig_VoteResult c votes = MajorityConfig_VoteResult c' votes"
proof -
  have len: "length c = length c'" using assms by (rule mset_eq_length)
  have "length (filter P c) = length (filter P c')" for P
    using assms by (metis mset_filter size_mset)
  then show ?thesis using len
    by (simp add: MajorityConfig_VoteResult_def tally_votes_count)
qed

section \<open>The committed index\<close>

abbreviation acked_or_zero :: "(u64 \<rightharpoonup> u64) \<Rightarrow> u64 \<Rightarrow> u64" where
  "acked_or_zero acked nid \<equiv> (case acked nid of None \<Rightarrow> 0 | Some idx \<Rightarrow> idx)"

lemma length_fill_acked [simp]: "length (fill_acked acked c srt i) = length srt"
  by (induction c arbitrary: srt i) (auto split: option.splits)

lemma mset_fill_acked:
  assumes "int (length c) \<le> i + 1" and "nat (i + 1) \<le> length srt"
    and "\<forall>k < nat (i + 1). srt ! k = 0"
  shows "mset (fill_acked acked c srt i) =
    mset (map (acked_or_zero acked) c) + mset (drop (nat (i + 1)) srt)
      + replicate_mset (nat (i + 1) - length c) 0"
  using assms
proof (induction c arbitrary: srt i)
  case Nil
  have "take (nat (i + 1)) srt = replicate (nat (i + 1)) 0"
    using Nil.prems by (intro nth_equalityI) auto
  then have "srt = replicate (nat (i + 1)) 0 @ drop (nat (i + 1)) srt"
    by (metis append_take_drop_id)
  then have "mset srt = mset (replicate (nat (i + 1)) 0) + mset (drop (nat (i + 1)) srt)"
    by (metis mset_append)
  then show ?case by simp
next
  case (Cons nid c)
  from Cons.prems(1) have i0: "0 \<le> i" by simp
  then have ni: "nat (i + 1) = Suc (nat i)" by simp
  show ?case
  proof (cases "acked nid")
    case None
    have "nat (i + 1) - length c = Suc (nat (i + 1) - length (nid # c))"
      using Cons.prems(1) by auto
    with None Cons show ?thesis by simp
  next
    case (Some idx)
    let ?srt = "srt[nat i := idx]"
    have lt: "nat i < length srt" using Cons.prems(2) ni by simp
    have "mset (fill_acked acked c ?srt (i - 1)) =
        mset (map (acked_or_zero acked) c) + mset (drop (nat (i - 1 + 1)) ?srt)
          + replicate_mset (nat (i - 1 + 1) - length c) 0"
      using Cons.prems i0 by (intro Cons.IH) auto
    moreover have "drop (nat i) ?srt = idx # drop (Suc (nat i)) srt"
      using lt by (simp add: Cons_nth_drop_Suc [symmetric])
    ultimately show ?thesis using Some ni by simp
  qed
qed

lemma committed_srt:
  assumes "c \<noteq> []"
  shows "sort (fill_acked acked c (replicate (length c) 0) (int (length c) - 1)) =
    sort (map (acked_or_zero acked) c)"
proof (rule properties_for_sort)
  have "mset (fill_acked acked c (replicate (length c) 0) (int (length c) - 1)) =
      mset (map (acked_or_zero acked) c)"
    by (subst mset_fill_acked) auto
  then show "mset (sort (map (acked_or_zero acked) c)) =
      mset (fill_acked acked c (replicate (length c) 0) (int (length c) - 1))"
    by simp
qed simp

lemma sorted_count_ge_nth:
  fixes xs :: "'a::linorder list"
  assumes "sorted xs" and "k < length xs"
  shows "length xs - k \<le> length (filter (\<lambda>x. xs ! k \<le> x) xs)"
proof -
  have "\<forall>x \<in> set (drop k xs). xs ! k \<le> x"
    using assms by (auto simp: in_set_conv_nth sorted_iff_nth_mono)
  then have "filter (\<lambda>x. xs ! k \<le> x) (drop k xs) = drop k xs"
    by (simp add: filter_id_conv)
  then have "length (filter (\<lambda>x. xs ! k \<le> x) xs) =
      length (filter (\<lambda>x. xs ! k \<le> x) (take k xs)) + (length xs - k)"
    by (metis append_take_drop_id filter_append length_append length_drop)
  then show ?thesis by simp
qed

lemma sorted_count_gt_nth:
  fixes xs :: "'a::linorder list"
  assumes "sorted xs" and "k < length xs" and "xs ! k < y"
  shows "length (filter (\<lambda>x. y \<le> x) xs) < length xs - k"
proof -
  have "\<forall>x \<in> set (take (Suc k) xs). \<not> y \<le> x"
  proof
    fix x assume "x \<in> set (take (Suc k) xs)"
    then obtain j where "j < Suc k" and "x = xs ! j" and "j < length xs"
      by (auto simp: in_set_conv_nth)
    with assms have "x \<le> xs ! k" by (auto simp: sorted_iff_nth_mono)
    with assms(3) show "\<not> y \<le> x" by simp
  qed
  then have "filter (\<lambda>x. y \<le> x) (take (Suc k) xs) = []"
    by (simp add: filter_empty_conv)
  then have "length (filter (\<lambda>x. y \<le> x) xs) =
      length (filter (\<lambda>x. y \<le> x) (drop (Suc k) xs))"
    by (metis append_Nil append_take_drop_id filter_append)
  also have "\<dots> \<le> length xs - Suc k"
    using length_filter_le [of _ "drop (Suc k) xs"] by simp
  finally show ?thesis using assms(2) by simp
qed

lemma count_acked_card:
  assumes "distinct c"
  shows "length (filter P (sort (map f c))) = card ({nid. P (f nid)} \<inter> set c)"
proof -
  have "length (filter P (sort (map f c))) = size (filter_mset P (mset (map f c)))"
    by (metis mset_filter mset_sort size_mset)
  also have "\<dots> = length (filter P (map f c))" by (metis mset_filter size_mset)
  also have "\<dots> = length (filter (\<lambda>nid. P (f nid)) c)" by (simp add: filter_map o_def)
  finally show ?thesis using assms by (simp add: length_filter_card)
qed

lemma CommittedIndex_eq:
  assumes "c \<noteq> []"
  shows "MajorityConfig_CommittedIndex c acked =
    sort (map (acked_or_zero acked) c) ! (length c - (length c div 2 + 1))"
  using assms committed_srt [OF assms] by (simp add: MajorityConfig_CommittedIndex_def Let_def)

lemma half_pos: "0 < n \<Longrightarrow> n - (n - (n div 2 + 1)) = n div 2 + (1::nat)"
  by simp

lemma CommittedIndex_acked:
  assumes "c \<noteq> []" and "distinct c"
  shows "is_majority c {nid. MajorityConfig_CommittedIndex c acked \<le> acked_or_zero acked nid}"
proof -
  let ?xs = "sort (map (acked_or_zero acked) c)"
  let ?k = "length c - (length c div 2 + 1)"
  have k: "?k < length ?xs" using assms(1) by (simp add: diff_less)
  have "length c div 2 + 1 \<le> length ?xs - ?k"
    using assms(1) half_pos [of "length c"] by simp
  also have "\<dots> \<le> length (filter (\<lambda>x. ?xs ! ?k \<le> x) ?xs)"
    using k by (intro sorted_count_ge_nth) auto
  also have "\<dots> = card ({nid. ?xs ! ?k \<le> acked_or_zero acked nid} \<inter> set c)"
    using assms(2) by (rule count_acked_card)
  finally show ?thesis using assms
    by (simp add: is_majority_def CommittedIndex_eq distinct_card)
qed

lemma CommittedIndex_maximal:
  assumes "c \<noteq> []" and "distinct c" and "MajorityConfig_CommittedIndex c acked < i"
  shows "\<not> is_majority c {nid. i \<le> acked_or_zero acked nid}"
proof -
  let ?xs = "sort (map (acked_or_zero acked) c)"
  let ?k = "length c - (length c div 2 + 1)"
  have k: "?k < length ?xs" using assms(1) by (simp add: diff_less)
  have "card ({nid. i \<le> acked_or_zero acked nid} \<inter> set c) = length (filter (\<lambda>x. i \<le> x) ?xs)"
    using count_acked_card [OF assms(2), symmetric] .
  also have "\<dots> < length ?xs - ?k"
    using k assms(1,3) by (intro sorted_count_gt_nth) (auto simp: CommittedIndex_eq)
  also have "\<dots> = length c div 2 + 1"
    using assms(1) half_pos [of "length c"] by simp
  finally show ?thesis using assms(2) by (simp add: is_majority_def distinct_card)
qed

lemma CommittedIndex_perm:
  assumes "mset c = mset c'"
  shows "MajorityConfig_CommittedIndex c acked = MajorityConfig_CommittedIndex c' acked"
proof (cases "c = []")
  case True
  with assms show ?thesis by simp
next
  case False
  with assms have ne: "c' \<noteq> []" by auto
  have "sort (map (acked_or_zero acked) c) = sort (map (acked_or_zero acked) c')"
    using assms by (intro properties_for_sort) (simp_all add: mset_map)
  moreover have "length c = length c'" using assms by (rule mset_eq_length)
  ultimately show ?thesis using False ne by (simp add: CommittedIndex_eq)
qed

text \<open>C6. The committed index, which the code computes by sorting the acknowledged indices, is
  the largest index
  that a majority has acknowledged: an index is at most the committed one exactly when a majority of
  the voters has acknowledged it or more. The order in which the voters are enumerated does not matter.\<close>

theorem CommittedIndex_is_majority_index:
  assumes "c \<noteq> []" "distinct c" "mset c = mset c'"
  shows "(i \<le> MajorityConfig_CommittedIndex c acked \<longleftrightarrow> is_majority c {nid. i \<le> acked_or_zero acked nid})
    \<and> MajorityConfig_CommittedIndex c' acked = MajorityConfig_CommittedIndex c acked"
proof -
  have "is_majority c {nid. i \<le> acked_or_zero acked nid}" if i: "i \<le> MajorityConfig_CommittedIndex c acked"
  proof -
    have "card ({nid. MajorityConfig_CommittedIndex c acked \<le> acked_or_zero acked nid} \<inter> set c) \<le> card ({nid. i \<le> acked_or_zero acked nid} \<inter> set c)"
      using i by (intro card_mono) auto
    then show ?thesis using CommittedIndex_acked [OF assms(1,2), of acked] by (simp add: is_majority_def)
  qed
  moreover have "\<not> is_majority c {nid. i \<le> acked_or_zero acked nid}" if "\<not> i \<le> MajorityConfig_CommittedIndex c acked"
    using CommittedIndex_maximal [OF assms(1,2)] that by (simp add: not_le)
  ultimately show ?thesis using CommittedIndex_perm [OF assms(3), of acked] by metis
qed

theorem CommittedIndex_is_majority_index_witness:
  "(4 \<le> MajorityConfig_CommittedIndex [1, 2, 3] [1 \<mapsto> 7, 3 \<mapsto> 4] \<longleftrightarrow> is_majority [1, 2, 3] {nid. 4 \<le> acked_or_zero [1 \<mapsto> 7, 3 \<mapsto> 4] nid})
    \<and> MajorityConfig_CommittedIndex [3, 1, 2] [1 \<mapsto> 7, 3 \<mapsto> 4] = MajorityConfig_CommittedIndex [1, 2, 3] [1 \<mapsto> 7, 3 \<mapsto> 4]"
  by (rule CommittedIndex_is_majority_index) simp_all

end
