(* ===== verification/Tracker.thy ===== *)
theory Tracker
  imports Quorum "HOL-Library.AList"
begin

text \<open>
  Package \<open>raft/tracker\<close>: what a leader knows about its peers and the votes of a
  candidate. The map \<open>progress\<close> is an association list whose order stands for the
  order in which \<open>range\<close> visits the map; a pointer into it (\<open>Progress(id)\<close>) is read
  with \<open>Progress_of\<close> and written through with \<open>set_Progress\<close>.
\<close>

section \<open>Definitions\<close>

record Progress =
  MatchIndex :: u64
  NextIndex :: u64
  RecentActive :: bool

record ProgressTracker =
  selfID :: u64
  Voters :: MajorityConfig
  progress :: "(u64 \<times> Progress) list"
  votes :: "u64 \<rightharpoonup> bool"

definition zero_Progress :: Progress where
  "zero_Progress = \<lparr>MatchIndex = 0, NextIndex = 0, RecentActive = False\<rparr>"

definition AckedIndex :: "(u64 \<times> Progress) list \<Rightarrow> u64 \<rightharpoonup> u64" where
  "AckedIndex m nid =
     (case map_of m nid of None \<Rightarrow> None | Some pr \<Rightarrow> Some (MatchIndex pr))"

definition NewTracker :: "u64 \<Rightarrow> MajorityConfig \<Rightarrow> ProgressTracker" where
  "NewTracker self config =
     \<lparr>selfID = self, Voters = config, progress = AList.update self zero_Progress [],
      votes = Map.empty\<rparr>"

definition InitProgress :: "ProgressTracker \<Rightarrow> u64 \<Rightarrow> u64 \<Rightarrow> u64 \<Rightarrow> ProgressTracker" where
  "InitProgress t nid match next =
     t\<lparr>progress := AList.update nid
         \<lparr>MatchIndex = match, NextIndex = next, RecentActive = False\<rparr> (progress t)\<rparr>"

definition IsSingleton :: "ProgressTracker \<Rightarrow> bool" where
  "IsSingleton p \<longleftrightarrow> length (progress p) = 1"

definition ResetVotes :: "ProgressTracker \<Rightarrow> ProgressTracker" where
  "ResetVotes t = t\<lparr>votes := Map.empty\<rparr>"

definition RecordVote :: "ProgressTracker \<Rightarrow> u64 \<Rightarrow> bool \<Rightarrow> ProgressTracker" where
  "RecordVote t nid v = t\<lparr>votes := (votes t)(nid \<mapsto> v)\<rparr>"

definition TallyVotes :: "ProgressTracker \<Rightarrow> VoteResult" where
  "TallyVotes t = MajorityConfig_VoteResult (Voters t) (votes t)"

definition Committed :: "ProgressTracker \<Rightarrow> u64" where
  "Committed t = MajorityConfig_CommittedIndex (Voters t) (AckedIndex (progress t))"

text \<open>\<open>Visit\<close> applies a function to every entry; the visitors of the sources only write
  through the pointer they are given.\<close>

definition Visit :: "ProgressTracker \<Rightarrow> (u64 \<Rightarrow> Progress \<Rightarrow> Progress) \<Rightarrow> ProgressTracker" where
  "Visit t f = t\<lparr>progress := map (\<lambda>(nid, pr). (nid, f nid pr)) (progress t)\<rparr>"

definition QuorumActive :: "ProgressTracker \<Rightarrow> bool" where
  "QuorumActive t \<longleftrightarrow>
     MajorityConfig_VoteResult (Voters t)
       (fold (\<lambda>(nid, pr) vs. vs(nid \<mapsto> RecentActive pr)) (progress t) Map.empty) = VoteWon"

definition ResetRecentActive :: "ProgressTracker \<Rightarrow> ProgressTracker" where
  "ResetRecentActive t = Visit t (\<lambda>_ pr. pr\<lparr>RecentActive := False\<rparr>)"

definition Progress_of :: "ProgressTracker \<Rightarrow> u64 \<Rightarrow> Progress option" where
  "Progress_of t nid = map_of (progress t) nid"

definition set_Progress :: "ProgressTracker \<Rightarrow> u64 \<Rightarrow> Progress \<Rightarrow> ProgressTracker" where
  "set_Progress t nid pr = t\<lparr>progress := AList.update nid pr (progress t)\<rparr>"

fun buildMajorityConfig_add :: "MajorityConfig \<Rightarrow> u64 list \<Rightarrow> MajorityConfig" where
  "buildMajorityConfig_add c [] = c"
| "buildMajorityConfig_add c (pid # ps) =
     buildMajorityConfig_add (if pid \<in> set c then c else c @ [pid]) ps"

definition buildMajorityConfig :: "u64 \<Rightarrow> u64 list \<Rightarrow> MajorityConfig" where
  "buildMajorityConfig self peers = buildMajorityConfig_add [self] peers"

section \<open>Invariant\<close>

text \<open>The keys of both maps are distinct, and the voters are the nodes with progress.\<close>

definition tracker_ok :: "ProgressTracker \<Rightarrow> bool" where
  "tracker_ok t \<longleftrightarrow>
     distinct (map fst (progress t)) \<and> distinct (Voters t)
     \<and> set (Voters t) = fst ` set (progress t) \<and> selfID t \<in> set (Voters t)"

definition same_config :: "ProgressTracker \<Rightarrow> ProgressTracker \<Rightarrow> bool" where
  "same_config t t' \<longleftrightarrow>
     selfID t' = selfID t \<and> Voters t' = Voters t
     \<and> map fst (progress t') = map fst (progress t)"

lemma same_config_refl [simp]: "same_config t t"
  by (simp add: same_config_def)

lemma same_config_trans: "same_config s t \<Longrightarrow> same_config t u \<Longrightarrow> same_config s u"
  by (simp add: same_config_def)

lemma same_config_ok: "same_config t t' \<Longrightarrow> tracker_ok t' = tracker_ok t"
  unfolding same_config_def tracker_ok_def by (metis list.set_map)

lemma same_config_Visit [simp]: "same_config t (Visit t f)"
  by (simp add: same_config_def Visit_def case_prod_beta o_def)

lemma same_config_ResetVotes [simp]: "same_config t (ResetVotes t)"
  by (simp add: same_config_def ResetVotes_def)

lemma same_config_RecordVote [simp]: "same_config t (RecordVote t nid v)"
  by (simp add: same_config_def RecordVote_def)

lemma same_config_set_Progress:
  "Progress_of t nid = Some pr \<Longrightarrow> same_config t (set_Progress t nid pr')"
  by (auto simp: same_config_def set_Progress_def Progress_of_def update_keys
      dest!: map_of_SomeD image_eqI [of nid fst, rotated])

lemma Progress_of_set_Progress [simp]:
  "Progress_of (set_Progress t nid pr) k = (if k = nid then Some pr else Progress_of t k)"
  by (simp add: Progress_of_def set_Progress_def update_conv')

lemma Progress_of_Visit [simp]:
  "Progress_of (Visit t f) nid = map_option (f nid) (Progress_of t nid)"
proof -
  have "map_of (map (\<lambda>(nid, pr). (nid, f nid pr)) ps) nid = map_option (f nid) (map_of ps nid)"
    for ps
    by (induction ps) auto
  then show ?thesis by (simp add: Progress_of_def Visit_def)
qed

lemma votes_set_Progress [simp]: "votes (set_Progress t nid pr) = votes t"
  by (simp add: set_Progress_def)

lemma votes_Visit [simp]: "votes (Visit t f) = votes t"
  by (simp add: Visit_def)

lemma Progress_of_votes [simp]:
  "Progress_of (RecordVote t a v) nid = Progress_of t nid"
  "Progress_of (ResetVotes t) nid = Progress_of t nid"
  by (simp_all add: Progress_of_def RecordVote_def ResetVotes_def)

lemma Progress_of_domain:
  "tracker_ok t \<Longrightarrow> (Progress_of t nid \<noteq> None) \<longleftrightarrow> nid \<in> set (Voters t)"
  by (simp add: tracker_ok_def Progress_of_def map_of_eq_None_iff)

lemma tracker_ok_Voters_nonempty: "tracker_ok t \<Longrightarrow> Voters t \<noteq> []"
  by (auto simp: tracker_ok_def)

lemma set_buildMajorityConfig_add: "set (buildMajorityConfig_add c ps) = set c \<union> set ps"
  by (induction ps arbitrary: c) auto

lemma distinct_buildMajorityConfig_add:
  "distinct c \<Longrightarrow> distinct (buildMajorityConfig_add c ps)"
  by (induction ps arbitrary: c) auto

lemma buildMajorityConfig_keys:
  "set (buildMajorityConfig self peers) = insert self (set peers)"
  "distinct (buildMajorityConfig self peers)"
  by (simp_all add: buildMajorityConfig_def set_buildMajorityConfig_add
      distinct_buildMajorityConfig_add)

lemma keys_fold_InitProgress:
  "fst ` set (progress (fold (\<lambda>pid t. InitProgress t pid m n) ps t)) =
     fst ` set (progress t) \<union> set ps"
  "distinct (map fst (progress t)) \<Longrightarrow>
     distinct (map fst (progress (fold (\<lambda>pid t. InitProgress t pid m n) ps t)))"
  "selfID (fold (\<lambda>pid t. InitProgress t pid m n) ps t) = selfID t"
  "Voters (fold (\<lambda>pid t. InitProgress t pid m n) ps t) = Voters t"
  by (induction ps arbitrary: t)
    (auto simp: InitProgress_def dom_update distinct_update image_insert)

lemma tracker_ok_new:
  "tracker_ok (fold (\<lambda>pid t. InitProgress t pid m n) peers
     (NewTracker self (buildMajorityConfig self peers)))"
proof -
  have "distinct (map fst (progress (NewTracker self (buildMajorityConfig self peers))))"
    by (simp add: NewTracker_def)
  from keys_fold_InitProgress(2) [OF this] show ?thesis
    by (simp add: tracker_ok_def keys_fold_InitProgress buildMajorityConfig_keys)
      (simp add: NewTracker_def buildMajorityConfig_keys)
qed

section \<open>Committed and QuorumActive\<close>

abbreviation match_of :: "ProgressTracker \<Rightarrow> u64 \<Rightarrow> u64" where
  "match_of t nid \<equiv> (case Progress_of t nid of None \<Rightarrow> 0 | Some pr \<Rightarrow> MatchIndex pr)"

lemma acked_or_zero_match [simp]:
  "acked_or_zero (AckedIndex (progress t)) nid = match_of t nid"
  by (simp add: AckedIndex_def Progress_of_def split: option.splits)

lemma Committed_quorum:
  assumes "tracker_ok t"
  shows "is_majority (Voters t) {nid. Committed t \<le> match_of t nid}"
  using CommittedIndex_acked [of "Voters t" "AckedIndex (progress t)"] assms
    tracker_ok_Voters_nonempty [OF assms]
  by (simp add: Committed_def tracker_ok_def)

lemma Committed_maximal:
  assumes "tracker_ok t" and "Committed t < i"
  shows "\<not> is_majority (Voters t) {nid. i \<le> match_of t nid}"
  using CommittedIndex_maximal [of "Voters t" "AckedIndex (progress t)" i] assms
    tracker_ok_Voters_nonempty [OF assms(1)]
  by (simp add: Committed_def tracker_ok_def)

lemma active_votes:
  assumes "distinct (map fst ps)"
  shows "fold (\<lambda>(nid, pr) vs. vs(nid \<mapsto> RecentActive pr)) ps m =
    (\<lambda>nid. case map_of ps nid of None \<Rightarrow> m nid | Some pr \<Rightarrow> Some (RecentActive pr))"
  using assms
proof (induction ps arbitrary: m)
  case Nil
  then show ?case by simp
next
  case (Cons p ps)
  then have "map_of ps (fst p) = None" by (simp add: map_of_eq_None_iff)
  with Cons show ?case by (cases p) (auto simp: fun_eq_iff split: option.splits)
qed

lemma QuorumActive_iff:
  assumes "tracker_ok t"
  shows "QuorumActive t \<longleftrightarrow>
    is_majority (Voters t) {nid. \<exists>pr. Progress_of t nid = Some pr \<and> RecentActive pr}"
proof -
  have "{nid. (case map_of (progress t) nid of None \<Rightarrow> None | Some pr \<Rightarrow> Some (RecentActive pr))
      = Some True} = {nid. \<exists>pr. Progress_of t nid = Some pr \<and> RecentActive pr}"
    by (auto simp: Progress_of_def split: option.splits)
  then show ?thesis
    using assms tracker_ok_Voters_nonempty [OF assms]
    by (simp add: QuorumActive_def active_votes VoteWon_iff_majority tracker_ok_def)
qed

lemma TallyVotes_won:
  assumes "tracker_ok t"
  shows "TallyVotes t = VoteWon \<longleftrightarrow> is_majority (Voters t) {nid. votes t nid = Some True}"
  using assms tracker_ok_Voters_nonempty [OF assms]
  by (simp add: TallyVotes_def VoteWon_iff_majority tracker_ok_def)

end
