(* ===== verification/Read_Only.thy ===== *)
theory Read_Only
  imports Raft_Types
begin

text \<open>
  \<open>raft/read_only.go\<close>: the queue of linearizable read requests that wait for a quorum
  of heartbeat acknowledgements. The map is keyed by the request context; the status
  objects it points to are stored in the map itself, since only \<open>recvAck\<close> writes them.
\<close>

section \<open>Definitions\<close>

record ReadState =
  rsIndex :: u64
  rsRequestCtx :: bytes

record readIndexStatus =
  req :: Message
  rindex :: u64
  acks :: "u64 \<rightharpoonup> bool"

record readOnly =
  pendingReadIndex :: "bytes \<rightharpoonup> readIndexStatus"
  readIndexQueue :: "bytes list"

definition newReadOnly :: readOnly where
  "newReadOnly = \<lparr>pendingReadIndex = Map.empty, readIndexQueue = []\<rparr>"

definition addRequest :: "readOnly \<Rightarrow> u64 \<Rightarrow> Message \<Rightarrow> readOnly" where
  "addRequest r i m =
     (let s = mContext m in
      case pendingReadIndex r s of
        Some _ \<Rightarrow> r
      | None \<Rightarrow>
          r\<lparr>pendingReadIndex := (pendingReadIndex r)(s \<mapsto>
               \<lparr>req = m, rindex = i, acks = Map.empty\<rparr>),
            readIndexQueue := readIndexQueue r @ [s]\<rparr>)"

text \<open>The second component is the returned map of acknowledgements; nil reads as empty.\<close>

definition recvAck :: "readOnly \<Rightarrow> u64 \<Rightarrow> bytes \<Rightarrow> readOnly \<times> (u64 \<rightharpoonup> bool)" where
  "recvAck r nid ctx =
     (case pendingReadIndex r ctx of
        None \<Rightarrow> (r, Map.empty)
      | Some rs \<Rightarrow>
          (let acks' = (acks rs)(nid \<mapsto> True) in
           (r\<lparr>pendingReadIndex := (pendingReadIndex r)(ctx \<mapsto> rs\<lparr>acks := acks'\<rparr>)\<rparr>, acks')))"

fun advance_scan ::
  "(bytes \<rightharpoonup> readIndexStatus) \<Rightarrow> bytes \<Rightarrow> bytes list \<Rightarrow> nat \<Rightarrow> readIndexStatus list
     \<Rightarrow> panic + (nat \<times> bool \<times> readIndexStatus list)" where
  "advance_scan pending ctx [] i rss = Inr (i, False, rss)"
| "advance_scan pending ctx (okctx # q) i rss =
     (case pending okctx of
        None \<Rightarrow> Inl PanicReadState
      | Some rs \<Rightarrow>
          if okctx = ctx then Inr (i + 1, True, rss @ [rs])
          else advance_scan pending ctx q (i + 1) (rss @ [rs]))"

definition readOnly_advance :: "readOnly \<Rightarrow> Message \<Rightarrow> panic + (readOnly \<times> readIndexStatus list)" where
  "readOnly_advance r m =
     and_then (advance_scan (pendingReadIndex r) (mContext m) (readIndexQueue r) 0 [])
       (\<lambda>(i, found, rss).
          if found then
            Inr (r\<lparr>readIndexQueue := drop i (readIndexQueue r),
                   pendingReadIndex :=
                     fold (\<lambda>rs p. p(mContext (req rs) := None)) rss (pendingReadIndex r)\<rparr>, rss)
          else Inr (r, []))"

section \<open>Invariant\<close>

text \<open>The queue lists the pending contexts without repetition, each under its own key.\<close>

definition readOnly_ok :: "readOnly \<Rightarrow> bool" where
  "readOnly_ok r \<longleftrightarrow>
     distinct (readIndexQueue r) \<and> dom (pendingReadIndex r) = set (readIndexQueue r)
     \<and> (\<forall>ctx rs. pendingReadIndex r ctx = Some rs \<longrightarrow> mContext (req rs) = ctx)"

lemma readOnly_ok_new [simp]: "readOnly_ok newReadOnly"
  by (simp add: readOnly_ok_def newReadOnly_def)

lemma readOnly_ok_addRequest: "readOnly_ok r \<Longrightarrow> readOnly_ok (addRequest r i m)"
  by (auto simp: readOnly_ok_def addRequest_def Let_def split: option.splits)

lemma readOnly_ok_recvAck: "readOnly_ok r \<Longrightarrow> readOnly_ok (fst (recvAck r nid ctx))"
  by (auto simp: readOnly_ok_def recvAck_def Let_def split: option.splits)

lemma advance_scan_found:
  assumes "ctx \<notin> set pre" and "\<forall>c \<in> set (pre @ [ctx]). pending c \<noteq> None"
  shows "advance_scan pending ctx (pre @ ctx # post) i rss =
    Inr (i + length pre + 1, True, rss @ map (\<lambda>c. the (pending c)) (pre @ [ctx]))"
  using assms by (induction pre arbitrary: i rss) auto

lemma advance_scan_absent:
  assumes "ctx \<notin> set q" and "\<forall>c \<in> set q. pending c \<noteq> None"
  shows "advance_scan pending ctx q i rss =
    Inr (i + length q, False, rss @ map (\<lambda>c. the (pending c)) q)"
  using assms by (induction q arbitrary: i rss) auto

lemma fold_delete:
  "fold (\<lambda>rs p. p(mContext (req rs) := None)) rss p =
     p |` (- (\<lambda>rs. mContext (req rs)) ` set rss)"
  by (induction rss arbitrary: p) (auto simp: fun_eq_iff restrict_map_def)

text \<open>
  The characteristic equation of \<open>advance\<close>: the requests up to and including the one
  acknowledged are handed out in order and forgotten, later ones stay.
\<close>

lemma readOnly_advance_found:
  assumes ok: "readOnly_ok r" and q: "readIndexQueue r = pre @ mContext m # post"
  shows "readOnly_advance r m =
    Inr (r\<lparr>readIndexQueue := post,
           pendingReadIndex := pendingReadIndex r |` set post\<rparr>,
         map (\<lambda>c. the (pendingReadIndex r c)) (pre @ [mContext m]))"
proof -
  let ?p = "pendingReadIndex r"
  have notin: "mContext m \<notin> set pre"
    using ok q by (auto simp: readOnly_ok_def)
  have pend: "\<forall>c \<in> set (readIndexQueue r). \<exists>rs. ?p c = Some rs \<and> mContext (req rs) = c"
    using ok unfolding readOnly_ok_def by blast
  have scan: "advance_scan ?p (mContext m) (readIndexQueue r) 0 [] =
      Inr (length pre + 1, True, map (\<lambda>c. the (?p c)) (pre @ [mContext m]))"
    unfolding q using notin pend q by (subst advance_scan_found) auto
  have "(\<lambda>rs. mContext (req rs)) ` set (map (\<lambda>c. the (?p c)) (pre @ [mContext m])) =
      set (pre @ [mContext m])"
    using pend q by (force simp: image_image)
  moreover have "?p |` (- set (pre @ [mContext m])) = ?p |` set post"
    using ok q by (auto simp: fun_eq_iff restrict_map_def readOnly_ok_def)
  ultimately show ?thesis
    unfolding readOnly_advance_def scan by (simp add: fold_delete q)
qed

lemma readOnly_advance_absent:
  assumes "readOnly_ok r" and "mContext m \<notin> set (readIndexQueue r)"
  shows "readOnly_advance r m = Inr (r, [])"
proof -
  have "\<forall>c \<in> set (readIndexQueue r). pendingReadIndex r c \<noteq> None"
    using assms(1) by (auto simp: readOnly_ok_def)
  with assms(2) show ?thesis
    by (simp add: readOnly_advance_def advance_scan_absent)
qed

lemma readOnly_advance_cases:
  assumes "readOnly_ok r"
  obtains (found) pre post where "readIndexQueue r = pre @ mContext m # post"
      and "readOnly_advance r m =
        Inr (r\<lparr>readIndexQueue := post, pendingReadIndex := pendingReadIndex r |` set post\<rparr>,
             map (\<lambda>c. the (pendingReadIndex r c)) (pre @ [mContext m]))"
    | (absent) "mContext m \<notin> set (readIndexQueue r)" and "readOnly_advance r m = Inr (r, [])"
proof (cases "mContext m \<in> set (readIndexQueue r)")
  case True
  then obtain pre post where "readIndexQueue r = pre @ mContext m # post"
    by (auto dest: split_list)
  with readOnly_advance_found [OF assms] show ?thesis by (blast intro: found)
next
  case False
  with readOnly_advance_absent [OF assms] show ?thesis by (blast intro: absent)
qed

lemma readOnly_ok_advance:
  assumes "readOnly_ok r" and "readOnly_advance r m = Inr (r', rss)"
  shows "readOnly_ok r'"
  using assms(1)
proof (cases rule: readOnly_advance_cases [where m = m])
  case (found pre post)
  with assms(2) have r': "r' = r\<lparr>readIndexQueue := post,
      pendingReadIndex := pendingReadIndex r |` set post\<rparr>" by simp
  have "set post \<subseteq> dom (pendingReadIndex r)" and "distinct post"
    using assms(1) found(1) by (auto simp: readOnly_ok_def)
  moreover have "\<forall>ctx rs. (pendingReadIndex r |` set post) ctx = Some rs \<longrightarrow> mContext (req rs) = ctx"
    using assms(1) by (auto simp: readOnly_ok_def restrict_map_def)
  ultimately show ?thesis
    unfolding r' readOnly_ok_def by (simp add: Int_absorb1)
next
  case absent
  with assms show ?thesis by simp
qed

end
