(* ===== verification/Raft_Core.thy ===== *)
theory Raft_Core
  imports Raft_Log Tracker Read_Only
begin

text \<open>
  \<open>raft/raft.go\<close>: the state machine of a raft node. Function values stored in the struct
  (\<open>step\<close>, \<open>tick\<close>) are enumerations of the functions they may hold. Two fields are the
  environment of the next operation: \<open>entropy\<close>, the numbers \<open>crypto/rand\<close> will deliver, and
  \<open>env_io\<close>, the outcome of the system calls made while a snapshot is stored. A panic is
  \<open>Inl\<close>; an error returned by \<open>Step\<close> is the second component of the result.
\<close>

section \<open>State\<close>

datatype stepFunc = stepFunc_Leader | stepFunc_Candidate | stepFunc_Follower
datatype tickFunc = tickFunc_Election | tickFunc_Heartbeat

record Raft =
  rid :: u64
  cur_term :: u64
  state :: State
  rlog :: raftLog
  messages :: "Message list"
  msgsAfterAppend :: "Message list"
  trk :: ProgressTracker
  peers :: "u64 list"
  votedFor :: u64
  readStates :: "ReadState list"
  read_only :: readOnly
  pendingReadIndexRequests :: "Message list"
  lead :: u64
  heartbeatTimeout :: int
  electionTimeout :: int
  electionElapsed :: int
  heartbeatElapsed :: int
  randomizedElectionTimeout :: int
  leadTransferee :: u64
  tick_fn :: tickFunc
  step_fn :: stepFunc
  entropy :: "nat \<Rightarrow> nat"
  env_io :: disk_io

record Ready =
  rdLead :: u64
  rdEntries :: "Entry list"
  rdCommittedEntries :: "Entry list"
  rdMessages :: "Message list"
  rdHardState :: "HardState option"
  rdReadStates :: "ReadState list"

record Config =
  cfgID :: u64
  cfgPeers :: "u64 list"
  cfgStorage :: "DurableStorage option"
  cfgApplied :: u64
  cfgElectionTick :: int
  cfgHeartbeatTick :: int

section \<open>Sending\<close>

definition enqueue :: "Raft \<Rightarrow> Message \<Rightarrow> Raft" where
  "enqueue r m =
     (if mType m = MsgAppResp \<or> mType m = MsgVoteResp \<or> mType m = MsgPreVoteResp
      then r\<lparr>msgsAfterAppend := msgsAfterAppend r @ [m]\<rparr>
      else r\<lparr>messages := messages r @ [m]\<rparr>)"

definition send :: "Raft \<Rightarrow> Message \<Rightarrow> panic + Raft" where
  "send r m =
     (let m = (if mFrom m = None_id then m\<lparr>mFrom := rid r\<rparr> else m) in
      if mType m = MsgPreVote \<or> mType m = MsgPreVoteResp \<or> mType m = MsgVote \<or> mType m = MsgVoteResp
      then (if mTerm m = 0 then Inl PanicVoteWithoutTerm else Inr (enqueue r m))
      else if mType m = MsgProp then Inr (enqueue r m)
      else Inr (enqueue r (m\<lparr>mTerm := cur_term r\<rparr>)))"

definition current_HardState :: "Raft \<Rightarrow> HardState" where
  "current_HardState r =
     \<lparr>hTerm = cur_term r, hVotedFor = votedFor r, hCommit = committed (rlog r)\<rparr>"

definition sendAppend :: "u64 \<Rightarrow> Raft \<Rightarrow> panic + Raft" where
  "sendAppend to r =
     (case Progress_of (trk r) to of
        None \<Rightarrow> Inr r
      | Some p \<Rightarrow>
          (let prevIndex = NextIndex p - 1 in
           and_then (log_term_of (rlog r) prevIndex)
             (\<lambda>t. case t of
                Inl _ \<Rightarrow>
                  send r ((new_Message MsgSnap)\<lparr>mTo := to, mSnapshot := Some (Snapshot (storage (rlog r)))\<rparr>)
              | Inr prevTerm \<Rightarrow>
                  and_then (log_slice_of (rlog r) (NextIndex p) (lastIndex (rlog r) + 1))
                    (\<lambda>ents.
                       send r ((new_Message MsgApp)\<lparr>mTo := to, mIndex := prevIndex, mLogTerm := prevTerm,
                         mCommit := committed (rlog r), mEntries := ents\<rparr>)))))"

definition bcastAppend :: "Raft \<Rightarrow> panic + Raft" where
  "bcastAppend r =
     fold_then (\<lambda>nid r. if nid = rid r then Inr r else sendAppend nid r) (map fst (progress (trk r))) r"

definition bcastHeartbeat :: "Raft \<Rightarrow> bytes \<Rightarrow> panic + Raft" where
  "bcastHeartbeat r ctx =
     fold_then
       (\<lambda>(nid, pr) r.
          if nid = rid r then Inr r
          else send r ((new_Message MsgHeartbeat)\<lparr>mTo := nid,
                 mCommit := min (MatchIndex pr) (committed (rlog r)), mContext := ctx\<rparr>))
       (progress (trk r)) r"

definition respondVote :: "Raft \<Rightarrow> u64 \<Rightarrow> bool \<Rightarrow> MessageType \<Rightarrow> u64 \<Rightarrow> panic + Raft" where
  "respondVote r to granted respType t =
     send r ((new_Message respType)\<lparr>mTo := to, mTerm := t, mReject := \<not> granted\<rparr>)"

definition bcastVote :: "Raft \<Rightarrow> MessageType \<Rightarrow> u64 \<Rightarrow> panic + Raft" where
  "bcastVote r msgType t =
     and_then (lastEntryID (rlog r))
       (\<lambda>(lastIdx, lastTerm).
          fold_then
            (\<lambda>pid r. send r ((new_Message msgType)\<lparr>mTo := pid, mTerm := t, mIndex := lastIdx,
                              mLogTerm := lastTerm\<rparr>))
            (peers r) r)"

definition sendTimeoutNow :: "Raft \<Rightarrow> u64 \<Rightarrow> panic + Raft" where
  "sendTimeoutNow r to = send r ((new_Message MsgTimeoutNow)\<lparr>mTo := to\<rparr>)"

definition respondReadIndexReq :: "Raft \<Rightarrow> Message \<Rightarrow> u64 \<Rightarrow> panic + Raft" where
  "respondReadIndexReq r m readIndex =
     (if mFrom m = None_id \<or> mFrom m = rid r
      then Inr (r\<lparr>readStates := readStates r @ [\<lparr>rsIndex = readIndex, rsRequestCtx = mContext m\<rparr>]\<rparr>)
      else send r ((new_Message MsgReadIndexResp)\<lparr>mTo := mFrom m, mContext := mContext m,
             mIndex := readIndex\<rparr>))"

section \<open>Roles\<close>

definition intN :: "Raft \<Rightarrow> int \<Rightarrow> Raft \<times> int" where
  "intN r n = (r\<lparr>entropy := (\<lambda>k. entropy r (k + 1))\<rparr>, int (entropy r 0) mod n)"

definition resetRandomizedElectionTimeout :: "Raft \<Rightarrow> Raft" where
  "resetRandomizedElectionTimeout r =
     (case intN r (electionTimeout r) of
        (r, v) \<Rightarrow> r\<lparr>randomizedElectionTimeout := electionTimeout r + v\<rparr>)"

definition pastElectionTimeout :: "Raft \<Rightarrow> bool" where
  "pastElectionTimeout r \<longleftrightarrow> electionElapsed r \<ge> randomizedElectionTimeout r"

definition abortLeaderTransfer :: "Raft \<Rightarrow> Raft" where
  "abortLeaderTransfer r = r\<lparr>leadTransferee := None_id\<rparr>"

definition reset :: "Raft \<Rightarrow> u64 \<Rightarrow> Raft" where
  "reset r t =
     (let r = (if cur_term r \<noteq> t then r\<lparr>cur_term := t, votedFor := None_id\<rparr> else r);
          r = r\<lparr>lead := None_id, electionElapsed := 0, heartbeatElapsed := 0\<rparr>;
          r = resetRandomizedElectionTimeout r;
          r = abortLeaderTransfer r;
          r = r\<lparr>trk := Visit (ResetVotes (trk r))
                (\<lambda>nid pr.
                   pr\<lparr>MatchIndex := (if nid = rid r then lastIndex (rlog r) else 0),
                      NextIndex := lastIndex (rlog r) + 1, RecentActive := False\<rparr>)\<rparr>
      in r\<lparr>pendingReadIndexRequests := [], read_only := newReadOnly\<rparr>)"

definition becomePreCandidate :: "Raft \<Rightarrow> Raft" where
  "becomePreCandidate r =
     r\<lparr>state := PreCandidate, step_fn := stepFunc_Candidate, tick_fn := tickFunc_Election,
       lead := None_id\<rparr>"

definition becomeCandidate :: "Raft \<Rightarrow> Raft" where
  "becomeCandidate r =
     (let r = r\<lparr>state := Candidate, step_fn := stepFunc_Candidate, tick_fn := tickFunc_Election\<rparr>;
          r = reset r (cur_term r + 1)
      in r\<lparr>votedFor := rid r\<rparr>)"

definition becomeFollower :: "Raft \<Rightarrow> u64 \<Rightarrow> u64 \<Rightarrow> Raft" where
  "becomeFollower r t ld =
     (let r = reset (r\<lparr>state := Follower\<rparr>) t
      in r\<lparr>lead := ld, step_fn := stepFunc_Follower, tick_fn := tickFunc_Election\<rparr>)"

definition appendEntry :: "Raft \<Rightarrow> bytes \<Rightarrow> panic + Raft" where
  "appendEntry r data =
     (let e = \<lparr>eIndex = lastIndex (rlog r) + 1, eTerm = cur_term r, eData = data\<rparr> in
      and_then (appendEntries (rlog r) [e])
        (\<lambda>(l, _).
           (let r = r\<lparr>rlog := l\<rparr> in
            send r ((new_Message MsgAppResp)\<lparr>mTo := rid r, mIndex := lastIndex (rlog r)\<rparr>))))"

text \<open>\<open>becomeLeader\<close> up to the assignment of \<open>lead\<close>.\<close>

definition leader_role :: "Raft \<Rightarrow> Raft" where
  "leader_role r =
     (let r = r\<lparr>state := Leader, step_fn := stepFunc_Leader, tick_fn := tickFunc_Heartbeat\<rparr>;
          r = reset r (cur_term r)
      in r\<lparr>lead := rid r\<rparr>)"

definition becomeLeader :: "Raft \<Rightarrow> panic + Raft" where
  "becomeLeader r =
     (let r = leader_role r in
      case Progress_of (trk r) (rid r) of
        None \<Rightarrow> Inl PanicNilProgress
      | Some pr \<Rightarrow>
          (let r = r\<lparr>trk := set_Progress (trk r) (rid r) (pr\<lparr>RecentActive := True\<rparr>)\<rparr> in
           and_then (appendEntry r []) bcastAppend))"

function hup :: "Raft \<Rightarrow> CampaignType \<Rightarrow> panic + Raft" where
  "hup r t =
     (if state r = Leader then Inr r
      else
        (let r1 = (if t = CampaignPreElection then becomePreCandidate r else becomeCandidate r);
             voteMsgType = (if t = CampaignPreElection then MsgPreVote else MsgVote);
             voteTerm = (if t = CampaignPreElection then cur_term r1 + 1 else cur_term r1);
             r2 = r1\<lparr>trk := RecordVote (trk r1) (rid r1) True\<rparr>
         in if TallyVotes (trk r2) = VoteWon then
              (if t = CampaignPreElection then hup r2 CampaignElection else becomeLeader r2)
            else bcastVote r2 voteMsgType voteTerm))"
  by pat_completeness auto
termination
  by (relation "measure (\<lambda>(r, t). if t = CampaignPreElection then 1 else 0)") auto

declare hup.simps [simp del]

section \<open>Handlers\<close>

definition canVoteFor :: "Raft \<Rightarrow> Message \<Rightarrow> bool" where
  "canVoteFor r m =
     (if mTerm m < cur_term r then False
      else if mTerm m = cur_term r \<and> votedFor r \<noteq> 0 \<and> votedFor r \<noteq> mFrom m then False
      else True)"

definition isCandidateUpToDate :: "Raft \<Rightarrow> Message \<Rightarrow> panic + bool" where
  "isCandidateUpToDate r m = isUpToDate (rlog r) (mIndex m) (mLogTerm m)"

text \<open>\<open>canVoteFor(m) && isCandidateUpToDate(m)\<close>: the second call happens only if the first holds.\<close>

definition vote_granted :: "Raft \<Rightarrow> Message \<Rightarrow> panic + bool" where
  "vote_granted r m = (if canVoteFor r m then isCandidateUpToDate r m else Inr False)"

definition committedEntryInCurrentTerm :: "Raft \<Rightarrow> panic + bool" where
  "committedEntryInCurrentTerm r = matchTerm (rlog r) (committed (rlog r)) (cur_term r)"

definition maybeCommit :: "Raft \<Rightarrow> u64 \<Rightarrow> panic + Raft \<times> bool" where
  "maybeCommit r i =
     (if i > committed (rlog r) then
        and_then (matchTerm (rlog r) i (cur_term r))
          (\<lambda>matches.
             if matches then
               and_then (commitTo (rlog r) i) (\<lambda>l. Inr (r\<lparr>rlog := l\<rparr>, True))
             else Inr (r, False))
      else Inr (r, False))"

definition drainPendingReadIndexRequests :: "Raft \<Rightarrow> panic + Raft" where
  "drainPendingReadIndexRequests r =
     (if pendingReadIndexRequests r = [] then Inr r
      else
        fold_then (\<lambda>rq r. respondReadIndexReq r rq (committed (rlog r)))
          (pendingReadIndexRequests r) (r\<lparr>pendingReadIndexRequests := []\<rparr>))"

text \<open>The two parts of \<open>handleAppendEntries\<close> when the logs match: the entries, then the commit index.\<close>

definition append_message :: "Raft \<Rightarrow> Message \<Rightarrow> Message \<Rightarrow> panic + Raft \<times> Message" where
  "append_message r m resp =
     (if mEntries m \<noteq> [] then
        and_then (appendEntries (rlog r) (mEntries m))
          (\<lambda>(l, _). Inr (r\<lparr>rlog := l\<rparr>,
             resp\<lparr>mIndex := eIndex (last (mEntries m)), mLogTerm := eTerm (last (mEntries m))\<rparr>))
      else Inr (r, resp))"

definition commit_message :: "Raft \<Rightarrow> Message \<Rightarrow> panic + Raft" where
  "commit_message r m =
     (if mCommit m > committed (rlog r) then
        and_then (commitTo (rlog r) (min (mCommit m) (lastIndex (rlog r))))
          (\<lambda>l. Inr (r\<lparr>rlog := l\<rparr>))
      else Inr r)"

definition handleAppendEntries :: "Raft \<Rightarrow> Message \<Rightarrow> panic + Raft" where
  "handleAppendEntries r m =
     (let resp = (new_Message MsgAppResp)\<lparr>mTo := mFrom m\<rparr> in
      and_then (matchTerm (rlog r) (mIndex m) (mLogTerm m))
        (\<lambda>matches.
           if matches then
             and_then (append_message r m resp)
               (\<lambda>(r, resp). and_then (commit_message r m) (\<lambda>r. send r resp))
           else
             send r (resp\<lparr>mReject := True, mIndex := mIndex m,
                       mRejectHint := sIndex (Snapshot (storage (rlog r)))\<rparr>)))"

definition handleHeartbeat :: "Raft \<Rightarrow> Message \<Rightarrow> panic + Raft" where
  "handleHeartbeat r m =
     and_then (commitTo (rlog r) (mCommit m))
       (\<lambda>l. send (r\<lparr>rlog := l\<rparr>)
              ((new_Message MsgHeartbeatResp)\<lparr>mTo := mFrom m, mContext := mContext m\<rparr>))"

definition handleSnapshot :: "Raft \<Rightarrow> Message \<Rightarrow> panic + Raft" where
  "handleSnapshot r m =
     and_then (ApplySnapshot (env_io r) (storage (rlog r)) (mSnapshot m))
       (\<lambda>(s, err).
          (let r = r\<lparr>rlog := (rlog r)\<lparr>storage := s\<rparr>\<rparr> in
           case (err, mSnapshot m) of
             (None, Some sn) \<Rightarrow> Inr (r\<lparr>rlog := restore (rlog r) (sIndex sn)\<rparr>)
           | _ \<Rightarrow> Inr r))"

section \<open>stepLeader\<close>

text \<open>One definition per case of the switch; \<open>step_ok r\<close> is a normal return without error.\<close>

abbreviation step_ok :: "Raft \<Rightarrow> panic + Raft \<times> raft_error option" where
  "step_ok r \<equiv> Inr (r, None)"

definition appResp_progress :: "Raft \<Rightarrow> Message \<Rightarrow> Progress \<Rightarrow> panic + Raft \<times> Progress" where
  "appResp_progress r m prs =
     (if mReject m then
        (let firstIndex = FirstIndex (storage (rlog r)) in
         and_then
           (if firstIndex > 0 \<and> mRejectHint m < firstIndex - 1 then
              send r ((new_Message MsgSnap)\<lparr>mTo := mFrom m,
                       mSnapshot := Some (Snapshot (storage (rlog r)))\<rparr>)
            else Inr r)
           (\<lambda>r. Inr (r, prs\<lparr>NextIndex := NextIndex prs - 1\<rparr>)))
      else Inr (r, prs\<lparr>MatchIndex := mIndex m, NextIndex := mIndex m + 1\<rparr>))"

definition appResp_finish :: "Raft \<Rightarrow> Message \<Rightarrow> Progress \<Rightarrow> panic + Raft \<times> raft_error option" where
  "appResp_finish r m prs =
     and_then
       (if mFrom m = leadTransferee r \<and> MatchIndex prs = lastIndex (rlog r)
        then sendTimeoutNow r (mFrom m) else Inr r)
       (\<lambda>r. and_then (maybeCommit r (Committed (trk r)))
          (\<lambda>(r, advanced).
             and_then (if advanced then drainPendingReadIndexRequests r else Inr r) step_ok))"

definition leader_MsgAppResp :: "Raft \<Rightarrow> Message \<Rightarrow> panic + Raft \<times> raft_error option" where
  "leader_MsgAppResp r m =
     (case Progress_of (trk r) (mFrom m) of
        None \<Rightarrow> Inr (r, Some ErrUnknownPeer)
      | Some prs \<Rightarrow>
          and_then
            (appResp_progress r m (if mTerm m = cur_term r then prs\<lparr>RecentActive := True\<rparr> else prs))
            (\<lambda>(r, prs). appResp_finish (r\<lparr>trk := set_Progress (trk r) (mFrom m) prs\<rparr>) m prs))"

definition leader_MsgProp :: "Raft \<Rightarrow> Message \<Rightarrow> panic + Raft \<times> raft_error option" where
  "leader_MsgProp r m =
     (if leadTransferee r \<noteq> None_id then Inr (r, Some ErrProposalDropped)
      else if mEntries m = [] then Inl PanicEmptyProp
      else
        and_then (appendEntry r (eData (hd (mEntries m))))
          (\<lambda>r. and_then (bcastAppend r) step_ok))"

definition heartbeatResp_read :: "Raft \<Rightarrow> Message \<Rightarrow> panic + Raft \<times> raft_error option" where
  "heartbeatResp_read r m =
     (if mContext m = [] then step_ok r
      else
        (case recvAck (read_only r) (mFrom m) (mContext m) of
           (ro, acked) \<Rightarrow>
             (let r = r\<lparr>read_only := ro\<rparr> in
              if MajorityConfig_VoteResult (Voters (trk r)) acked = VoteWon then
                and_then (readOnly_advance (read_only r) m)
                  (\<lambda>(ro, rss).
                     and_then
                       (fold_then (\<lambda>rs r. respondReadIndexReq r (req rs) (rindex rs)) rss
                          (r\<lparr>read_only := ro\<rparr>))
                       step_ok)
              else step_ok r)))"

definition leader_MsgHeartbeatResp :: "Raft \<Rightarrow> Message \<Rightarrow> panic + Raft \<times> raft_error option" where
  "leader_MsgHeartbeatResp r m =
     (case Progress_of (trk r) (mFrom m) of
        None \<Rightarrow> step_ok r
      | Some prs \<Rightarrow>
          (let prs = (if mTerm m = cur_term r then prs\<lparr>RecentActive := True\<rparr> else prs);
               r = r\<lparr>trk := set_Progress (trk r) (mFrom m) prs\<rparr>
           in and_then
                (if MatchIndex prs < lastIndex (rlog r) then sendAppend (mFrom m) r else Inr r)
                (\<lambda>r. heartbeatResp_read r m)))"

definition leader_MsgReadIndex :: "Raft \<Rightarrow> Message \<Rightarrow> panic + Raft \<times> raft_error option" where
  "leader_MsgReadIndex r m =
     (if IsSingleton (trk r) then
        and_then (respondReadIndexReq r m (committed (rlog r))) step_ok
      else
        and_then (committedEntryInCurrentTerm r)
          (\<lambda>current.
             if \<not> current then
               step_ok (r\<lparr>pendingReadIndexRequests := pendingReadIndexRequests r @ [m]\<rparr>)
             else
               (let ro = addRequest (read_only r) (committed (rlog r)) m;
                    ro = fst (recvAck ro (rid r) (mContext m))
                in and_then (bcastHeartbeat (r\<lparr>read_only := ro\<rparr>) (mContext m)) step_ok)))"

definition leader_MsgCheckQuorum :: "Raft \<Rightarrow> panic + Raft \<times> raft_error option" where
  "leader_MsgCheckQuorum r =
     (if \<not> QuorumActive (trk r) then step_ok (becomeFollower r (cur_term r) None_id)
      else
        step_ok (r\<lparr>trk := Visit (trk r)
          (\<lambda>nid pr. if nid \<noteq> rid r then pr\<lparr>RecentActive := False\<rparr> else pr)\<rparr>))"

text \<open>\<open>r.trk.Progress(leadTransferee)\<close> is dereferenced without a nil check.\<close>

definition leader_MsgTransferLeader :: "Raft \<Rightarrow> Message \<Rightarrow> panic + Raft \<times> raft_error option" where
  "leader_MsgTransferLeader r m =
     (let transferee = mFrom m; lastLeadTransferee = leadTransferee r in
      if lastLeadTransferee \<noteq> None_id \<and> lastLeadTransferee = transferee then step_ok r
      else
        (let r = (if lastLeadTransferee \<noteq> None_id then abortLeaderTransfer r else r) in
         if transferee = rid r then step_ok r
         else
           (let r = r\<lparr>electionElapsed := 0, leadTransferee := transferee\<rparr> in
            case Progress_of (trk r) transferee of
              None \<Rightarrow> Inl PanicNilProgress
            | Some prs \<Rightarrow>
                and_then
                  (if MatchIndex prs = lastIndex (rlog r) then sendTimeoutNow r transferee
                   else sendAppend transferee r)
                  step_ok)))"

definition stepLeader :: "Raft \<Rightarrow> Message \<Rightarrow> panic + Raft \<times> raft_error option" where
  "stepLeader r m =
     (case mType m of
        MsgAppResp \<Rightarrow> leader_MsgAppResp r m
      | MsgProp \<Rightarrow> leader_MsgProp r m
      | MsgBeat \<Rightarrow> and_then (bcastHeartbeat r []) step_ok
      | MsgHeartbeatResp \<Rightarrow> leader_MsgHeartbeatResp r m
      | MsgReadIndex \<Rightarrow> leader_MsgReadIndex r m
      | MsgCheckQuorum \<Rightarrow> leader_MsgCheckQuorum r
      | MsgTransferLeader \<Rightarrow> leader_MsgTransferLeader r m
      | _ \<Rightarrow> step_ok r)"

section \<open>stepCandidate and stepFollower\<close>

definition candidate_voteResp :: "Raft \<Rightarrow> Message \<Rightarrow> panic + Raft \<times> raft_error option" where
  "candidate_voteResp r m =
     (if mTerm m < cur_term r then step_ok r
      else
        (let r = r\<lparr>trk := RecordVote (trk r) (mFrom m) (\<not> mReject m)\<rparr> in
         case TallyVotes (trk r) of
           VoteWon \<Rightarrow>
             if state r = PreCandidate then
               (let r = becomeCandidate r;
                    r = r\<lparr>trk := RecordVote (trk r) (rid r) True\<rparr>
                in and_then (bcastVote r MsgVote (cur_term r)) step_ok)
             else and_then (becomeLeader r) step_ok
         | VoteLost \<Rightarrow> step_ok (becomeFollower r (cur_term r) None_id)
         | VotePending \<Rightarrow> step_ok r))"

definition stepCandidate :: "Raft \<Rightarrow> Message \<Rightarrow> panic + Raft \<times> raft_error option" where
  "stepCandidate r m =
     (let voteRespType = (if state r = Candidate then MsgVoteResp else MsgPreVoteResp) in
      if mType m = MsgProp then Inr (r, Some ErrProposalDropped)
      else if mType m = voteRespType then candidate_voteResp r m
      else if mType m = MsgApp then
        and_then (handleAppendEntries (becomeFollower r (mTerm m) (mFrom m)) m) step_ok
      else if mType m = MsgHeartbeat then
        and_then (handleHeartbeat (becomeFollower r (mTerm m) (mFrom m)) m) step_ok
      else if mType m = MsgSnap then
        and_then (handleSnapshot (becomeFollower r (mTerm m) (mFrom m)) m) step_ok
      else if mType m = MsgReadIndex then Inr (r, Some ErrProposalDropped)
      else step_ok r)"

definition stepFollower :: "Raft \<Rightarrow> Message \<Rightarrow> panic + Raft \<times> raft_error option" where
  "stepFollower r m =
     (case mType m of
        MsgProp \<Rightarrow>
          if lead r = None_id then Inr (r, Some ErrProposalDropped)
          else and_then (send r (m\<lparr>mTo := lead r\<rparr>)) step_ok
      | MsgApp \<Rightarrow>
          and_then (handleAppendEntries (r\<lparr>electionElapsed := 0, lead := mFrom m\<rparr>) m) step_ok
      | MsgSnap \<Rightarrow>
          and_then (handleSnapshot (r\<lparr>electionElapsed := 0, lead := mFrom m\<rparr>) m) step_ok
      | MsgHeartbeat \<Rightarrow>
          and_then (handleHeartbeat (r\<lparr>electionElapsed := 0, lead := mFrom m\<rparr>) m) step_ok
      | MsgReadIndex \<Rightarrow>
          if lead r = None_id then Inr (r, Some ErrProposalDropped)
          else and_then (send r (m\<lparr>mTo := lead r\<rparr>)) step_ok
      | MsgReadIndexResp \<Rightarrow>
          step_ok (r\<lparr>readStates := readStates r @ [\<lparr>rsIndex = mIndex m, rsRequestCtx = mContext m\<rparr>]\<rparr>)
      | MsgTimeoutNow \<Rightarrow> and_then (hup r CampaignTransfer) step_ok
      | MsgTransferLeader \<Rightarrow>
          if lead r = None_id then step_ok r
          else and_then (send r (m\<lparr>mTo := lead r\<rparr>)) step_ok
      | _ \<Rightarrow> step_ok r)"

section \<open>Step\<close>

text \<open>The first switch of \<open>Step\<close>, on the term of the message.\<close>

definition step_term :: "Raft \<Rightarrow> Message \<Rightarrow> panic + Raft" where
  "step_term r m =
     (if mTerm m = 0 then Inr r
      else if mTerm m > cur_term r then
        (if mType m = MsgPreVote \<or> mType m = MsgPreVoteResp then Inr r
         else Inr (becomeFollower r (mTerm m) (mFrom m)))
      else if mTerm m < cur_term r then
        (if mType m = MsgPreVote then respondVote r (mFrom m) False MsgPreVoteResp (cur_term r)
         else Inr r)
      else Inr r)"

definition call_step :: "Raft \<Rightarrow> Message \<Rightarrow> panic + Raft \<times> raft_error option" where
  "call_step r m =
     (case step_fn r of
        stepFunc_Leader \<Rightarrow> stepLeader r m
      | stepFunc_Candidate \<Rightarrow> stepCandidate r m
      | stepFunc_Follower \<Rightarrow> stepFollower r m)"

definition step_message :: "Raft \<Rightarrow> Message \<Rightarrow> panic + Raft \<times> raft_error option" where
  "step_message r m =
     (case mType m of
        MsgPreVote \<Rightarrow>
          and_then (vote_granted r m)
            (\<lambda>granted. and_then (respondVote r (mFrom m) granted MsgPreVoteResp (mTerm m)) step_ok)
      | MsgVote \<Rightarrow>
          and_then (vote_granted r m)
            (\<lambda>granted.
               (let r = (if granted then r\<lparr>votedFor := mFrom m\<rparr> else r) in
                and_then (respondVote r (mFrom m) granted MsgVoteResp (cur_term r)) step_ok))
      | MsgHup \<Rightarrow> and_then (hup r CampaignPreElection) step_ok
      | _ \<Rightarrow> call_step r m)"

definition Step :: "Raft \<Rightarrow> Message \<Rightarrow> panic + Raft \<times> raft_error option" where
  "Step r m = and_then (step_term r m) (\<lambda>r. step_message r m)"

definition Propose :: "Raft \<Rightarrow> bytes \<Rightarrow> panic + Raft \<times> raft_error option" where
  "Propose r data =
     Step r ((new_Message MsgProp)\<lparr>mEntries := [\<lparr>eIndex = 0, eTerm = 0, eData = data\<rparr>]\<rparr>)"

definition Campaign :: "Raft \<Rightarrow> panic + Raft \<times> raft_error option" where
  "Campaign r = Step r (new_Message MsgHup)"

definition ReadIndex :: "Raft \<Rightarrow> bytes \<Rightarrow> panic + Raft \<times> raft_error option" where
  "ReadIndex r ctx = Step r ((new_Message MsgReadIndex)\<lparr>mContext := ctx\<rparr>)"

definition CommitTo :: "Raft \<Rightarrow> u64 \<Rightarrow> panic + Raft" where
  "CommitTo r index = and_then (commitTo (rlog r) index) (\<lambda>l. Inr (r\<lparr>rlog := l\<rparr>))"

section \<open>Ticks\<close>

definition tickElection :: "Raft \<Rightarrow> panic + Raft" where
  "tickElection r =
     (let r = r\<lparr>electionElapsed := electionElapsed r + 1\<rparr> in
      if pastElectionTimeout r then
        and_then (Step (r\<lparr>electionElapsed := 0\<rparr>) ((new_Message MsgHup)\<lparr>mFrom := rid r\<rparr>))
          (\<lambda>(r, _). Inr r)
      else Inr r)"

definition tickHeartbeat :: "Raft \<Rightarrow> panic + Raft" where
  "tickHeartbeat r =
     (let r = r\<lparr>heartbeatElapsed := heartbeatElapsed r + 1, electionElapsed := electionElapsed r + 1\<rparr> in
      and_then
        (if electionElapsed r \<ge> electionTimeout r then
           and_then (Step (r\<lparr>electionElapsed := 0\<rparr>) (new_Message MsgCheckQuorum))
             (\<lambda>(r, _). Inr (if state r = Leader \<and> leadTransferee r \<noteq> None_id
                            then abortLeaderTransfer r else r))
         else Inr r)
        (\<lambda>r. if heartbeatElapsed r \<ge> heartbeatTimeout r then
                and_then (Step (r\<lparr>heartbeatElapsed := 0\<rparr>) ((new_Message MsgBeat)\<lparr>mFrom := rid r\<rparr>))
                  (\<lambda>(r, _). Inr r)
              else Inr r))"

definition Tick :: "Raft \<Rightarrow> panic + Raft" where
  "Tick r =
     (case tick_fn r of
        tickFunc_Election \<Rightarrow> tickElection r
      | tickFunc_Heartbeat \<Rightarrow> tickHeartbeat r)"

section \<open>Ready and Advance\<close>

definition Ready_of :: "Raft \<Rightarrow> panic + Ready" where
  "Ready_of r =
     and_then (nextCommittedEnts (rlog r))
       (\<lambda>committedEnts.
          Inr \<lparr>rdLead = lead r, rdEntries = nextUnstableEnts (rlog r),
               rdCommittedEntries = committedEnts,
               rdMessages = messages r @ filter (\<lambda>m. mTo m \<noteq> rid r) (msgsAfterAppend r),
               rdHardState = Some (current_HardState r), rdReadStates = readStates r\<rparr>)"

definition HasReady :: "Raft \<Rightarrow> bool" where
  "HasReady r \<longleftrightarrow> messages r \<noteq> [] \<or> msgsAfterAppend r \<noteq> [] \<or> readStates r \<noteq> []
     \<or> hasNextUnstableEnts (rlog r) \<or> hasNextCommittedEnts (rlog r)"

definition Advance :: "Raft \<Rightarrow> Ready \<Rightarrow> panic + Raft" where
  "Advance r rd =
     and_then
       (if rdEntries rd \<noteq> [] then
          stableTo (rlog r) (eIndex (last (rdEntries rd))) (eTerm (last (rdEntries rd)))
        else Inr (rlog r))
       (\<lambda>l. (let l = (if rdCommittedEntries rd \<noteq> []
                     then appliedTo l (eIndex (last (rdCommittedEntries rd))) else l)
             in Inr (r\<lparr>rlog := l, messages := [], readStates := []\<rparr>)))"

section \<open>newRaft\<close>

definition validate :: "Config \<Rightarrow> bool" where
  "validate c \<longleftrightarrow> cfgHeartbeatTick c > 0 \<and> cfgElectionTick c > cfgHeartbeatTick c \<and> cfgStorage c \<noteq> None"

definition newRaft :: "Config \<Rightarrow> (nat \<Rightarrow> nat) \<Rightarrow> disk_io \<Rightarrow> panic + Raft" where
  "newRaft cfg rnd io =
     (if \<not> validate cfg then Inl PanicConfig
      else
        (let s = the (cfgStorage cfg);
             t = NewTracker (cfgID cfg) (buildMajorityConfig (cfgID cfg) (cfgPeers cfg));
             t = fold (\<lambda>pid t. InitProgress t pid 0 1) (cfgPeers cfg) t;
             r = \<lparr>rid = cfgID cfg, cur_term = 0, state = Follower, rlog = newRaftLog s,
                  messages = [], msgsAfterAppend = [], trk = t, peers = cfgPeers cfg, votedFor = 0,
                  readStates = [], read_only = newReadOnly, pendingReadIndexRequests = [], lead = 0,
                  heartbeatTimeout = cfgHeartbeatTick cfg, electionTimeout = cfgElectionTick cfg,
                  electionElapsed = 0, heartbeatElapsed = 0, randomizedElectionTimeout = 0,
                  leadTransferee = 0, tick_fn = tickFunc_Election, step_fn = stepFunc_Follower,
                  entropy = rnd, env_io = io\<rparr>;
             hard = InitialState s;
             r = (if IsEmptyHardState (Some hard) then r
                  else r\<lparr>cur_term := hTerm hard, votedFor := hVotedFor hard,
                         rlog := (rlog r)\<lparr>committed := hCommit hard\<rparr>\<rparr>);
             firstIndex = FirstIndex s
         in if cfgApplied cfg > committed (rlog r) then Inl PanicApplied
            else if cfgApplied cfg > 0 \<and> firstIndex > 0 \<and> cfgApplied cfg < firstIndex - 1
            then Inl PanicApplied
            else
              (let r = (if cfgApplied cfg > 0 then r\<lparr>rlog := (rlog r)\<lparr>applied := cfgApplied cfg\<rparr>\<rparr>
                        else if firstIndex > 0 then r\<lparr>rlog := (rlog r)\<lparr>applied := firstIndex - 1\<rparr>\<rparr>
                        else r)
               in Inr (becomeFollower r (cur_term r) None_id))))"

end
