(* ===== verification/Raft_Steps.thy ===== *)
theory Raft_Steps
  imports Raft_Core
begin

text \<open>
  Reasoning about \<open>Step\<close>. First the operations that only produce output; then the locale
  \<open>step_relation\<close>: a reflexive and transitive relation that every primitive change of the
  node respects holds between the states before and after \<open>Step\<close> and \<open>Tick\<close>. The walk
  through all handlers is done once, inside the locale; its interpretations are the
  relations of interest: term and vote, commit index, configuration, role, timeouts.
\<close>

section \<open>Output only\<close>

text \<open>An operation that only adds to the queues of messages and read states. Requests for
  votes and granted votes are not counted here: they are promises of the sender.\<close>

definition vote_msg :: "Message \<Rightarrow> bool" where
  "vote_msg m \<longleftrightarrow> mType m = MsgVote \<or> mType m = MsgVoteResp \<and> \<not> mReject m"

definition outputs :: "Raft \<Rightarrow> Raft \<Rightarrow> bool" where
  "outputs r r' \<longleftrightarrow> (\<exists>ms as rs.
     r' = r\<lparr>messages := messages r @ ms, msgsAfterAppend := msgsAfterAppend r @ as,
            readStates := readStates r @ rs\<rparr>
     \<and> (\<forall>m \<in> set ms \<union> set as. \<not> vote_msg m))"

lemma outputs_refl [simp, intro]: "outputs r r"
  unfolding outputs_def by (intro exI [of _ "[]"]) simp

lemma outputs_trans [trans]: "outputs r s \<Longrightarrow> outputs s t \<Longrightarrow> outputs r t"
  unfolding outputs_def by (elim exE) (rule exI, rule exI, rule exI, auto)

lemma outputs_sel:
  assumes "outputs r r'"
  shows "rid r' = rid r" "cur_term r' = cur_term r" "state r' = state r" "rlog r' = rlog r"
    "trk r' = trk r" "peers r' = peers r" "votedFor r' = votedFor r" "read_only r' = read_only r"
    "pendingReadIndexRequests r' = pendingReadIndexRequests r" "lead r' = lead r"
    "heartbeatTimeout r' = heartbeatTimeout r" "electionTimeout r' = electionTimeout r"
    "electionElapsed r' = electionElapsed r" "heartbeatElapsed r' = heartbeatElapsed r"
    "randomizedElectionTimeout r' = randomizedElectionTimeout r" "leadTransferee r' = leadTransferee r"
    "tick_fn r' = tick_fn r" "step_fn r' = step_fn r" "entropy r' = entropy r" "env_io r' = env_io r"
  using assms unfolding outputs_def by auto

lemma outputsI:
  "\<forall>m \<in> set ms. \<not> vote_msg m \<Longrightarrow> outputs r (r\<lparr>messages := messages r @ ms\<rparr>)"
  "\<forall>m \<in> set as. \<not> vote_msg m \<Longrightarrow> outputs r (r\<lparr>msgsAfterAppend := msgsAfterAppend r @ as\<rparr>)"
  "outputs r (r\<lparr>readStates := readStates r @ rs\<rparr>)"
  unfolding outputs_def
  by (rule exI [of _ ms], rule exI [of _ "[]"], rule exI [of _ "[]"], simp)
    (rule exI [of _ "[]"], rule exI [of _ as], rule exI [of _ "[]"], simp,
     rule exI [of _ "[]"], rule exI [of _ "[]"], rule exI [of _ rs], simp)

lemma outputs_enqueue: "\<not> vote_msg m \<Longrightarrow> outputs r (enqueue r m)"
  by (simp add: enqueue_def outputsI)

lemma outputs_send: "send r m = Inr r' \<Longrightarrow> \<not> vote_msg m \<Longrightarrow> outputs r r'"
  by (auto simp: send_def Let_def vote_msg_def intro!: outputs_enqueue split: if_splits)

lemma send_cases: "send r m = Inr r' \<Longrightarrow> vote_msg m \<or> outputs r r'"
  using outputs_send by blast

lemma outputs_fold_then:
  assumes "\<And>x s s'. f x s = Inr s' \<Longrightarrow> outputs s s'" "fold_then f xs r = Inr r'"
  shows "outputs r r'"
  using assms(2) by (rule fold_then_invariant [where P = "outputs r"]) (auto intro: outputs_trans assms(1))

lemma outputs_sendAppend: "sendAppend to r = Inr r' \<Longrightarrow> outputs r r'"
  by (auto simp: sendAppend_def Let_def elim!: and_then_InrE
      split: option.split_asm sum.split_asm dest!: outputs_send) (simp_all add: vote_msg_def)

lemma outputs_bcastAppend: "bcastAppend r = Inr r' \<Longrightarrow> outputs r r'"
  unfolding bcastAppend_def
  by (erule outputs_fold_then [rotated]) (auto simp: outputs_sendAppend split: if_splits)

lemma outputs_bcastHeartbeat: "bcastHeartbeat r ctx = Inr r' \<Longrightarrow> outputs r r'"
  unfolding bcastHeartbeat_def
  by (erule outputs_fold_then [rotated]) (auto simp: vote_msg_def split: if_splits dest!: send_cases)

lemma outputs_respondVote:
  "respondVote r to g t u = Inr r' \<Longrightarrow> t = MsgPreVoteResp \<or> t = MsgVoteResp \<and> \<not> g \<Longrightarrow> outputs r r'"
  unfolding respondVote_def by (erule outputs_send) (auto simp: vote_msg_def)

lemma outputs_bcastVote: "bcastVote r MsgPreVote u = Inr r' \<Longrightarrow> outputs r r'"
  unfolding bcastVote_def
  by (auto simp: and_then_Inr_iff vote_msg_def dest!: send_cases elim!: outputs_fold_then [rotated])

lemma outputs_sendTimeoutNow: "sendTimeoutNow r to = Inr r' \<Longrightarrow> outputs r r'"
  unfolding sendTimeoutNow_def by (erule outputs_send) (simp add: vote_msg_def)

lemma outputs_respondReadIndexReq:
  "respondReadIndexReq r m i = Inr r' \<Longrightarrow> outputs r r'"
  by (auto simp: respondReadIndexReq_def outputsI vote_msg_def dest!: send_cases split: if_splits)

text \<open>The messages that are promises: requests for votes and granted votes.\<close>

lemma bcastVote_requests:
  assumes "bcastVote r MsgVote u = Inr r'"
  shows "\<exists>ms. r' = r\<lparr>messages := messages r @ ms\<rparr>
    \<and> (\<forall>m \<in> set ms. mType m = MsgVote \<and> mTerm m = u \<and> mFrom m = rid r)"
proof -
  let ?P = "\<lambda>s. \<exists>ms. s = r\<lparr>messages := messages r @ ms\<rparr>
    \<and> (\<forall>m \<in> set ms. mType m = MsgVote \<and> mTerm m = u \<and> mFrom m = rid r)"
  have step: "?P s'" if "?P s" "send s ((new_Message MsgVote)\<lparr>mTo := pid, mTerm := u, mIndex := i, mLogTerm := t\<rparr>) = Inr s'"
    for s s' pid i t
    using that
    by (clarsimp simp: send_def enqueue_def Let_def split: if_split_asm) (rule exI, rule conjI, rule refl, auto)
  obtain i t where "fold_then (\<lambda>pid r. send r ((new_Message MsgVote)\<lparr>mTo := pid, mTerm := u, mIndex := i,
      mLogTerm := t\<rparr>)) (peers r) r = Inr r'"
    using assms by (auto simp: bcastVote_def elim!: and_then_InrE)
  then show ?thesis
    by (rule fold_then_invariant [where P = ?P]) (rule exI [of _ "[]"], simp, rule step)
qed

lemma respondVote_grant:
  "respondVote r to True MsgVoteResp u = Inr r' \<Longrightarrow>
     r' = r\<lparr>msgsAfterAppend := msgsAfterAppend r @
       [(new_Message MsgVoteResp)\<lparr>mFrom := rid r, mTo := to, mTerm := u\<rparr>]\<rparr>"
  by (auto simp: respondVote_def send_def enqueue_def Let_def new_Message_def split: if_split_asm)

lemmas outputs_ops = outputs_send outputs_sendAppend outputs_bcastAppend outputs_bcastHeartbeat
  outputs_respondVote outputs_bcastVote outputs_sendTimeoutNow outputs_respondReadIndexReq

section \<open>Role changes\<close>

lemma reset_sel [simp]:
  "rid (reset r t) = rid r" "cur_term (reset r t) = t" "state (reset r t) = state r"
  "rlog (reset r t) = rlog r" "messages (reset r t) = messages r"
  "msgsAfterAppend (reset r t) = msgsAfterAppend r" "peers (reset r t) = peers r"
  "votedFor (reset r t) = (if cur_term r = t then votedFor r else None_id)"
  "readStates (reset r t) = readStates r" "lead (reset r t) = None_id"
  "heartbeatTimeout (reset r t) = heartbeatTimeout r" "electionTimeout (reset r t) = electionTimeout r"
  "tick_fn (reset r t) = tick_fn r" "step_fn (reset r t) = step_fn r" "env_io (reset r t) = env_io r"
  "read_only (reset r t) = newReadOnly" "pendingReadIndexRequests (reset r t) = []"
  "leadTransferee (reset r t) = None_id" "electionElapsed (reset r t) = 0" "heartbeatElapsed (reset r t) = 0"
  "randomizedElectionTimeout (reset r t) = electionTimeout r + int (entropy r 0) mod electionTimeout r"
  "votes (trk (reset r t)) = Map.empty" "same_config (trk r) (trk (reset r t))"
  by (auto simp: reset_def Let_def resetRandomizedElectionTimeout_def intN_def abortLeaderTransfer_def
      ResetVotes_def intro: same_config_trans [OF same_config_ResetVotes [unfolded ResetVotes_def] same_config_Visit])

lemma Progress_of_reset [simp]:
  "Progress_of (trk (reset r t)) n =
     map_option (\<lambda>pr. pr\<lparr>MatchIndex := (if n = rid r then lastIndex (rlog r) else 0),
       NextIndex := lastIndex (rlog r) + 1, RecentActive := False\<rparr>) (Progress_of (trk r) n)"
  by (auto simp: reset_def Let_def resetRandomizedElectionTimeout_def intN_def abortLeaderTransfer_def)

lemmas role_defs = becomeFollower_def becomePreCandidate_def becomeCandidate_def leader_role_def Let_def

lemma step_term_cases:
  assumes "step_term r m = Inr r1"
  obtains (same) "outputs r r1" "mTerm m \<le> cur_term r \<or> mType m = MsgPreVote \<or> mType m = MsgPreVoteResp"
  | (newer) "cur_term r < mTerm m" "r1 = becomeFollower r (mTerm m) (mFrom m)"
  using assms
  by (auto simp: step_term_def not_less split: if_split_asm intro: outputs_respondVote)

lemma Step_CheckQuorum_term:
  "Step r (new_Message MsgCheckQuorum) = Inr (r', e) \<Longrightarrow> cur_term r' = cur_term r"
  by (cases "step_fn r")
    (auto simp: Step_def step_term_def step_message_def call_step_def stepLeader_def stepCandidate_def
      stepFollower_def leader_MsgCheckQuorum_def becomeFollower_def Let_def split: if_split_asm)

lemma becomeCandidate_sel [simp]:
  "state (becomeCandidate r) = Candidate" "votedFor (becomeCandidate r) = rid r" "rid (becomeCandidate r) = rid r"
  "cur_term (becomeCandidate r) = cur_term r + 1"
  by (simp_all add: becomeCandidate_def Let_def)

lemma append_message_resp:
  "append_message r m resp = Inr (r', resp') \<Longrightarrow> mType resp' = mType resp"
  by (auto simp: append_message_def elim!: and_then_InrE split: if_split_asm)

lemma appResp_progress_outputs: "appResp_progress r m prs = Inr (r', prs') \<Longrightarrow> outputs r r'"
  by (auto simp: appResp_progress_def Let_def vote_msg_def elim!: and_then_InrE intro!: outputs_send split: if_split_asm)

section \<open>Relations respected by every step\<close>

text \<open>
  Appends and snapshot messages carry the term of the leader that sent them. A candidate
  takes this term over without comparing it with its own.
\<close>

definition from_leader :: "MessageType \<Rightarrow> bool" where
  "from_leader t \<longleftrightarrow> t = MsgApp \<or> t = MsgHeartbeat \<or> t = MsgSnap"

definition not_stale :: "Raft \<Rightarrow> Message \<Rightarrow> bool" where
  "not_stale r m \<longleftrightarrow> cur_term r \<le> mTerm m \<or> \<not> (from_leader (mType m) \<and> step_fn r = stepFunc_Candidate)"

definition term_room :: "Raft \<Rightarrow> Message \<Rightarrow> bool" where
  "term_room r m \<longleftrightarrow> unat (cur_term r) + 1 < 2 ^ 64 \<and> unat (mTerm m) + 1 < 2 ^ 64"

text \<open>The step and tick functions installed are those of the role.\<close>

definition role_ok :: "Raft \<Rightarrow> bool" where
  "role_ok r \<longleftrightarrow>
     step_fn r = (case state r of Leader \<Rightarrow> stepFunc_Leader | Follower \<Rightarrow> stepFunc_Follower
                                | _ \<Rightarrow> stepFunc_Candidate)
     \<and> tick_fn r = (if state r = Leader then tickFunc_Heartbeat else tickFunc_Election)"

text \<open>
  The relation may depend on which messages were received: \<open>D\<close>. Only requests for votes and
  answers to them matter.
\<close>

definition vote_answered :: "MessageType \<Rightarrow> bool" where
  "vote_answered t \<longleftrightarrow> t = MsgVoteResp \<or> t = MsgPreVoteResp"

locale step_relation =
  fixes R :: "Raft \<Rightarrow> Raft \<Rightarrow> bool"
    and D :: "Message \<Rightarrow> bool"
  assumes R_refl: "R r r"
    and R_trans [trans]: "R r s \<Longrightarrow> R s t \<Longrightarrow> R r t"
    and R_outputs: "outputs r s \<Longrightarrow> R r s"
    and R_append: "appendEntries (rlog r) es = Inr (l, j) \<Longrightarrow> R r (r\<lparr>rlog := l\<rparr>)"
    and R_commit: "commitTo (rlog r) i = Inr l \<Longrightarrow> R r (r\<lparr>rlog := l\<rparr>)"
    and R_snap_fail: "ApplySnapshot io (storage (rlog r)) osn = Inr (st, Some e) \<Longrightarrow>
      R r (r\<lparr>rlog := (rlog r)\<lparr>storage := st\<rparr>\<rparr>)"
    and R_snap: "ApplySnapshot io (storage (rlog r)) (Some sn) = Inr (st, None) \<Longrightarrow>
      R r (r\<lparr>rlog := restore ((rlog r)\<lparr>storage := st\<rparr>) (sIndex sn)\<rparr>)"
    and R_trk: "same_config (trk r) tr \<Longrightarrow> votes tr = votes (trk r) \<Longrightarrow> R r (r\<lparr>trk := tr\<rparr>)"
    and R_preVote: "state r = PreCandidate \<Longrightarrow> R r (r\<lparr>trk := RecordVote (trk r) n v\<rparr>)"
    and R_ownVote: "state r = Candidate \<Longrightarrow> votedFor r = rid r \<Longrightarrow>
      R r (r\<lparr>trk := RecordVote (trk r) (rid r) True\<rparr>)"
    and R_vote: "state r = Candidate \<Longrightarrow> mType m = MsgVoteResp \<Longrightarrow> mTerm m = cur_term r \<Longrightarrow> (\<not> mReject m \<Longrightarrow> D m) \<Longrightarrow>
      R r (r\<lparr>trk := RecordVote (trk r) (mFrom m) (\<not> mReject m)\<rparr>)"
    and R_read: "R r (r\<lparr>read_only := ro\<rparr>)" "R r (r\<lparr>pendingReadIndexRequests := ps\<rparr>)"
    and R_soft: "R r (r\<lparr>electionElapsed := k\<rparr>)" "R r (r\<lparr>heartbeatElapsed := k\<rparr>)"
      "R r (r\<lparr>lead := x\<rparr>)" "R r (r\<lparr>leadTransferee := x\<rparr>)"
    and R_follower: "cur_term r \<le> tm \<Longrightarrow> R r (becomeFollower r tm ld)"
    and R_preCandidate: "state r \<noteq> Leader \<Longrightarrow> R r (becomePreCandidate r)"
    and R_candidate: "unat (cur_term r) + 1 < 2 ^ 64 \<Longrightarrow> R r (becomeCandidate r)"
    and R_campaign: "state r = Candidate \<Longrightarrow> votedFor r = rid r \<Longrightarrow>
      bcastVote r MsgVote (cur_term r) = Inr r' \<Longrightarrow> R r r'"
    and R_leader: "state r = Candidate \<Longrightarrow> TallyVotes (trk r) = VoteWon \<Longrightarrow> R r (leader_role r)"
    and R_grant: "canVoteFor r m \<Longrightarrow> mType m = MsgVote \<Longrightarrow> mTerm m \<le> cur_term r \<Longrightarrow> D m \<Longrightarrow>
      respondVote (r\<lparr>votedFor := mFrom m\<rparr>) (mFrom m) True MsgVoteResp (cur_term r) = Inr r' \<Longrightarrow> R r r'"
begin

lemmas R_send = R_outputs [OF outputs_send] and R_sendAppend = R_outputs [OF outputs_sendAppend]

lemma R_appendEntry: "appendEntry r data = Inr r' \<Longrightarrow> R r r'"
  unfolding appendEntry_def Let_def
  by (auto elim!: and_then_InrE simp: vote_msg_def intro!: R_trans [OF R_append R_send])

lemma R_becomeLeader:
  assumes "becomeLeader r = Inr r'" "state r = Candidate" "TallyVotes (trk r) = VoteWon"
  shows "R r r'"
proof -
  let ?r = "leader_role r"
  obtain pr r1 where pr: "Progress_of (trk ?r) (rid ?r) = Some pr"
    and r1: "appendEntry (?r\<lparr>trk := set_Progress (trk ?r) (rid ?r) (pr\<lparr>RecentActive := True\<rparr>)\<rparr>) [] = Inr r1"
      "bcastAppend r1 = Inr r'"
    using assms(1) by (auto simp: becomeLeader_def Let_def elim!: and_then_InrE split: option.split_asm)
  have "R r ?r" using assms(2,3) by (rule R_leader)
  also have "R ?r (?r\<lparr>trk := set_Progress (trk ?r) (rid ?r) (pr\<lparr>RecentActive := True\<rparr>)\<rparr>)"
    by (rule R_trk) (simp_all add: same_config_set_Progress [OF pr])
  also have "R \<dots> r1" using r1(1) by (rule R_appendEntry)
  also have "R r1 r'" using r1(2) by (intro R_outputs outputs_bcastAppend)
  finally show ?thesis .
qed

lemma R_becomeCandidate:
  "unat (cur_term r) + 1 < 2 ^ 64 \<Longrightarrow>
     R r ((becomeCandidate r)\<lparr>trk := RecordVote (trk (becomeCandidate r)) (rid r) True\<rparr>)"
  using R_trans [OF R_candidate R_ownVote] by simp

lemma R_hup_election:
  assumes "hup r t = Inr r'" "t \<noteq> CampaignPreElection" "unat (cur_term r) + 1 < 2 ^ 64"
  shows "R r r'"
proof (cases "state r = Leader")
  case True
  then have "hup r t = Inr r" by (subst hup.simps) simp
  with assms(1) show ?thesis by (simp add: R_refl)
next
  case False
  let ?r1 = "becomeCandidate r"
  let ?r2 = "?r1\<lparr>trk := RecordVote (trk ?r1) (rid ?r1) True\<rparr>"
  have "R r ?r2" using R_becomeCandidate [OF assms(3)] by simp
  moreover have "hup r t = (if TallyVotes (trk ?r2) = VoteWon then becomeLeader ?r2
      else bcastVote ?r2 MsgVote (cur_term ?r1))"
    using False assms(2) by (subst hup.simps) (simp add: Let_def)
  then have "R ?r2 r'"
    using assms(1) R_becomeLeader [of ?r2] R_campaign [of ?r2] by (simp split: if_split_asm)
  ultimately show ?thesis by (rule R_trans)
qed

lemma R_hup:
  assumes "hup r t = Inr r'" "unat (cur_term r) + 1 < 2 ^ 64"
  shows "R r r'"
proof (cases "t \<noteq> CampaignPreElection")
  case True
  with assms R_hup_election show ?thesis by blast
next
  case pre: False
  show ?thesis
  proof (cases "state r = Leader")
    case True
    then have "hup r t = Inr r" by (subst hup.simps) simp
    with assms(1) show ?thesis by (simp add: R_refl)
  next
    case False
  let ?r1 = "becomePreCandidate r"
  let ?r2 = "?r1\<lparr>trk := RecordVote (trk ?r1) (rid ?r1) True\<rparr>"
    have "R r ?r2"
      using False by (intro R_trans [OF R_preCandidate R_preVote]) (simp_all add: becomePreCandidate_def)
    moreover have "hup r t = (if TallyVotes (trk ?r2) = VoteWon then hup ?r2 CampaignElection
        else bcastVote ?r2 MsgPreVote (cur_term ?r1 + 1))"
      using False pre by (subst hup.simps) (simp add: Let_def)
    then have "hup ?r2 CampaignElection = Inr r' \<or> bcastVote ?r2 MsgPreVote (cur_term ?r1 + 1) = Inr r'"
      using assms(1) by (simp split: if_split_asm)
    moreover have "unat (cur_term ?r2) + 1 < 2 ^ 64" using assms(2) by (simp add: becomePreCandidate_def)
    ultimately show ?thesis
      using R_hup_election [of ?r2 CampaignElection r'] R_outputs [OF outputs_bcastVote] R_trans by blast
  qed
qed

lemma R_append_message: "append_message r m resp = Inr (r', resp') \<Longrightarrow> R r r'"
  by (auto simp: append_message_def elim!: and_then_InrE intro: R_append R_refl split: if_split_asm)

lemma R_commit_message: "commit_message r m = Inr r' \<Longrightarrow> R r r'"
  by (auto simp: commit_message_def elim!: and_then_InrE intro: R_commit R_refl split: if_split_asm)

lemma R_handleAppendEntries: "handleAppendEntries r m = Inr r' \<Longrightarrow> R r r'"
  unfolding handleAppendEntries_def Let_def
  by (elim and_then_InrE)
    (auto elim!: and_then_InrE split: if_split_asm simp: vote_msg_def append_message_resp
      dest!: send_cases intro: R_outputs R_trans [OF R_append_message R_trans [OF R_commit_message R_outputs]])

lemma R_handleHeartbeat: "handleHeartbeat r m = Inr r' \<Longrightarrow> R r r'"
  by (auto simp: handleHeartbeat_def vote_msg_def elim!: and_then_InrE intro!: R_trans [OF R_commit R_send])

lemma R_handleSnapshot:
  assumes "handleSnapshot r m = Inr r'"
  shows "R r r'"
proof -
  obtain st err where ap: "ApplySnapshot (env_io r) (storage (rlog r)) (mSnapshot m) = Inr (st, err)"
    using assms by (auto simp: handleSnapshot_def elim!: and_then_InrE)
  obtain sn where sn: "mSnapshot m = Some sn"
    using ap by (cases "mSnapshot m") (auto simp: ApplySnapshot_def)
  show ?thesis
  proof (cases err)
    case None
    with ap sn assms show ?thesis
      using R_snap [of "env_io r" r sn st] by (simp add: handleSnapshot_def Let_def)
  next
    case (Some e)
    with ap assms show ?thesis
      using R_snap_fail [of "env_io r" r "mSnapshot m" st e] by (simp add: handleSnapshot_def Let_def)
  qed
qed

lemma R_drain:
  assumes "drainPendingReadIndexRequests r = Inr r'"
  shows "R r r'"
proof (cases "pendingReadIndexRequests r = []")
  case True
  with assms show ?thesis by (simp add: drainPendingReadIndexRequests_def R_refl)
next
  case False
  with assms have "outputs (r\<lparr>pendingReadIndexRequests := []\<rparr>) r'"
    unfolding drainPendingReadIndexRequests_def
    by (auto elim!: outputs_fold_then [rotated] intro: outputs_respondReadIndexReq)
  with R_read(2) show ?thesis using R_outputs R_trans by blast
qed

lemma R_maybeCommit: "maybeCommit r i = Inr (r', b) \<Longrightarrow> R r r'"
  by (auto simp: maybeCommit_def elim!: and_then_InrE intro: R_refl R_commit split: if_split_asm)

lemma R_progress:
  "Progress_of (trk r) n = Some pr \<Longrightarrow> R r (r\<lparr>trk := set_Progress (trk r) n pr'\<rparr>)"
  by (rule R_trk) (simp_all add: same_config_set_Progress)

lemma R_responses:
  "fold_then (\<lambda>rs r. respondReadIndexReq r (req rs) (rindex rs)) rss r = Inr r' \<Longrightarrow> R r r'"
  by (intro R_outputs) (erule outputs_fold_then [rotated], rule outputs_respondReadIndexReq)

lemma R_appResp_finish: "appResp_finish r m prs = Inr (r', e) \<Longrightarrow> R r r'"
  unfolding appResp_finish_def
  by (auto elim!: and_then_InrE split: if_split_asm
      intro: R_trans [OF R_outputs [OF outputs_sendTimeoutNow] R_trans [OF R_maybeCommit R_drain]]
        R_trans [OF R_outputs [OF outputs_sendTimeoutNow] R_maybeCommit]
        R_trans [OF R_maybeCommit R_drain] R_maybeCommit)

lemma R_leader_MsgAppResp:
  assumes "leader_MsgAppResp r m = Inr (r', e)"
  shows "R r r'"
proof (cases "Progress_of (trk r) (mFrom m)")
  case None
  with assms show ?thesis by (simp add: leader_MsgAppResp_def R_refl)
next
  case (Some prs)
  with assms obtain r1 prs1 prs0 where p: "appResp_progress r m prs0 = Inr (r1, prs1)"
    and f: "appResp_finish (r1\<lparr>trk := set_Progress (trk r1) (mFrom m) prs1\<rparr>) m prs1 = Inr (r', e)"
    by (auto simp: leader_MsgAppResp_def elim!: and_then_InrE)
  have o: "outputs r r1" using p by (rule appResp_progress_outputs)
  with Some have "Progress_of (trk r1) (mFrom m) = Some prs" by (simp add: outputs_sel)
  from R_outputs [OF o] R_progress [OF this] R_appResp_finish [OF f] show ?thesis
    using R_trans by blast
qed

lemma R_leader_MsgProp: "leader_MsgProp r m = Inr (r', e) \<Longrightarrow> R r r'"
  by (auto simp: leader_MsgProp_def elim!: and_then_InrE split: if_split_asm
      intro: R_refl R_trans [OF R_appendEntry R_outputs [OF outputs_bcastAppend]])

lemma R_heartbeatResp_read:
  assumes "heartbeatResp_read r m = Inr (r', e)"
  shows "R r r'"
proof (cases "mContext m = []")
  case True
  with assms show ?thesis by (simp add: heartbeatResp_read_def R_refl)
next
  case False
  obtain ro acked where ro: "recvAck (read_only r) (mFrom m) (mContext m) = (ro, acked)" by fastforce
  have "R r (r\<lparr>read_only := ro\<rparr>)" by (rule R_read)
  moreover have "R (r\<lparr>read_only := ro\<rparr>) r'"
    using assms False ro R_read(1) [of "r\<lparr>read_only := ro\<rparr>"]
    by (auto simp: heartbeatResp_read_def Let_def elim!: and_then_InrE split: if_split_asm
        intro: R_refl R_trans [OF _ R_responses])
  ultimately show ?thesis by (rule R_trans)
qed

lemma R_leader_MsgHeartbeatResp:
  assumes "leader_MsgHeartbeatResp r m = Inr (r', e)"
  shows "R r r'"
proof (cases "Progress_of (trk r) (mFrom m)")
  case None
  with assms show ?thesis by (simp add: leader_MsgHeartbeatResp_def R_refl)
next
  case (Some prs)
  let ?r = "\<lambda>prs. r\<lparr>trk := set_Progress (trk r) (mFrom m) prs\<rparr>"
  from Some assms obtain prs1 r1 where r1: "r1 = ?r prs1 \<or> sendAppend (mFrom m) (?r prs1) = Inr r1"
    and rd: "heartbeatResp_read r1 m = Inr (r', e)"
    by (auto simp: leader_MsgHeartbeatResp_def Let_def elim!: and_then_InrE split: if_split_asm)
  have "R r (?r prs1)" using Some by (rule R_progress)
  moreover have "R (?r prs1) r1" using r1 R_refl R_sendAppend by blast
  ultimately show ?thesis using R_heartbeatResp_read [OF rd] R_trans by blast
qed

lemma R_leader_MsgReadIndex: "leader_MsgReadIndex r m = Inr (r', e) \<Longrightarrow> R r r'"
  by (auto simp: leader_MsgReadIndex_def Let_def elim!: and_then_InrE split: if_split_asm
      intro: R_read R_outputs [OF outputs_respondReadIndexReq]
        R_trans [OF R_read(1) R_outputs [OF outputs_bcastHeartbeat]])

lemma R_leader_MsgCheckQuorum: "leader_MsgCheckQuorum r = Inr (r', e) \<Longrightarrow> R r r'"
  by (auto simp: leader_MsgCheckQuorum_def intro: R_follower R_trk split: if_split_asm)

lemma R_leader_MsgTransferLeader:
  assumes "leader_MsgTransferLeader r m = Inr (r', e)"
  shows "R r r'"
proof -
  let ?r1 = "if leadTransferee r \<noteq> None_id then abortLeaderTransfer r else r"
  let ?r2 = "?r1\<lparr>electionElapsed := 0, leadTransferee := mFrom m\<rparr>"
  have 1: "R r ?r1" by (simp add: abortLeaderTransfer_def R_soft R_refl)
  have 2: "R r ?r2"
    using R_trans [OF 1 R_trans [OF R_soft(1) R_soft(4)]] by simp
  show ?thesis
  proof (cases "leadTransferee r \<noteq> None_id \<and> leadTransferee r = mFrom m \<or> mFrom m = rid ?r1")
    case True
    with assms 1 R_refl show ?thesis
      by (auto simp: leader_MsgTransferLeader_def Let_def split: if_split_asm)
  next
    case False
    then have "leader_MsgTransferLeader r m = (case Progress_of (trk ?r2) (mFrom m) of
        None \<Rightarrow> Inl PanicNilProgress
      | Some prs \<Rightarrow> and_then (if MatchIndex prs = lastIndex (rlog ?r2) then sendTimeoutNow ?r2 (mFrom m)
          else sendAppend (mFrom m) ?r2) step_ok)"
      unfolding leader_MsgTransferLeader_def Let_def by (simp cong: if_cong) (metis)
    with assms have "R ?r2 r'"
      by (auto elim!: and_then_InrE split: option.split_asm if_split_asm
          intro: R_sendAppend R_outputs [OF outputs_sendTimeoutNow])
    with 2 show ?thesis by (rule R_trans)
  qed
qed

lemma R_stepLeader: "stepLeader r m = Inr (r', e) \<Longrightarrow> R r r'"
  unfolding stepLeader_def
  by (cases "mType m")
    (auto elim!: and_then_InrE intro: R_refl R_leader_MsgAppResp R_leader_MsgProp
      R_leader_MsgHeartbeatResp R_leader_MsgReadIndex R_leader_MsgCheckQuorum
      R_leader_MsgTransferLeader R_outputs [OF outputs_bcastHeartbeat])

text \<open>Where answers to requests for votes are counted.\<close>

definition counts_votes :: "Raft \<Rightarrow> Message \<Rightarrow> bool" where
  "counts_votes r m \<longleftrightarrow> (vote_answered (mType m) \<longrightarrow> role_ok r)
     \<and> (mType m = MsgVote \<or> mType m = MsgVoteResp \<longrightarrow> mTerm m \<le> cur_term r) \<and> (vote_msg m \<longrightarrow> D m)"

lemma R_candidate_voteResp:
  assumes "candidate_voteResp r m = Inr (r', e)" "unat (cur_term r) + 1 < 2 ^ 64"
    and "state r = PreCandidate \<or> state r = Candidate \<and> mType m = MsgVoteResp \<and> mTerm m \<le> cur_term r \<and> (vote_msg m \<longrightarrow> D m)"
  shows "R r r'"
proof (cases "mTerm m < cur_term r")
  case True
  with assms show ?thesis by (simp add: candidate_voteResp_def R_refl)
next
  case False
  let ?r1 = "r\<lparr>trk := RecordVote (trk r) (mFrom m) (\<not> mReject m)\<rparr>"
  let ?r2 = "(becomeCandidate ?r1)\<lparr>trk := RecordVote (trk (becomeCandidate ?r1)) (rid ?r1) True\<rparr>"
  have "R r ?r1" using assms(3) False R_preVote R_vote [of r m] by (auto simp: vote_msg_def)
  also have "R ?r1 r'"
  proof (cases "TallyVotes (trk ?r1) = VoteWon")
    case True
    have "R ?r1 ?r2" using assms(2) by (intro R_becomeCandidate) simp
    then have "R ?r1 s" if "bcastVote ?r2 MsgVote (cur_term ?r2) = Inr s" for s
      using R_trans R_campaign [of ?r2 s] that by simp
    then show ?thesis
      using assms(1,3) False True R_becomeLeader [of ?r1]
      by (auto simp: candidate_voteResp_def Let_def elim!: and_then_InrE split: if_split_asm)
  next
    case False
    with assms(1) \<open>\<not> mTerm m < cur_term r\<close> show ?thesis
      by (auto simp: candidate_voteResp_def Let_def split: VoteResult.split_asm intro: R_refl R_follower)
  qed
  finally show ?thesis .
qed

lemma R_stepCandidate:
  assumes "stepCandidate r m = Inr (r', e)" "unat (cur_term r) + 1 < 2 ^ 64" "counts_votes r m"
    and "cur_term r \<le> mTerm m \<or> \<not> from_leader (mType m)" "step_fn r = stepFunc_Candidate"
  shows "R r r'"
proof -
  have "from_leader (mType m) \<Longrightarrow> R r (becomeFollower r (mTerm m) (mFrom m))"
    using assms(4) by (intro R_follower) simp
  moreover have "R r r'"
    if "candidate_voteResp r m = Inr (r', e)" "mType m = (if state r = Candidate then MsgVoteResp else MsgPreVoteResp)"
    using that(1) assms(2)
    by (rule R_candidate_voteResp)
      (use that(2) assms(3,5) in \<open>auto simp: counts_votes_def vote_answered_def role_ok_def split: if_split_asm State.split_asm\<close>)
  ultimately show ?thesis
    using assms(1)
    by (auto simp: stepCandidate_def Let_def from_leader_def elim!: and_then_InrE split: if_split_asm
        intro: R_refl R_trans [OF _ R_handleAppendEntries]
          R_trans [OF _ R_handleHeartbeat] R_trans [OF _ R_handleSnapshot])
qed

lemma R_stepFollower:
  assumes "stepFollower r m = Inr (r', e)" "unat (cur_term r) + 1 < 2 ^ 64"
  shows "R r r'"
proof -
  have "R r (r\<lparr>electionElapsed := 0, lead := mFrom m\<rparr>)"
    by (rule R_trans [OF R_soft(1) R_soft(3)])
  with assms show ?thesis
    by (cases "mType m")
      (auto simp: stepFollower_def vote_msg_def elim!: and_then_InrE split: if_split_asm
        intro: R_refl R_send R_hup R_outputs [OF outputsI(3)] R_trans [OF _ R_handleAppendEntries]
          R_trans [OF _ R_handleHeartbeat] R_trans [OF _ R_handleSnapshot])
qed

lemma R_call_step:
  assumes "call_step r m = Inr (r', e)" "unat (cur_term r) + 1 < 2 ^ 64" "counts_votes r m"
    and "cur_term r \<le> mTerm m \<or> \<not> (from_leader (mType m) \<and> step_fn r = stepFunc_Candidate)"
  shows "R r r'"
  using assms
  by (cases "step_fn r")
    (auto simp: call_step_def intro: R_stepLeader R_stepCandidate R_stepFollower)

lemma R_step_message:
  assumes st: "step_message r m = Inr (r', e)" and room: "unat (cur_term r) + 1 < 2 ^ 64"
    and stale: "cur_term r \<le> mTerm m \<or> \<not> (from_leader (mType m) \<and> step_fn r = stepFunc_Candidate)"
    and votes: "counts_votes r m"
  shows "R r r'"
proof (cases "mType m")
  case MsgVote
  with st obtain g where g: "vote_granted r m = Inr g"
    "respondVote (if g then r\<lparr>votedFor := mFrom m\<rparr> else r) (mFrom m) g MsgVoteResp
       (cur_term (if g then r\<lparr>votedFor := mFrom m\<rparr> else r)) = Inr r'"
    by (auto simp: step_message_def Let_def elim!: and_then_InrE)
  show ?thesis
  proof (cases g)
    case True
    then have "canVoteFor r m" using g(1) by (simp add: vote_granted_def split: if_split_asm)
    then show ?thesis
      using R_grant [of r m r'] g(2) True votes MsgVote by (simp add: counts_votes_def vote_msg_def)
  next
    case False
    with g(2) show ?thesis using R_outputs [OF outputs_respondVote] by simp
  qed
qed (use st room stale votes R_call_step R_hup R_outputs [OF outputs_respondVote] in
    \<open>auto simp: step_message_def elim!: and_then_InrE\<close>)

lemma R_step_term:
  assumes "step_term r m = Inr r1"
  shows "R r r1"
  using assms
  by (auto simp: step_term_def split: if_split_asm intro: R_refl R_follower R_outputs [OF outputs_respondVote])

text \<open>The main lemma of the locale.\<close>

definition well_received :: "Raft \<Rightarrow> Message \<Rightarrow> bool" where
  "well_received r m \<longleftrightarrow> (vote_answered (mType m) \<longrightarrow> role_ok r)
     \<and> (vote_msg m \<longrightarrow> D m)"

lemma R_Step:
  assumes "Step r m = Inr (r', e)" "not_stale r m" "term_room r m" "well_received r m"
  shows "R r r'"
proof -
  obtain r1 where r1: "step_term r m = Inr r1" and r': "step_message r1 m = Inr (r', e)"
    using assms(1) by (auto simp: Step_def elim!: and_then_InrE)
  have "unat (cur_term r1) + 1 < 2 ^ 64
      \<and> (cur_term r1 \<le> mTerm m \<or> \<not> (from_leader (mType m) \<and> step_fn r1 = stepFunc_Candidate))
      \<and> counts_votes r1 m"
    using r1
  proof (cases rule: step_term_cases)
    case same
    with assms(2-4) show ?thesis
      by (auto simp: outputs_sel not_stale_def term_room_def counts_votes_def well_received_def role_ok_def)
  next
    case newer
    with assms(3,4) show ?thesis
      by (simp add: becomeFollower_def Let_def term_room_def counts_votes_def well_received_def role_ok_def)
  qed
  with R_step_message [OF r'] R_step_term [OF r1] show ?thesis using R_trans by blast
qed

lemma R_tickElection:
  assumes "tickElection r = Inr r'" "unat (cur_term r) + 1 < 2 ^ 64"
  shows "R r r'"
proof -
  let ?r1 = "r\<lparr>electionElapsed := electionElapsed r + 1\<rparr>"
  let ?m = "(new_Message MsgHup)\<lparr>mFrom := rid r\<rparr>"
  have "R r (?r1\<lparr>electionElapsed := 0\<rparr>)" using R_soft(1) [of r 0] by simp
  moreover have "R (?r1\<lparr>electionElapsed := 0\<rparr>) r2" if "Step (?r1\<lparr>electionElapsed := 0\<rparr>) ?m = Inr (r2, e)" for r2 e
    using that by (rule R_Step) (use assms(2) in \<open>simp_all add: not_stale_def from_leader_def term_room_def
      well_received_def vote_answered_def vote_msg_def\<close>)
  ultimately show ?thesis
    using assms(1) R_soft(1) [of r]
    by (auto simp: tickElection_def Let_def elim!: and_then_InrE split: if_split_asm intro: R_trans)
qed

lemma R_tickHeartbeat:
  assumes "tickHeartbeat r = Inr r'" "unat (cur_term r) + 1 < 2 ^ 64"
  shows "R r r'"
proof -
  let ?r1 = "r\<lparr>heartbeatElapsed := heartbeatElapsed r + 1, electionElapsed := electionElapsed r + 1\<rparr>"
  have local_step: "R s s'" if "Step s m = Inr (s', e)" "mTerm m = 0" "mType m = MsgCheckQuorum \<or> mType m = MsgBeat"
    "unat (cur_term s) + 1 < 2 ^ 64" for s s' m e
    using that(1) by (rule R_Step)
      (use that(2-4) in \<open>auto simp: not_stale_def term_room_def from_leader_def well_received_def vote_answered_def vote_msg_def\<close>)
  have 1: "R r ?r1" by (rule R_trans [OF R_soft(2) R_soft(1)])
  obtain r2 where r2: "(if electionElapsed ?r1 \<ge> electionTimeout ?r1 then
        and_then (Step (?r1\<lparr>electionElapsed := 0\<rparr>) (new_Message MsgCheckQuorum))
          (\<lambda>(r, _). Inr (if state r = Leader \<and> leadTransferee r \<noteq> None_id then abortLeaderTransfer r else r))
      else Inr ?r1) = Inr r2"
    and r': "(if heartbeatElapsed r2 \<ge> heartbeatTimeout r2 then
        and_then (Step (r2\<lparr>heartbeatElapsed := 0\<rparr>) ((new_Message MsgBeat)\<lparr>mFrom := rid r2\<rparr>)) (\<lambda>(r, _). Inr r)
      else Inr r2) = Inr r'"
    using assms(1) unfolding tickHeartbeat_def Let_def by (elim and_then_InrE)
  have 2: "R ?r1 r2 \<and> cur_term r2 = cur_term r"
  proof (cases "electionElapsed ?r1 \<ge> electionTimeout ?r1")
    case True
    with r2 obtain s e where s: "Step (?r1\<lparr>electionElapsed := 0\<rparr>) (new_Message MsgCheckQuorum) = Inr (s, e)"
      "r2 = (if state s = Leader \<and> leadTransferee s \<noteq> None_id then abortLeaderTransfer s else s)"
      by (auto elim!: and_then_InrE)
    have "R (?r1\<lparr>electionElapsed := 0\<rparr>) s"
      using s(1) by (rule local_step) (use assms(2) in simp_all)
    then have "R ?r1 s" using R_trans [OF R_soft(1)] by blast
    moreover have "R s r2" using s(2) by (simp add: abortLeaderTransfer_def R_soft R_refl)
    moreover have "cur_term r2 = cur_term r"
      using Step_CheckQuorum_term [OF s(1)] s(2) by (simp add: abortLeaderTransfer_def)
    ultimately show ?thesis using R_trans by blast
  qed (use r2 R_refl in auto)
  have "R r2 r'"
  proof (cases "heartbeatElapsed r2 \<ge> heartbeatTimeout r2")
    case True
    with r' obtain e where s: "Step (r2\<lparr>heartbeatElapsed := 0\<rparr>) ((new_Message MsgBeat)\<lparr>mFrom := rid r2\<rparr>) = Inr (r', e)"
      by (auto elim!: and_then_InrE)
    have "R (r2\<lparr>heartbeatElapsed := 0\<rparr>) r'"
      using s by (rule local_step) (use assms(2) 2 in simp_all)
    then show ?thesis using R_trans [OF R_soft(2)] by blast
  qed (use r' R_refl in auto)
  with 1 2 show ?thesis using R_trans by blast
qed

lemma R_Tick: "Tick r = Inr r' \<Longrightarrow> unat (cur_term r) + 1 < 2 ^ 64 \<Longrightarrow> R r r'"
  by (cases "tick_fn r") (auto simp: Tick_def intro: R_tickElection R_tickHeartbeat)

end

section \<open>The relations\<close>

lemma outputsD:
  "outputs r s \<Longrightarrow> rid s = rid r \<and> cur_term s = cur_term r \<and> state s = state r \<and> rlog s = rlog r
     \<and> trk s = trk r \<and> peers s = peers r \<and> votedFor s = votedFor r
     \<and> heartbeatTimeout s = heartbeatTimeout r \<and> electionTimeout s = electionTimeout r
     \<and> randomizedElectionTimeout s = randomizedElectionTimeout r
     \<and> tick_fn s = tick_fn r \<and> step_fn s = step_fn r"
  by (auto simp: outputs_def)

interpretation role: step_relation "\<lambda>r r'. role_ok r \<longrightarrow> role_ok r'" "\<lambda>_. True"
  by unfold_locales (auto simp: role_ok_def role_defs dest!: outputsD bcastVote_requests respondVote_grant)

section \<open>Runs of a node\<close>

text \<open>
  The states a node goes through while messages are delivered to it and its clock ticks.
  Excluded are the messages of a former leader delivered to a candidate, and terms at the
  end of their range.
\<close>

inductive raft_run :: "Raft \<Rightarrow> Raft \<Rightarrow> bool" where
  run_start: "role_ok r \<Longrightarrow> raft_run r r"
| run_step: "raft_run r s \<Longrightarrow> Step s m = Inr (t, e) \<Longrightarrow> not_stale s m \<Longrightarrow> term_room s m \<Longrightarrow> raft_run r t"
| run_tick: "raft_run r s \<Longrightarrow> Tick s = Inr t \<Longrightarrow> unat (cur_term s) + 1 < 2 ^ 64 \<Longrightarrow> raft_run r t"

lemma raft_run_role: "raft_run r r' \<Longrightarrow> role_ok r'"
  by (induction rule: raft_run.induct)
    (auto dest: role.R_Step role.R_Tick simp: role.well_received_def)

locale run_relation = step_relation R "\<lambda>_. True" for R
begin

lemma R_run: "raft_run r r' \<Longrightarrow> R r r'"
proof (induction rule: raft_run.induct)
  case (run_start r)
  show ?case by (rule R_refl)
next
  case (run_step r s m t e)
  then have "well_received s m" using raft_run_role by (simp add: well_received_def)
  with run_step R_Step [OF run_step.hyps(2-4)] show ?case using R_trans by blast
next
  case (run_tick r s t)
  from run_tick.IH R_Tick [OF run_tick.hyps(2,3)] show ?case by (rule R_trans)
qed

end

text \<open>Terms never go back, and within a term a vote once given stays.\<close>

definition term_vote_le :: "Raft \<Rightarrow> Raft \<Rightarrow> bool" where
  "term_vote_le r r' \<longleftrightarrow> cur_term r \<le> cur_term r'
     \<and> (cur_term r' = cur_term r \<and> votedFor r \<noteq> None_id \<longrightarrow> votedFor r' = votedFor r)"

lemma unat_Suc_le: "unat (t :: u64) + 1 < 2 ^ 64 \<Longrightarrow> t < t + 1"
  by (simp add: unat_succ word_less_unat)

interpretation term_vote: run_relation term_vote_le
proof
  fix r :: Raft assume "unat (cur_term r) + 1 < 2 ^ 64"
  from unat_Suc_le [OF this] show "term_vote_le r (becomeCandidate r)"
    by (auto simp: term_vote_le_def role_defs)
qed (auto simp: term_vote_le_def role_defs canVoteFor_def dest!: outputsD bcastVote_requests respondVote_grant split: if_split_asm)

text \<open>The commit index and the applied index never go back.\<close>

definition progress_le :: "Raft \<Rightarrow> Raft \<Rightarrow> bool" where
  "progress_le r r' \<longleftrightarrow> committed (rlog r) \<le> committed (rlog r') \<and> applied (rlog r) \<le> applied (rlog r')"

lemma appendEntries_indices:
  "appendEntries l es = Inr (l', i) \<Longrightarrow> committed l' = committed l \<and> applied l' = applied l \<and> storage l' = storage l"
  by (auto simp: appendEntries_def Let_def elim!: and_then_InrE split: if_split_asm)

lemma commitTo_indices:
  "commitTo l i = Inr l' \<Longrightarrow> committed l \<le> committed l' \<and> applied l' = applied l \<and> storage l' = storage l"
  by (auto simp: commitTo_def split: if_split_asm)

interpretation log_progress: run_relation progress_le
  by unfold_locales
    (auto simp: progress_le_def role_defs restore_def
      dest!: outputsD bcastVote_requests respondVote_grant appendEntries_indices commitTo_indices)

text \<open>The identity of a node, its peers and its timeouts never change.\<close>

definition same_node :: "Raft \<Rightarrow> Raft \<Rightarrow> bool" where
  "same_node r r' \<longleftrightarrow> rid r' = rid r \<and> peers r' = peers r \<and> same_config (trk r) (trk r')
     \<and> electionTimeout r' = electionTimeout r \<and> heartbeatTimeout r' = heartbeatTimeout r"

lemma reset_config: "trk r = tr \<Longrightarrow> same_config tr (trk (reset r t))"
  by (auto simp: reset_sel)

interpretation node_config: run_relation same_node
  by unfold_locales
    (auto simp: same_node_def role_defs dest!: outputsD bcastVote_requests respondVote_grant intro: same_config_trans reset_config)

text \<open>The randomized timeout lies in \<open>[electionTimeout, 2 * electionTimeout)\<close>.\<close>

definition timeout_ok :: "Raft \<Rightarrow> bool" where
  "timeout_ok r \<longleftrightarrow> 0 < electionTimeout r \<and> electionTimeout r \<le> randomizedElectionTimeout r
     \<and> randomizedElectionTimeout r < 2 * electionTimeout r"

interpretation timeout: run_relation "\<lambda>r r'. timeout_ok r \<longrightarrow> timeout_ok r'"
  by unfold_locales (auto simp: timeout_ok_def role_defs dest!: outputsD bcastVote_requests respondVote_grant)

end
