(* ===== verification/Raft_Safety.thy ===== *)
theory Raft_Safety
  imports Raft_Steps
begin

text \<open>
  What a node does over a run of deliveries and ticks: terms, votes, commit index, role and
  timeouts from its creation by \<open>newRaft\<close> on; how it votes, when it becomes leader and
  when it commits.
\<close>

section \<open>A new node\<close>

lemma becomeFollower_sel [simp]:
  "rid (becomeFollower r t ld) = rid r" "cur_term (becomeFollower r t ld) = t"
  "state (becomeFollower r t ld) = Follower" "rlog (becomeFollower r t ld) = rlog r"
  "messages (becomeFollower r t ld) = messages r" "msgsAfterAppend (becomeFollower r t ld) = msgsAfterAppend r"
  "votedFor (becomeFollower r t ld) = (if cur_term r = t then votedFor r else None_id)"
  "readStates (becomeFollower r t ld) = readStates r" "lead (becomeFollower r t ld) = ld"
  "step_fn (becomeFollower r t ld) = stepFunc_Follower" "tick_fn (becomeFollower r t ld) = tickFunc_Election"
  "env_io (becomeFollower r t ld) = env_io r" "peers (becomeFollower r t ld) = peers r"
  "electionTimeout (becomeFollower r t ld) = electionTimeout r"
  "heartbeatTimeout (becomeFollower r t ld) = heartbeatTimeout r"
  "votes (trk (becomeFollower r t ld)) = Map.empty"
  "read_only (becomeFollower r t ld) = newReadOnly"
  by (simp_all add: becomeFollower_def Let_def)

lemma becomeFollower_timeout: "0 < electionTimeout r \<Longrightarrow> timeout_ok (becomeFollower r t ld)"
  by (simp add: timeout_ok_def becomeFollower_def Let_def)

lemma becomeFollower_role: "role_ok (becomeFollower r t ld)"
  by (simp add: role_ok_def)

lemma becomeFollower_config: "same_config (trk r) (trk (becomeFollower r t ld))"
  by (simp add: becomeFollower_def Let_def reset_config)

definition initial_tracker :: "Config \<Rightarrow> ProgressTracker" where
  "initial_tracker cfg = fold (\<lambda>pid t. InitProgress t pid 0 1) (cfgPeers cfg)
     (NewTracker (cfgID cfg) (buildMajorityConfig (cfgID cfg) (cfgPeers cfg)))"

text \<open>What \<open>newRaft\<close> builds: a follower in the persisted term, with the persisted vote and
  commit index.\<close>

lemma newRaft_cases:
  assumes "newRaft cfg rnd io = Inr r"
  obtains s where "cfgStorage cfg = Some s" "validate cfg"
    "rid r = cfgID cfg" "peers r = cfgPeers cfg" "state r = Follower" "cur_term r = hTerm (InitialState s)"
    "votedFor r = hVotedFor (InitialState s)" "same_config (initial_tracker cfg) (trk r)"
    "messages r = []" "msgsAfterAppend r = []" "readStates r = []" "lead r = None_id"
    "rlog r = (newRaftLog s)\<lparr>
       committed := (if IsEmptyHardState (Some (InitialState s)) then committed (newRaftLog s) else hCommit (InitialState s)),
       applied := (if cfgApplied cfg > 0 then cfgApplied cfg else if FirstIndex s > 0 then FirstIndex s - 1
                   else applied (newRaftLog s))\<rparr>"
    "cfgApplied cfg \<le> committed (rlog r)"
    "cfgApplied cfg = 0 \<or> FirstIndex s = 0 \<or> FirstIndex s - 1 \<le> cfgApplied cfg" "role_ok r" "timeout_ok r"
    "electionTimeout r = cfgElectionTick cfg" "env_io r = io"
proof -
  from assms have v: "validate cfg" by (simp add: newRaft_def split: if_split_asm)
  then obtain s where s: "cfgStorage cfg = Some s" by (auto simp: validate_def)
  obtain r0 where r0: "r = becomeFollower r0 (cur_term r0) None_id"
    "rid r0 = cfgID cfg" "peers r0 = cfgPeers cfg" "cur_term r0 = hTerm (InitialState s)"
    "votedFor r0 = hVotedFor (InitialState s)" "trk r0 = initial_tracker cfg"
    "messages r0 = []" "msgsAfterAppend r0 = []" "readStates r0 = []"
    "electionTimeout r0 = cfgElectionTick cfg" "env_io r0 = io"
    "rlog r0 = (newRaftLog s)\<lparr>
       committed := (if IsEmptyHardState (Some (InitialState s)) then committed (newRaftLog s) else hCommit (InitialState s)),
       applied := (if cfgApplied cfg > 0 then cfgApplied cfg else if FirstIndex s > 0 then FirstIndex s - 1
                   else applied (newRaftLog s))\<rparr>"
    "cfgApplied cfg \<le> committed (rlog r0)"
    "cfgApplied cfg = 0 \<or> FirstIndex s = 0 \<or> FirstIndex s - 1 \<le> cfgApplied cfg"
    using assms v s
    by (simp add: newRaft_def Let_def initial_tracker_def IsEmptyHardState_def not_less word_gt_0 split: if_split_asm)
      (erule meta_allE, erule meta_impE, erule sym, simp)+
  show ?thesis
    by (rule that [OF s v]) (use r0 v in \<open>simp_all add: becomeFollower_role becomeFollower_timeout validate_def
      becomeFollower_config flip: r0(6)\<close>)
qed


text \<open>The log of a new node is well formed when the storage is and the commit index persisted
  with it lies within the log.\<close>

definition storage_commit_ok :: "DurableStorage \<Rightarrow> bool" where
  "storage_commit_ok s \<longleftrightarrow> storage_ok s \<and> (sIndex (snap s) = 0 \<longrightarrow> sTerm (snap s) = 0)
     \<and> (IsEmptyHardState (Some (hs s)) \<or> sIndex (snap s) \<le> hCommit (hs s) \<and> hCommit (hs s) \<le> LastIndex s)"

lemma newRaft_log_ok:
  assumes "newRaft cfg rnd io = Inr r" "cfgStorage cfg = Some s" "storage_commit_ok s"
  shows "log_ok (rlog r)" "log_contents (rlog r) = entries s"
proof -
  note c = assms(3) [unfolded storage_commit_ok_def]
  have n: "log_ok (newRaftLog s)" "log_contents (newRaftLog s) = entries s"
    using newRaftLog_ok [of s] c by auto
  have b: "committed (newRaftLog s) = sIndex (snap s)" "applied (newRaftLog s) = sIndex (snap s)"
    "FirstIndex s > 0 \<longrightarrow> FirstIndex s - 1 = sIndex (snap s)"
    using c storage_boundary [of s] by (auto simp: newRaftLog_def Let_def split: if_split_asm)
  show "log_contents (rlog r) = entries s"
    using assms(1)
  proof (cases rule: newRaft_cases)
    case (1 s')
    then show ?thesis using n(2) assms(2) by (simp add: log_contents_def)
  qed
  show "log_ok (rlog r)"
    using assms(1)
  proof (cases rule: newRaft_cases)
    case (1 s')
    then show ?thesis using n b assms(2) c LastIndex_ok [of s]
      by (auto simp: log_ok_def log_shape_def log_contents_def InitialState_def word_as_nat newRaftLog_def Let_def split: if_split_asm)
  qed
qed

section \<open>A concrete node\<close>

text \<open>Node 1 of a cluster of three with an empty log, for the witnesses.\<close>

definition sample_storage :: DurableStorage where
  "sample_storage =
     \<lparr>disk = [], rw = \<lparr>segmentLimit = 100, segments = [], current = \<lparr>wfilename = [], wsize = 0, wpos = 0, wopen = True\<rparr>\<rparr>,
      sw = \<lparr>wfilename = [], wsize = 0, wpos = 0, wopen = True\<rparr>, hs = empty_HardState, entries = [],
      snap = empty_SnapshotMeta, segLastIdx = Map.empty, compactThreshold = 10000\<rparr>"

definition sample_config :: Config where
  "sample_config = \<lparr>cfgID = 1, cfgPeers = [2, 3], cfgStorage = Some sample_storage, cfgApplied = 0,
     cfgElectionTick = 10, cfgHeartbeatTick = 1\<rparr>"

definition sample_node :: Raft where
  "sample_node =
     \<lparr>rid = 1, cur_term = 0, state = Follower, rlog = newRaftLog sample_storage, messages = [], msgsAfterAppend = [],
      trk = \<lparr>selfID = 1, Voters = [1, 2, 3],
        progress = [(1, \<lparr>MatchIndex = 0, NextIndex = 1, RecentActive = False\<rparr>),
                    (2, \<lparr>MatchIndex = 0, NextIndex = 1, RecentActive = False\<rparr>),
                    (3, \<lparr>MatchIndex = 0, NextIndex = 1, RecentActive = False\<rparr>)],
        votes = Map.empty\<rparr>,
      peers = [2, 3], votedFor = 0, readStates = [], read_only = newReadOnly, pendingReadIndexRequests = [],
      lead = 0, heartbeatTimeout = 1, electionTimeout = 10, electionElapsed = 0, heartbeatElapsed = 0,
      randomizedElectionTimeout = 13, leadTransferee = 0, tick_fn = tickFunc_Election,
      step_fn = stepFunc_Follower, entropy = (\<lambda>_. 3), env_io = good_io\<rparr>"

lemmas sample_defs = sample_node_def sample_storage_def empty_SnapshotMeta_def empty_HardState_def

lemma sample_log [simp]:
  "lastIndex (newRaftLog sample_storage) = 0" "committed (newRaftLog sample_storage) = 0"
  by (simp_all add: newRaftLog_def Let_def lastIndex_def maybeLastIndex_def sample_defs LastIndex_def FirstIndex_def)

lemma sample_node_new: "newRaft sample_config (\<lambda>_. 3) good_io = Inr sample_node"
  by (simp add: newRaft_def validate_def sample_config_def Let_def InitialState_def IsEmptyHardState_def
      becomeFollower_def reset_def resetRandomizedElectionTimeout_def intN_def abortLeaderTransfer_def
      Visit_def ResetVotes_def NewTracker_def InitProgress_def buildMajorityConfig_def sample_node_def)
   (simp add: sample_defs FirstIndex_def newRaftLog_def Let_def zero_Progress_def LastIndex_def lastIndex_def maybeLastIndex_def)

lemma sample_log_ok: "log_ok (rlog sample_node)" "log_contents (rlog sample_node) = []"
  using newRaft_log_ok [OF sample_node_new, of sample_storage]
  by (simp_all add: sample_config_def storage_commit_ok_def storage_ok_def log_well_def sample_defs IsEmptyHardState_def)

definition sample_vote :: "u64 \<Rightarrow> Message" where
  "sample_vote c = (new_Message MsgVote)\<lparr>mFrom := c, mTo := 1, mTerm := 1\<rparr>"

definition sample_answer :: "u64 \<Rightarrow> bool \<Rightarrow> Message" where
  "sample_answer c granted = (new_Message MsgVoteResp)\<lparr>mFrom := 1, mTo := c, mTerm := 1, mReject := \<not> granted\<rparr>"

text \<open>Node 1 votes for node 2 in term 1, and then refuses node 3.\<close>

definition sample_voter :: Raft where
  "sample_voter = (becomeFollower sample_node 1 2)\<lparr>votedFor := 2, msgsAfterAppend := [sample_answer 2 True]\<rparr>"

lemmas vote_defs = Step_def step_term_def step_message_def vote_granted_def canVoteFor_def
  isCandidateUpToDate_def isUpToDate_def lastEntryID_def respondVote_def send_def enqueue_def Let_def

lemma sample_voted: "Step sample_node (sample_vote 2) = Inr (sample_voter, None)"
  by (simp add: vote_defs sample_vote_def sample_voter_def sample_answer_def new_Message_def)
    (simp add: sample_node_def)

lemma sample_refused:
  "Step sample_voter (sample_vote 3) =
     Inr (sample_voter\<lparr>msgsAfterAppend := [sample_answer 2 True, sample_answer 3 False]\<rparr>, None)"
  by (simp add: vote_defs sample_vote_def sample_voter_def sample_answer_def new_Message_def)
    (simp add: sample_node_def)

lemma sample_run_vote: "raft_run sample_node sample_voter"
  by (rule raft_run.run_step [OF raft_run.run_start sample_voted])
    (simp_all add: role_ok_def not_stale_def term_room_def sample_node_def sample_vote_def from_leader_def)

lemma sample_run_refuse:
  "raft_run sample_voter (sample_voter\<lparr>msgsAfterAppend := [sample_answer 2 True, sample_answer 3 False]\<rparr>)"
  by (rule raft_run.run_step [OF raft_run.run_start sample_refused])
    (simp_all add: role_ok_def not_stale_def term_room_def sample_voter_def sample_vote_def from_leader_def)

section \<open>Runs\<close>

lemma initial_config:
  assumes "same_config (initial_tracker cfg) t"
  shows "tracker_ok t \<and> Voters t = buildMajorityConfig (cfgID cfg) (cfgPeers cfg)"
  using assms tracker_ok_new [of 0 1 "cfgPeers cfg" "cfgID cfg"]
  by (simp add: same_config_ok) (simp add: initial_tracker_def same_config_def keys_fold_InitProgress NewTracker_def)

text \<open>C8. Over any run of deliveries and ticks the term of a node never decreases, and as long
  as the term stays the same a vote once cast is never changed or withdrawn. The runs leave out one
  kind of delivery: a message from a leader of an earlier term to a candidate, which the code does
  not reject.\<close>
theorem term_monotone_vote_once:
  assumes "raft_run r r'"
  shows "cur_term r \<le> cur_term r'
    \<and> (cur_term r' = cur_term r \<and> votedFor r \<noteq> None_id \<longrightarrow> votedFor r' = votedFor r)"
  using term_vote.R_run [OF assms] by (simp add: term_vote_le_def)

theorem term_monotone_vote_once_witness:
  "\<exists>r'. Step sample_voter (sample_vote 3) = Inr (r', None) \<and> raft_run sample_voter r'
     \<and> cur_term r' = cur_term sample_voter \<and> votedFor r' = 2"
  using sample_refused sample_run_refuse term_monotone_vote_once [OF sample_run_refuse]
  by (auto simp: sample_voter_def)

text \<open>C14. Over any run of messages and ticks the commit index never decreases. As in all runs here, no
  message of a leader of an earlier term reaches a candidate and terms stay away from the end of their range.\<close>
theorem commit_index_monotone:
  assumes "raft_run r r'"
  shows "committed (rlog r) \<le> committed (rlog r')"
  using log_progress.R_run [OF assms] by (simp add: progress_le_def)

theorem commit_index_monotone_witness:
  "raft_run sample_node sample_voter \<and> committed (rlog sample_node) \<le> committed (rlog sample_voter)"
  using commit_index_monotone [OF sample_run_vote] sample_run_vote by blast

text \<open>C15. From its creation on, a node runs the step and tick functions of its role, its
  randomized election timeout lies in the interval from the election timeout up to twice that,
  and its identity, peers, voters and timeouts are those of the configuration.\<close>
theorem node_stays_configured:
  assumes "newRaft cfg rnd io = Inr r" and "raft_run r r'"
  shows "role_ok r' \<and> timeout_ok r' \<and> tracker_ok (trk r')
    \<and> rid r' = cfgID cfg \<and> peers r' = cfgPeers cfg \<and> electionTimeout r' = cfgElectionTick cfg
    \<and> Voters (trk r') = buildMajorityConfig (cfgID cfg) (cfgPeers cfg)"
proof -
  have "same_node r r'" using assms(2) by (rule node_config.R_run)
  moreover have "role_ok r'" "timeout_ok r \<longrightarrow> timeout_ok r'"
    using assms(2) raft_run_role timeout.R_run by blast+
  ultimately show ?thesis
    using assms(1)
    by (elim newRaft_cases) (auto simp: same_node_def dest!: initial_config [OF same_config_trans])
qed

theorem node_stays_configured_witness:
  "raft_run sample_node sample_voter \<and> timeout_ok sample_voter \<and> role_ok sample_voter
     \<and> Voters (trk sample_voter) = [1, 2, 3]"
  using node_stays_configured [OF sample_node_new sample_run_vote] sample_run_vote
  by (simp add: sample_config_def buildMajorityConfig_def)

section \<open>Voting\<close>

definition last_term :: "raftLog \<Rightarrow> u64" where
  "last_term l = log_term (log_base l) (sTerm (snap (storage l))) (log_contents l) (unat (lastIndex l))"

lemma lastEntryID_ok:
  assumes "log_shape l"
  shows "lastEntryID l = Inr (lastIndex l, last_term l)"
proof -
  have "log_term_of l (lastIndex l) = Inr (Inr (last_term l))"
    using lastIndex_ok [OF assms] unfolding last_term_def by (intro log_term_of_ok assms) auto
  then show ?thesis
    by (auto simp: lastEntryID_def Let_def log_term_of_def)
qed

definition up_to_date :: "raftLog \<Rightarrow> u64 \<Rightarrow> u64 \<Rightarrow> bool" where
  "up_to_date l index term \<longleftrightarrow> last_term l < term \<or> last_term l = term \<and> lastIndex l \<le> index"

lemma isUpToDate_ok: "log_shape l \<Longrightarrow> isUpToDate l index term = Inr (up_to_date l index term)"
  by (auto simp: isUpToDate_def lastEntryID_ok up_to_date_def)

definition may_vote :: "Raft \<Rightarrow> Message \<Rightarrow> bool" where
  "may_vote r m \<longleftrightarrow> cur_term r < mTerm m
     \<or> cur_term r = mTerm m \<and> (votedFor r = None_id \<or> votedFor r = mFrom m)"

definition vote_answer :: "Raft \<Rightarrow> Message \<Rightarrow> bool \<Rightarrow> Message" where
  "vote_answer r m granted =
     (new_Message MsgVoteResp)\<lparr>mFrom := rid r, mTo := mFrom m, mTerm := max (cur_term r) (mTerm m),
        mReject := \<not> granted\<rparr>"

lemma vote_step:
  assumes "mType m = MsgVote" "mTerm m \<noteq> 0" "log_shape (rlog r)"
  defines "granted \<equiv> may_vote r m \<and> up_to_date (rlog r) (mIndex m) (mLogTerm m)"
  shows "\<exists>r'. Step r m = Inr (r', None) \<and> rlog r' = rlog r \<and> cur_term r' = max (cur_term r) (mTerm m)
    \<and> msgsAfterAppend r' = msgsAfterAppend r @ [vote_answer r m granted] \<and> messages r' = messages r
    \<and> votedFor r' = (if granted then mFrom m else if cur_term r < mTerm m then None_id else votedFor r)"
proof -
  let ?r = "if cur_term r < mTerm m then becomeFollower r (mTerm m) (mFrom m) else r"
  let ?s = "if granted then ?r\<lparr>votedFor := mFrom m\<rparr> else ?r"
  have t: "cur_term ?r = max (cur_term r) (mTerm m)" "rlog ?r = rlog r" "rid ?r = rid r"
    "msgsAfterAppend ?r = msgsAfterAppend r" "messages ?r = messages r"
    "votedFor ?r = (if cur_term r < mTerm m then None_id else votedFor r)"
    by (auto simp: max_def)
  have "vote_granted ?r m = Inr granted"
    using t(1,2,6) assms(3)
    by (auto simp: vote_granted_def canVoteFor_def isCandidateUpToDate_def isUpToDate_ok granted_def may_vote_def max_def)
  moreover have "step_term r m = Inr ?r" using assms(1,2) by (simp add: step_term_def)
  moreover have "cur_term ?s \<noteq> 0" using t(1) assms(2) by (auto simp: max_def)
  then have "respondVote ?s (mFrom m) granted MsgVoteResp (cur_term ?s) =
      Inr (?s\<lparr>msgsAfterAppend := msgsAfterAppend r @ [vote_answer r m granted]\<rparr>)"
    using t(1,3,4) by (simp add: respondVote_def send_def enqueue_def Let_def vote_answer_def new_Message_def)
  ultimately have "Step r m = Inr (?s\<lparr>msgsAfterAppend := msgsAfterAppend r @ [vote_answer r m granted]\<rparr>, None)"
    using assms(1) by (simp add: Step_def step_message_def Let_def)
  then show ?thesis using t by simp
qed

text \<open>C7. A request for a vote is always answered. The vote is granted exactly when the term of
  the request is newer, or is the current one and no other candidate has the vote, and the log of
  the candidate is at least as up to date: its last term is greater, or equal with an index not
  smaller. A granted vote is recorded before the answer is queued behind the next save.\<close>
theorem vote_decision:
  assumes "mType m = MsgVote" "mTerm m \<noteq> 0" "log_shape (rlog r)"
  defines "granted \<equiv> may_vote r m \<and> up_to_date (rlog r) (mIndex m) (mLogTerm m)"
  shows "\<exists>r'. Step r m = Inr (r', None) \<and> rlog r' = rlog r \<and> cur_term r' = max (cur_term r) (mTerm m)
    \<and> msgsAfterAppend r' = msgsAfterAppend r @ [vote_answer r m granted] \<and> messages r' = messages r
    \<and> votedFor r' = (if granted then mFrom m else if cur_term r < mTerm m then None_id else votedFor r)"
  using vote_step [OF assms(1-3)] by (simp add: granted_def)

theorem vote_decision_witness:
  "\<exists>r'. Step sample_voter (sample_vote 3) = Inr (r', None) \<and> votedFor r' = 2
     \<and> msgsAfterAppend r' = [sample_answer 2 True, sample_answer 3 False]"
proof -
  have "log_shape (rlog sample_voter)" using sample_log_ok(1) by (simp add: log_ok_def sample_voter_def)
  with vote_decision [of "sample_vote 3" sample_voter] show ?thesis
    by (auto simp: sample_vote_def sample_voter_def may_vote_def vote_answer_def sample_answer_def)
      (simp add: sample_node_def)
qed

text \<open>C9. A candidate accepts the heartbeat of a leader of an earlier term: its term goes back
  to the earlier one
  and its own vote is forgotten. A vote request of the term it campaigned in is then granted, so it has
  voted for two candidates in one term.\<close>

theorem stale_heartbeat_frees_vote:
  assumes "step_fn r = stepFunc_Candidate" "log_shape (rlog r)" "mType m = MsgHeartbeat" "0 < mTerm m" "mTerm m < cur_term r"
    "mCommit m \<le> committed (rlog r)"
    and "mType q = MsgVote" "mTerm q = cur_term r" "up_to_date (rlog r) (mIndex q) (mLogTerm q)"
  shows "\<exists>r' r''. Step r m = Inr (r', None) \<and> cur_term r' = mTerm m \<and> votedFor r' = None_id
    \<and> Step r' q = Inr (r'', None) \<and> cur_term r'' = cur_term r \<and> votedFor r'' = mFrom q"
proof -
  let ?f = "becomeFollower r (mTerm m) (mFrom m)"
  let ?b = "((new_Message MsgHeartbeatResp)\<lparr>mTo := mFrom m, mContext := mContext m\<rparr>)"
  have "commitTo (rlog r) (mCommit m) = Inr (rlog r)" using assms(6) by (simp add: commitTo_def)
  moreover have t: "\<not> cur_term r < mTerm m" "mTerm m < cur_term r" "mTerm m \<noteq> 0" using assms(4,5) by auto
  moreover have "cur_term r \<noteq> mTerm m" using assms(5) by auto
  then obtain r' where r': "send (?f\<lparr>rlog := rlog r\<rparr>) ?b = Inr r'" "cur_term r' = mTerm m" "votedFor r' = None_id" "rlog r' = rlog r"
    by (simp add: send_def enqueue_def Let_def new_Message_def)
  ultimately have s: "Step r m = Inr (r', None)"
    using assms(1,3) t by (simp add: Step_def step_term_def step_message_def call_step_def stepCandidate_def handleHeartbeat_def)
  have "mTerm q \<noteq> 0" using assms(5,8) by auto
  from vote_step [OF assms(7) this, of r'] s r' assms(2,5,8,9) show ?thesis
    by (auto simp: may_vote_def max_def)
qed

definition stale_heartbeat :: Message where
  "stale_heartbeat = (new_Message MsgHeartbeat)\<lparr>mFrom := 3, mTo := 1, mTerm := 3\<rparr>"

definition late_vote :: Message where
  "late_vote = (new_Message MsgVote)\<lparr>mFrom := 2, mTo := 1, mTerm := 5\<rparr>"

theorem stale_heartbeat_frees_vote_witness:
  "\<exists>r' r''. Step (sample_node\<lparr>state := Candidate, step_fn := stepFunc_Candidate, cur_term := 5, votedFor := 1\<rparr>) stale_heartbeat = Inr (r', None)
    \<and> cur_term r' = 3 \<and> Step r' late_vote = Inr (r'', None) \<and> cur_term r'' = 5 \<and> votedFor r'' = 2"
proof -
  let ?r = "sample_node\<lparr>state := Candidate, step_fn := stepFunc_Candidate, cur_term := 5, votedFor := 1\<rparr>"
  have l: "log_shape (rlog sample_node)" using sample_log_ok(1) by (simp add: log_ok_def)
  have "isUpToDate (rlog sample_node) 0 0 = Inr True" by (simp add: vote_defs) (simp add: sample_node_def)
  then have "up_to_date (rlog sample_node) 0 0" using isUpToDate_ok [OF l, of 0 0] by simp
  then show ?thesis
    using stale_heartbeat_frees_vote [of ?r stale_heartbeat late_vote] l by (auto simp: stale_heartbeat_def late_vote_def new_Message_def)
qed

end
