(* ===== verification/Node.thy ===== *)
theory Node
  imports Raft_Safety
begin

text \<open>
  \<open>raft/node.go\<close>: the goroutine that owns a \<open>Raft\<close>. One iteration of the loop of \<open>run\<close> is
  \<open>node_top\<close>, which may offer a \<open>Ready\<close>, followed by the one event the select statement
  takes. A channel variable of the loop is a flag that tells whether it is nil. The methods
  called by other goroutines submit an event and wait for its answer. \<open>raft/apply.go\<close> is the
  same protocol without the goroutine.
\<close>

section \<open>State\<close>

record node =
  nr :: Raft
  prevHard :: "HardState option"
  stepsOnAdvance :: "Message list"
  rd :: Ready
  readyc :: bool
  advancec :: bool

definition empty_Ready :: Ready where
  "empty_Ready = \<lparr>rdLead = 0, rdEntries = [], rdCommittedEntries = [], rdMessages = [],
     rdHardState = None, rdReadStates = []\<rparr>"

definition setupNode :: "Config \<Rightarrow> (nat \<Rightarrow> nat) \<Rightarrow> disk_io \<Rightarrow> panic + node" where
  "setupNode cfg rnd io =
     and_then (newRaft cfg rnd io)
       (\<lambda>r. Inr \<lparr>nr = r, prevHard = None, stepsOnAdvance = [], rd = empty_Ready,
                 readyc = False, advancec = False\<rparr>)"

section \<open>The loop\<close>

definition hasReady :: "node \<Rightarrow> bool" where
  "hasReady n =
     (let hard = current_HardState (nr n) in
      if \<not> IsEmptyHardState (Some hard) \<and> \<not> hardStatesEqual (Some hard) (prevHard n) then True
      else HasReady (nr n))"

definition ready :: "node \<Rightarrow> panic + Ready" where
  "ready n =
     and_then (Ready_of (nr n))
       (\<lambda>rdy. Inr (if hardStatesEqual (rdHardState rdy) (prevHard n) then rdy\<lparr>rdHardState := None\<rparr> else rdy))"

definition node_top :: "node \<Rightarrow> panic + node" where
  "node_top n =
     (if \<not> advancec n \<and> hasReady n
      then and_then (ready n) (\<lambda>rdy. Inr (n\<lparr>readyc := True, rd := rdy\<rparr>))
      else Inr n)"

datatype node_event =
    EvReady
  | EvPropose bytes
  | EvStep Message
  | EvCampaign
  | EvReadIndex bytes
  | EvAdvance
  | EvTick

definition enabled :: "node \<Rightarrow> node_event \<Rightarrow> bool" where
  "enabled n ev = (case ev of EvReady \<Rightarrow> readyc n | EvAdvance \<Rightarrow> advancec n | _ \<Rightarrow> True)"

definition on_ready :: "node \<Rightarrow> node" where
  "on_ready n =
     n\<lparr>readyc := False, advancec := True,
       stepsOnAdvance := stepsOnAdvance n @ filter (\<lambda>m. mTo m = rid (nr n)) (msgsAfterAppend (nr n)),
       nr := (nr n)\<lparr>msgsAfterAppend := []\<rparr>\<rparr>"

definition on_advance :: "node \<Rightarrow> panic + node" where
  "on_advance n =
     (let n = (if \<not> IsEmptyHardState (rdHardState (rd n)) then n\<lparr>prevHard := rdHardState (rd n)\<rparr> else n) in
      and_then (Advance (nr n) (rd n))
        (\<lambda>r. and_then
           (fold_then (\<lambda>m r. and_then (Step r m) (\<lambda>(r, _). Inr r)) (stepsOnAdvance n) r)
           (\<lambda>r. Inr (n\<lparr>nr := r, stepsOnAdvance := [], rd := empty_Ready, advancec := False\<rparr>))))"

definition with_raft :: "node \<Rightarrow> panic + Raft \<times> raft_error option \<Rightarrow> panic + node \<times> raft_error option" where
  "with_raft n res = and_then res (\<lambda>(r, e). Inr (n\<lparr>nr := r\<rparr>, e))"

definition node_select :: "node \<Rightarrow> node_event \<Rightarrow> panic + node \<times> raft_error option" where
  "node_select n ev =
     (case ev of
        EvReady \<Rightarrow> Inr (on_ready n, None)
      | EvPropose data \<Rightarrow> with_raft n (Propose (nr n) data)
      | EvStep m \<Rightarrow> with_raft n (Step (nr n) m)
      | EvCampaign \<Rightarrow> with_raft n (Campaign (nr n))
      | EvReadIndex ctx \<Rightarrow> with_raft n (ReadIndex (nr n) ctx)
      | EvAdvance \<Rightarrow> and_then (on_advance n) (\<lambda>n. Inr (n, None))
      | EvTick \<Rightarrow> with_raft n (and_then (Tick (nr n)) (\<lambda>r. Inr (r, None))))"

text \<open>One iteration; \<open>None\<close> when the select does not offer the event.\<close>

definition iterate :: "node \<Rightarrow> node_event \<Rightarrow> panic + (node \<times> raft_error option) option" where
  "iterate n ev =
     and_then (node_top n)
       (\<lambda>n. if enabled n ev then and_then (node_select n ev) (\<lambda>x. Inr (Some x)) else Inr None)"

section \<open>Calls from other goroutines\<close>

text \<open>When the context of the caller is cancelled, relative to the two selects of a call.\<close>

datatype ctx_done = CtxNever | CtxBeforeSend | CtxBeforeAnswer

datatype call_result = CallErr "raft_error option" | CallCancelled

definition node_call :: "node \<Rightarrow> ctx_done \<Rightarrow> node_event \<Rightarrow> panic + node \<times> call_result" where
  "node_call n ctx ev =
     (case ctx of
        CtxBeforeSend \<Rightarrow> Inr (n, CallCancelled)
      | _ \<Rightarrow>
          and_then (node_top n)
            (\<lambda>n. and_then (node_select n ev)
               (\<lambda>(n, e). Inr (n, if ctx = CtxBeforeAnswer then CallCancelled else CallErr e))))"

definition node_Propose :: "node \<Rightarrow> ctx_done \<Rightarrow> bytes \<Rightarrow> panic + node \<times> call_result" where
  "node_Propose n ctx data = node_call n ctx (EvPropose data)"

definition node_Step :: "node \<Rightarrow> ctx_done \<Rightarrow> Message \<Rightarrow> panic + node \<times> call_result" where
  "node_Step n ctx m =
     (if IsLocalMsg (mType m) then Inr (n, CallErr (Some ErrLocalMessage))
      else node_call n ctx (EvStep m))"

definition node_Campaign :: "node \<Rightarrow> ctx_done \<Rightarrow> panic + node \<times> call_result" where
  "node_Campaign n ctx = node_call n ctx EvCampaign"

definition node_ReadIndex :: "node \<Rightarrow> ctx_done \<Rightarrow> bytes \<Rightarrow> panic + node \<times> call_result" where
  "node_ReadIndex n ctx rctx = node_call n ctx (EvReadIndex rctx)"

text \<open>\<open>Tick\<close> puts into a channel of capacity 128 and drops the tick when it is full.\<close>

definition node_Tick :: "nat \<Rightarrow> nat" where
  "node_Tick queued = (if queued < 128 then queued + 1 else queued)"

section \<open>apply.go\<close>

text \<open>\<open>target\<close> stands for \<open>ApplyTarget.Apply\<close>: a state and whether the call fails.\<close>

definition ConsumeReady ::
  "disk_io \<Rightarrow> disk_io \<Rightarrow> ('t \<Rightarrow> Entry list \<Rightarrow> 't \<times> raft_error option) \<Rightarrow> Raft \<times> 't
     \<Rightarrow> panic + (Raft \<times> 't) \<times> Ready \<times> raft_error option" where
  "ConsumeReady io cio apply rt =
     (let (r, t) = rt in
      if \<not> HasReady r then Inr ((r, t), empty_Ready, None)
      else
        and_then (Ready_of r)
          (\<lambda>rdy.
             and_then
               (if rdEntries rdy \<noteq> []
                then and_then (Save io cio (storage (rlog r)) (rdEntries rdy) None)
                       (\<lambda>(s, e). Inr (r\<lparr>rlog := (rlog r)\<lparr>storage := s\<rparr>\<rparr>, e))
                else Inr (r, None))
               (\<lambda>(r, e).
                  if e \<noteq> None then Inr ((r, t), rdy, e)
                  else
                    (let (t, e) = (if rdCommittedEntries rdy \<noteq> [] then apply t (rdCommittedEntries rdy) else (t, None)) in
                     if e \<noteq> None then Inr ((r, t), rdy, e)
                     else
                       and_then (Advance (r\<lparr>msgsAfterAppend := []\<rparr>) rdy)
                         (\<lambda>r. Inr ((r, t), rdy, None))))))"

end
