(* ===== verification/Host.thy ===== *)
theory Host
  imports Node
begin

text \<open>
  \<open>server/raft.go\<close>: the goroutine that takes each \<open>Ready\<close> from the node, persists it, sends
  its messages, hands over read states and committed entries, and only then calls
  \<open>Advance\<close>. The storage is the object the node reads too; here it is passed in and out.
  What leaves the host (the transport, the channels \<open>readStatec\<close> and \<open>applyc\<close>) is recorded
  in order of leaving.
\<close>

section \<open>Definitions\<close>

record toApply =
  ap_data :: "bytes list"
  appliedThru :: u64

datatype host_out = OutSend "Message list" | OutRead ReadState | OutApply toApply

record raftHost =
  h_peers :: "u64 list"
  h_lead :: u64
  h_outs :: "host_out list"
  h_err :: "raft_error option" \<comment> \<open>what was put into \<open>errc\<close>; the loop has returned\<close>

record RaftHostConfig =
  hcID :: u64
  hcPeers :: "u64 list"
  hcStorage :: "DurableStorage option"
  hcTransport :: bool
  hcHeartbeatTick :: int
  hcElectionTick :: int

definition validatePublicRaftHostConfig :: "RaftHostConfig \<Rightarrow> bool" where
  "validatePublicRaftHostConfig cfg \<longleftrightarrow> hcStorage cfg \<noteq> None \<and> hcTransport cfg"

text \<open>\<open>NewRaftHost\<close> starts the node at the compaction boundary, so that everything committed
  after it is applied again.\<close>

definition host_node_config :: "RaftHostConfig \<Rightarrow> Config" where
  "host_node_config cfg =
     \<lparr>cfgID = hcID cfg, cfgPeers = hcPeers cfg, cfgStorage = hcStorage cfg,
      cfgApplied = sIndex (Snapshot (the (hcStorage cfg))),
      cfgElectionTick = (if hcElectionTick cfg = 0 then 10 else hcElectionTick cfg),
      cfgHeartbeatTick = (if hcHeartbeatTick cfg = 0 then 1 else hcHeartbeatTick cfg)\<rparr>"

definition NewRaftHost ::
  "RaftHostConfig \<Rightarrow> (nat \<Rightarrow> nat) \<Rightarrow> disk_io \<Rightarrow> panic + (raftHost \<times> node) option" where
  "NewRaftHost cfg rnd io =
     (if \<not> validatePublicRaftHostConfig cfg then Inr None
      else
        and_then (setupNode (host_node_config cfg) rnd io)
          (\<lambda>n. Inr (Some (\<lparr>h_peers = hcPeers cfg, h_lead = 0, h_outs = [], h_err = None\<rparr>, n))))"

text \<open>The copy loop of \<open>handleBatch\<close>: each entry's data goes to the front of what is left of
  one buffer and its slice is cut off.\<close>

fun pack_entries :: "bytes \<Rightarrow> Entry list \<Rightarrow> bytes list" where
  "pack_entries buf [] = []"
| "pack_entries buf (e # es) =
     (let n = min (length buf) (length (eData e));
          buf = take n (eData e) @ drop n buf
      in take n buf # pack_entries (drop n buf) es)"

definition batch_data :: "Entry list \<Rightarrow> bytes list" where
  "batch_data es = pack_entries (make_bytes (sum_list (map (length \<circ> eData) es))) es"

text \<open>
  The sends on the two channels wait until the receiver takes the value or \<open>stopc\<close> is closed;
  \<open>taken\<close> is the number of values taken before that (\<open>None\<close>: the host is not stopped).
\<close>

definition take_outs :: "nat option \<Rightarrow> 'a list \<Rightarrow> 'a list" where
  "take_outs taken xs = (case taken of None \<Rightarrow> xs | Some k \<Rightarrow> take k xs)"

definition batch_outs :: "Ready \<Rightarrow> host_out list" where
  "batch_outs rdy =
     map OutRead (rdReadStates rdy)
     @ (if rdCommittedEntries rdy \<noteq> []
        then [OutApply \<lparr>ap_data = batch_data (rdCommittedEntries rdy),
                        appliedThru = eIndex (last (rdCommittedEntries rdy))\<rparr>]
        else [])"

definition handleBatch ::
  "disk_io \<Rightarrow> disk_io \<Rightarrow> nat option \<Rightarrow> DurableStorage \<Rightarrow> raftHost \<Rightarrow> Ready
     \<Rightarrow> panic + DurableStorage \<times> raftHost \<times> raft_error option" where
  "handleBatch io cio taken s h rdy =
     and_then
       (if rdEntries rdy \<noteq> [] \<or> \<not> IsEmptyHardState (rdHardState rdy)
        then Save io cio s (rdEntries rdy) (rdHardState rdy)
        else Inr (s, None))
       (\<lambda>(s, e).
          if e \<noteq> None then Inr (s, h, e)
          else
            (let h = (if rdMessages rdy \<noteq> [] then h\<lparr>h_outs := h_outs h @ [OutSend (rdMessages rdy)]\<rparr> else h);
                 h = h\<lparr>h_outs := h_outs h @ take_outs taken (batch_outs rdy)\<rparr>
             in Inr (s, h, None)))"

text \<open>
  The case of \<open>start\<close> that receives a \<open>Ready\<close>: what the node sends, with the storage the node
  holds, then \<open>Advance\<close>. Between the three parts the node goes on with other events; they
  are separate steps.
\<close>

definition host_take :: "raftHost \<Rightarrow> node \<Rightarrow> raftHost \<times> node \<times> Ready" where
  "host_take h n = (h\<lparr>h_lead := rdLead (rd n)\<rparr>, on_ready n, rd n)"

definition host_batch ::
  "disk_io \<Rightarrow> disk_io \<Rightarrow> nat option \<Rightarrow> raftHost \<Rightarrow> node \<Rightarrow> Ready \<Rightarrow> panic + raftHost \<times> node" where
  "host_batch io cio taken h n rdy =
     and_then (handleBatch io cio taken (storage (rlog (nr n))) h rdy)
       (\<lambda>(s, h, e).
          (let n = n\<lparr>nr := (nr n)\<lparr>rlog := (rlog (nr n))\<lparr>storage := s\<rparr>\<rparr>\<rparr> in
           Inr (if e = None then h else h\<lparr>h_err := e\<rparr>, n)))"

section \<open>The batch handed to the state machine\<close>

lemma pack_entries_eq:
  "length buf = sum_list (map (length \<circ> eData) es) \<Longrightarrow> pack_entries buf es = map eData es"
  by (induction es arbitrary: buf) (auto simp: Let_def)

lemma batch_data_eq: "batch_data es = map eData es"
  by (simp add: batch_data_def pack_entries_eq make_bytes_def)

end
