(* ===== verification/Election.thy ===== *)
theory Election
  imports Raft_Steps
begin

text \<open>
  What one node contributes to the safety of elections, as two interpretations of
  \<open>step_relation\<close>: the votes a candidate or leader counts were received, and the requests
  and grants a node has queued or sent bind it. \<open>D\<close> tells which vote messages have reached
  the node.
\<close>

section \<open>The evidence a candidate and a leader hold\<close>

definition granted_by :: "(Message \<Rightarrow> bool) \<Rightarrow> u64 \<Rightarrow> u64 set" where
  "granted_by D t = {n. \<exists>m. D m \<and> mType m = MsgVoteResp \<and> \<not> mReject m \<and> mTerm m = t \<and> mFrom m = n}"

definition election_ok :: "(Message \<Rightarrow> bool) \<Rightarrow> Raft \<Rightarrow> bool" where
  "election_ok D r \<longleftrightarrow> rid r \<noteq> None_id \<and> tracker_ok (trk r)
     \<and> (state r = Candidate \<longrightarrow> votedFor r = rid r
          \<and> {n. votes (trk r) n = Some True} \<subseteq> insert (rid r) (granted_by D (cur_term r)))
     \<and> (state r = Leader \<longrightarrow> votedFor r = rid r
          \<and> is_majority (Voters (trk r)) (insert (rid r) (granted_by D (cur_term r))))"

lemma is_majority_mono: "is_majority c A \<Longrightarrow> A \<subseteq> B \<Longrightarrow> is_majority c B"
  unfolding is_majority_def by (rule order_trans, assumption) (rule card_mono, auto)

lemma election_ok_leader:
  assumes "election_ok D r" "state r = Candidate" "TallyVotes (trk r) = VoteWon"
  shows "election_ok D (leader_role r)"
proof -
  have "is_majority (Voters (trk r)) {n. votes (trk r) n = Some True}"
    using assms by (simp add: TallyVotes_won election_ok_def)
  then have "is_majority (Voters (trk r)) (insert (rid r) (granted_by D (cur_term r)))"
    using assms(1,2) by (auto simp: election_ok_def elim: is_majority_mono)
  moreover have c: "same_config (trk r) (trk (leader_role r))"
    by (simp add: leader_role_def Let_def reset_config)
  moreover have "tracker_ok (trk (leader_role r))" "Voters (trk (leader_role r)) = Voters (trk r)"
    using c assms(1) by (simp_all add: same_config_ok [OF c] election_ok_def) (simp add: same_config_def)
  moreover have "state (leader_role r) = Leader" "rid (leader_role r) = rid r" "cur_term (leader_role r) = cur_term r"
    "votedFor (leader_role r) = votedFor r"
    by (simp_all add: leader_role_def Let_def)
  ultimately show ?thesis using assms(1,2) by (simp add: election_ok_def)
qed

interpretation election: step_relation "\<lambda>r r'. election_ok D r \<longrightarrow> election_ok D r'" D for D
proof
  fix r :: Raft and tr assume "same_config (trk r) tr" "votes tr = votes (trk r)"
  then show "election_ok D r \<longrightarrow> election_ok D (r\<lparr>trk := tr\<rparr>)"
    using same_config_ok [of "trk r" tr] by (simp add: election_ok_def) (simp add: same_config_def)
next
  fix r :: Raft and n v assume "state r = PreCandidate"
  then show "election_ok D r \<longrightarrow> election_ok D (r\<lparr>trk := RecordVote (trk r) n v\<rparr>)"
    by (simp add: election_ok_def same_config_ok [OF same_config_RecordVote])
next
  fix r :: Raft assume "state r = Candidate"
  then show "election_ok D r \<longrightarrow> election_ok D (r\<lparr>trk := RecordVote (trk r) (rid r) True\<rparr>)"
    by (auto simp: election_ok_def same_config_ok [OF same_config_RecordVote]) (auto simp: RecordVote_def split: if_split_asm)
next
  fix r :: Raft and m :: Message assume "state r = Candidate" "mType m = MsgVoteResp" "mTerm m = cur_term r" "\<not> mReject m \<Longrightarrow> D m"
  then show "election_ok D r \<longrightarrow> election_ok D (r\<lparr>trk := RecordVote (trk r) (mFrom m) (\<not> mReject m)\<rparr>)"
    by (auto simp: election_ok_def same_config_ok [OF same_config_RecordVote])
      (auto simp: RecordVote_def granted_by_def split: if_split_asm)
next
  fix r :: Raft and tm ld
  show "election_ok D r \<longrightarrow> election_ok D (becomeFollower r tm ld)"
    using same_config_ok [OF reset_config [of "r\<lparr>state := Follower\<rparr>" "trk r" tm]]
    by (simp add: election_ok_def becomeFollower_def Let_def)
next
  fix r :: Raft
  show "election_ok D r \<longrightarrow> election_ok D (becomeCandidate r)"
    using same_config_ok [OF reset_config [of "r\<lparr>state := Candidate, step_fn := stepFunc_Candidate, tick_fn := tickFunc_Election\<rparr>" "trk r" "cur_term r + 1"]]
    by (simp add: election_ok_def becomeCandidate_def Let_def)
next
  fix r :: Raft assume "state r = Candidate" "TallyVotes (trk r) = VoteWon"
  then show "election_ok D r \<longrightarrow> election_ok D (leader_role r)" using election_ok_leader by blast
next
  fix r r' :: Raft and m :: Message assume "canVoteFor r m" "mTerm m \<le> cur_term r"
    "respondVote (r\<lparr>votedFor := mFrom m\<rparr>) (mFrom m) True MsgVoteResp (cur_term r) = Inr r'"
  then show "election_ok D r \<longrightarrow> election_ok D r'"
    by (auto simp: election_ok_def canVoteFor_def dest!: respondVote_grant split: if_split_asm)
qed (auto simp: election_ok_def becomePreCandidate_def dest!: outputsD bcastVote_requests)

section \<open>Promises\<close>

text \<open>A request for votes promises the vote to the sender itself, a grant to its receiver.\<close>

definition vote_target :: "Message \<Rightarrow> u64" where
  "vote_target m = (if mType m = MsgVote then mFrom m else mTo m)"

definition kept :: "u64 \<Rightarrow> u64 \<Rightarrow> Message \<Rightarrow> bool" where
  "kept t v m \<longleftrightarrow> mTerm m < t \<or> mTerm m = t \<and> v = vote_target m"

definition promises :: "Message set \<Rightarrow> Raft \<Rightarrow> Message set" where
  "promises S r = {m \<in> S \<union> set (messages r) \<union> set (msgsAfterAppend r). vote_msg m}"

definition asked :: "(Message \<Rightarrow> bool) \<Rightarrow> Message \<Rightarrow> bool" where
  "asked D m \<longleftrightarrow> vote_target m = mFrom m
     \<or> (\<exists>q. D q \<and> mType q = MsgVote \<and> mTerm q = mTerm m \<and> mFrom q = vote_target m)"

definition consistent :: "Message set \<Rightarrow> bool" where
  "consistent Q \<longleftrightarrow> (\<forall>m \<in> Q. \<forall>m' \<in> Q. mTerm m = mTerm m' \<longrightarrow> vote_target m = vote_target m')"

definition promises_ok :: "(Message \<Rightarrow> bool) \<Rightarrow> Message set \<Rightarrow> Raft \<Rightarrow> bool" where
  "promises_ok D S r \<longleftrightarrow> rid r \<noteq> None_id \<and> (\<forall>m. D m \<and> mType m = MsgVote \<longrightarrow> mFrom m \<noteq> None_id)
     \<and> (\<forall>m \<in> promises S r. mFrom m = rid r \<and> vote_target m \<noteq> None_id \<and> asked D m
          \<and> kept (cur_term r) (votedFor r) m)
     \<and> consistent (promises S r)"

text \<open>A change that issues no promises keeps them when the term rises, or stays with the vote
  unchanged.\<close>

lemma promises_ok_same:
  assumes "promises_ok D S r" "promises S r' = promises S r" "rid r' = rid r"
    and "cur_term r < cur_term r' \<or> cur_term r' = cur_term r \<and> (votedFor r' = votedFor r \<or> votedFor r = None_id)"
  shows "promises_ok D S r'"
proof -
  have "kept (cur_term r') (votedFor r') m" if "m \<in> promises S r" for m
  proof -
    from assms(1) that have "vote_target m \<noteq> None_id" "kept (cur_term r) (votedFor r) m"
      by (simp_all add: promises_ok_def)
    with assms(4) show ?thesis unfolding kept_def by auto
  qed
  with assms(1-3) show ?thesis by (simp add: promises_ok_def)
qed

text \<open>A new promise in the current term goes where the vote goes.\<close>

lemma promises_ok_new:
  assumes "promises_ok D S r" "promises S r' \<subseteq> promises S r \<union> N" "rid r' = rid r" "cur_term r' = cur_term r"
    and "votedFor r' = v" "v \<noteq> None_id" "votedFor r = None_id \<or> votedFor r = v"
    and "\<And>m. m \<in> N \<Longrightarrow> mFrom m = rid r \<and> mTerm m = cur_term r \<and> vote_target m = v \<and> asked D m"
  shows "promises_ok D S r'"
proof -
  have old: "vote_target m = v" if "m \<in> promises S r" "mTerm m = cur_term r" for m
  proof -
    from assms(1) that have "vote_target m \<noteq> None_id" "votedFor r = vote_target m"
      by (auto simp: promises_ok_def kept_def)
    with assms(7) show ?thesis by auto
  qed
  have one: "vote_target m = vote_target m'" if "m \<in> promises S r'" "m' \<in> promises S r'" "mTerm m = mTerm m'" for m m'
    using that assms(1,2,8) old unfolding promises_ok_def consistent_def by (metis Un_iff subsetD)
  have "mFrom m = rid r' \<and> vote_target m \<noteq> None_id \<and> asked D m \<and> kept (cur_term r') (votedFor r') m"
    if "m \<in> promises S r'" for m
  proof (cases "m \<in> promises S r")
    case True
    with assms(1) have "mFrom m = rid r" "vote_target m \<noteq> None_id" "asked D m" "kept (cur_term r) (votedFor r) m"
      by (simp_all add: promises_ok_def)
    with old [OF True] assms(3-5) show ?thesis by (auto simp: kept_def)
  next
    case False
    with that assms(2) have "m \<in> N" by blast
    with assms(3-6) assms(8) [of m] show ?thesis by (simp add: kept_def)
  qed
  moreover have "consistent (promises S r')" using one unfolding consistent_def by blast
  ultimately show ?thesis using assms(1,3) by (simp add: promises_ok_def)
qed

lemma promises_outputs: "outputs r r' \<Longrightarrow> promises S r' = promises S r"
  by (auto simp: outputs_def promises_def)

lemma promises_ok_campaign:
  assumes "promises_ok D S r" "votedFor r = rid r" "bcastVote r MsgVote (cur_term r) = Inr r'"
  shows "promises_ok D S r'"
proof -
  obtain ms where ms: "r' = r\<lparr>messages := messages r @ ms\<rparr>"
    "\<forall>m \<in> set ms. mType m = MsgVote \<and> mTerm m = cur_term r \<and> mFrom m = rid r"
    using bcastVote_requests [OF assms(3)] by blast
  show ?thesis
  proof (rule promises_ok_new [OF assms(1), where N = "set ms" and v = "rid r"])
    show "promises S r' \<subseteq> promises S r \<union> set ms" by (auto simp: ms(1) promises_def)
  qed (use ms assms in \<open>auto simp: promises_ok_def vote_target_def asked_def\<close>)
qed

lemma promises_ok_grant:
  assumes "promises_ok D S r" "canVoteFor r m" "mType m = MsgVote" "mTerm m \<le> cur_term r" "D m"
    and "respondVote (r\<lparr>votedFor := mFrom m\<rparr>) (mFrom m) True MsgVoteResp (cur_term r) = Inr r'"
  shows "promises_ok D S r'"
proof -
  let ?g = "(new_Message MsgVoteResp)\<lparr>mFrom := rid r, mTo := mFrom m, mTerm := cur_term r\<rparr>"
  have r': "r' = r\<lparr>votedFor := mFrom m, msgsAfterAppend := msgsAfterAppend r @ [?g]\<rparr>"
    using respondVote_grant [OF assms(6)] by simp
  have c: "mTerm m = cur_term r" "votedFor r = None_id \<or> votedFor r = mFrom m"
    using assms(2,4) by (auto simp: canVoteFor_def split: if_split_asm)
  show ?thesis
  proof (rule promises_ok_new [OF assms(1), where N = "{?g}" and v = "mFrom m"])
    show "promises S r' \<subseteq> promises S r \<union> {?g}" by (auto simp: r' promises_def)
    show "mFrom m \<noteq> None_id" using assms(1,3,5) by (simp add: promises_ok_def)
    show "mFrom g = rid r \<and> mTerm g = cur_term r \<and> vote_target g = mFrom m \<and> asked D g" if "g \<in> {?g}" for g
      using that assms(3,5) c(1) by (auto simp: vote_target_def asked_def)
  qed (use r' c in simp_all)
qed

interpretation promise: step_relation "\<lambda>r r'. promises_ok D S r \<longrightarrow> promises_ok D S r'" D for D S
proof
  fix r s :: Raft assume "outputs r s"
  then show "promises_ok D S r \<longrightarrow> promises_ok D S s"
    using promises_ok_same [of D S r s] by (auto simp: promises_outputs dest!: outputsD)
next
  fix r :: Raft and tm ld assume "cur_term r \<le> tm"
  then show "promises_ok D S r \<longrightarrow> promises_ok D S (becomeFollower r tm ld)"
    by (intro impI, elim promises_ok_same) (auto simp: promises_def becomeFollower_def Let_def)
next
  fix r :: Raft assume "unat (cur_term r) + 1 < 2 ^ 64"
  from unat_Suc_le [OF this] show "promises_ok D S r \<longrightarrow> promises_ok D S (becomeCandidate r)"
    by (intro impI, elim promises_ok_same) (auto simp: promises_def becomeCandidate_def Let_def)
next
  fix r r' :: Raft and m :: Message
  assume "canVoteFor r m" "mType m = MsgVote" "mTerm m \<le> cur_term r" "D m"
    "respondVote (r\<lparr>votedFor := mFrom m\<rparr>) (mFrom m) True MsgVoteResp (cur_term r) = Inr r'"
  then show "promises_ok D S r \<longrightarrow> promises_ok D S r'" using promises_ok_grant by blast
qed (auto simp: promises_ok_campaign
    elim!: promises_ok_same simp: promises_def becomePreCandidate_def leader_role_def Let_def)

section \<open>The invariant of a node\<close>

text \<open>No step of a node changes the hard state in its storage; only the host saves one.\<close>

lemma ApplySnapshot_hs: "ApplySnapshot io s sn = Inr (s', e) \<Longrightarrow> hs s' = hs s"
  by (auto simp: ApplySnapshot_def persistSnapshotMeta_def Let_def split: option.split_asm prod.split_asm if_split_asm)

interpretation stored_hard: step_relation "\<lambda>r r'. hs (storage (rlog r')) = hs (storage (rlog r))" "\<lambda>_. True"
  by unfold_locales
    (auto simp: role_defs restore_def ApplySnapshot_hs
      dest!: outputsD appendEntries_indices commitTo_indices bcastVote_requests respondVote_grant)

definition vote_inv :: "(Message \<Rightarrow> bool) \<Rightarrow> Message set \<Rightarrow> Raft \<Rightarrow> bool" where
  "vote_inv D S r \<longleftrightarrow> role_ok r \<and> election_ok D r \<and> promises_ok D S r"

definition same_core :: "Raft \<Rightarrow> Raft \<Rightarrow> bool" where
  "same_core r r' \<longleftrightarrow> rid r' = rid r \<and> Voters (trk r') = Voters (trk r)
     \<and> hs (storage (rlog r')) = hs (storage (rlog r))"

lemma vote_inv_Step:
  assumes "Step r m = Inr (r', e)" "not_stale r m" "term_room r m" "vote_msg m \<Longrightarrow> D m" "vote_inv D S r"
  shows "vote_inv D S r' \<and> same_core r r'"
proof -
  note v = assms(5) [unfolded vote_inv_def]
  note st = assms(1-3)
  have "election_ok D r'" using election.R_Step [OF st, of D] assms(4) v by (simp add: election.well_received_def)
  moreover have "promises_ok D S r'"
    using promise.R_Step [OF st, of D S] assms(4) v by (simp add: promise.well_received_def)
  moreover have "role_ok r'" using role.R_Step [OF st] v by (simp add: role.well_received_def)
  moreover have "same_node r r'" using node_config.R_Step [OF st] v by (simp add: node_config.well_received_def)
  moreover have "hs (storage (rlog r')) = hs (storage (rlog r))"
    using stored_hard.R_Step [OF st] v by (simp add: stored_hard.well_received_def)
  ultimately show ?thesis by (simp add: vote_inv_def same_core_def same_node_def same_config_def)
qed

lemma vote_inv_Tick:
  assumes "Tick r = Inr r'" "unat (cur_term r) + 1 < 2 ^ 64" "vote_inv D S r"
  shows "vote_inv D S r' \<and> same_core r r'"
  using election.R_Tick [OF assms(1,2), of D] promise.R_Tick [OF assms(1,2), of D S] role.R_Tick [OF assms(1,2)]
    node_config.R_Tick [OF assms(1,2)] stored_hard.R_Tick [OF assms(1,2)] assms(3)
  by (simp add: vote_inv_def same_core_def same_node_def same_config_def)

lemma granted_by_mono: "(\<And>m. D m \<Longrightarrow> D' m) \<Longrightarrow> granted_by D t \<subseteq> granted_by D' t"
  by (auto simp: granted_by_def)

lemma vote_inv_mono:
  assumes "vote_inv D S r" "\<And>m. D m \<Longrightarrow> D' m" "\<And>m. D' m \<Longrightarrow> mType m = MsgVote \<Longrightarrow> mFrom m \<noteq> None_id"
    and "promises S' r \<subseteq> promises S r"
  shows "vote_inv D' S' r"
proof -
  have "insert (rid r) (granted_by D (cur_term r)) \<subseteq> insert (rid r) (granted_by D' (cur_term r))"
    using granted_by_mono [of D D' "cur_term r"] assms(2) by blast
  then have "election_ok D' r"
    using assms(1) is_majority_mono unfolding vote_inv_def election_ok_def by blast
  moreover have "asked D m \<Longrightarrow> asked D' m" for m using assms(2) by (auto simp: asked_def)
  then have "promises_ok D' S' r"
    using assms(1,3,4) unfolding vote_inv_def promises_ok_def consistent_def by blast
  ultimately show ?thesis using assms(1) by (simp add: vote_inv_def)
qed

text \<open>Changes outside the fields of the election.\<close>

lemma vote_inv_cong:
  assumes "vote_inv D S r" "rid r' = rid r" "state r' = state r" "trk r' = trk r" "cur_term r' = cur_term r"
    "votedFor r' = votedFor r" "step_fn r' = step_fn r" "tick_fn r' = tick_fn r" "promises S' r' \<subseteq> promises S r"
  shows "vote_inv D S' r'"
proof -
  have "election_ok D r'" "role_ok r'" using assms by (simp_all add: vote_inv_def election_ok_def role_ok_def)
  moreover have "promises_ok D S' r'"
    using assms unfolding vote_inv_def promises_ok_def consistent_def by (simp add: subset_iff)
  ultimately show ?thesis by (simp add: vote_inv_def)
qed

end
