(* ===== verification/Raft_Recovery.thy ===== *)
theory Raft_Recovery
  imports Raft_Storage
begin

text \<open>
  Crash recovery of \<open>raft/storage.go\<close>. \<open>on_disk\<close> relates a storage to the batches its
  segment files hold: replaying them rebuilds the log in memory. It is established by
  opening an empty directory, kept by every \<open>Save\<close> (cutting a segment included), and
  whenever it holds, opening the directory again gives back the same hard state, entries
  and snapshot, also after a crash in the middle of a write.
\<close>

section \<open>Replay depends on the log fields only\<close>

definition rehome :: "DurableStorage \<Rightarrow> DurableStorage \<Rightarrow> DurableStorage" where
  "rehome t s = t\<lparr>hs := hs s, entries := entries s, snap := snap s, segLastIdx := segLastIdx s\<rparr>"

lemma rehome_sel [simp]:
  "disk (rehome t s) = disk t" "rw (rehome t s) = rw t" "sw (rehome t s) = sw t"
  "hs (rehome t s) = hs s" "entries (rehome t s) = entries s" "snap (rehome t s) = snap s"
  "segLastIdx (rehome t s) = segLastIdx s" "compactThreshold (rehome t s) = compactThreshold t"
  by (simp_all add: rehome_def)

lemma rehome_self [simp]: "rehome s s = s"
  by (simp add: rehome_def)

lemma rehome_index [simp]: "LastIndex (rehome t s) = LastIndex s" "FirstIndex (rehome t s) = FirstIndex s"
  by (simp_all add: LastIndex_def FirstIndex_def)

lemma rehome_update [simp]:
  "rehome t (s\<lparr>entries := es\<rparr>) = (rehome t s)\<lparr>entries := es\<rparr>"
  "rehome t (s\<lparr>hs := h\<rparr>) = (rehome t s)\<lparr>hs := h\<rparr>"
  "rehome t (s\<lparr>segLastIdx := m\<rparr>) = (rehome t s)\<lparr>segLastIdx := m\<rparr>"
  by (simp_all add: rehome_def)

lemma truncateAndAppend_cases:
  assumes "storage_truncateAndAppend s es = Inr (s', e)"
  obtains es' where "s' = s\<lparr>entries := es'\<rparr>"
    "\<And>t. storage_truncateAndAppend (rehome t s) es = Inr ((rehome t s)\<lparr>entries := es'\<rparr>, e)"
proof (cases "take_go (unat (eIndex (hd es) - FirstIndex s)) (entries s)")
  case (Inl p)
  then show thesis
    using assms that [of "entries s"] that [of es] that [of "entries s @ es"]
    by (simp add: storage_truncateAndAppend_def Let_def split: if_split_asm) auto
next
  case (Inr kept)
  then show thesis
    using assms that [of "entries s"] that [of es] that [of "entries s @ es"] that [of "kept @ es"]
    by (simp add: storage_truncateAndAppend_def Let_def split: if_split_asm) auto
qed

lemma truncateAndAppend_rehome:
  "storage_truncateAndAppend s es = Inr (s', e) \<Longrightarrow>
     storage_truncateAndAppend (rehome t s) es = Inr (rehome t s', e)"
  by (erule truncateAndAppend_cases) simp

lemma truncateAndAppend_home:
  "storage_truncateAndAppend s es = Inr (s', e) \<Longrightarrow> \<exists>es'. s' = s\<lparr>entries := es'\<rparr>"
  by (erule truncateAndAppend_cases) blast

lemma replay_batch_rehome:
  assumes "replay_batch name b s = Inr s'"
  shows "replay_batch name b (rehome t s) = Inr (rehome t s')"
proof -
  obtain h es where dec: "decodeSaveBatch b = Inr (h, es)"
    using assms by (auto simp: replay_batch_def split: sum.splits)
  let ?upd = "\<lambda>s. (if es \<noteq> [] then s\<lparr>segLastIdx := (segLastIdx s)(name \<mapsto> eIndex (last es))\<rparr> else s)\<lparr>hs := h\<rparr>"
  have upd: "?upd (rehome t s) = rehome t (?upd s)" by (simp add: rehome_def)
  have "storage_truncateAndAppend (?upd s) (filterRetainedEntries es (sIndex (snap s))) = Inr (s', None)"
    using assms dec by (auto simp: replay_batch_def Let_def split: sum.splits option.splits if_splits)
  from truncateAndAppend_rehome [OF this, of t] upd dec show ?thesis
    by (auto simp: replay_batch_def Let_def split: if_splits)
qed

lemma replay_batch_home:
  assumes "replay_batch name b s = Inr s'"
  shows "disk s' = disk s \<and> rw s' = rw s \<and> sw s' = sw s \<and> snap s' = snap s
    \<and> compactThreshold s' = compactThreshold s"
  using assms
  by (auto simp: replay_batch_def Let_def split: sum.splits option.splits if_splits
      dest!: truncateAndAppend_home)

lemma run_handler_rehome:
  "run_handler replay_batch name bs s = Inr s' \<Longrightarrow>
     run_handler replay_batch name bs (rehome t s) = Inr (rehome t s')"
  by (induction bs arbitrary: s) (auto simp: replay_batch_rehome split: sum.splits)

lemma run_segments_rehome:
  "run_segments replay_batch B s = Inr s' \<Longrightarrow>
     run_segments replay_batch B (rehome t s) = Inr (rehome t s')"
proof (induction B arbitrary: s)
  case (Cons seg B)
  then show ?case
    by (cases seg) (auto simp: run_handler_rehome split: sum.splits)
qed simp

section \<open>The directory of a storage\<close>

definition seg_names :: "nat \<Rightarrow> nat \<Rightarrow> string list" where
  "seg_names lo hi = map (\<lambda>i. segmentName (word_of_nat i)) [lo..<hi]"

lemma unat_small: "i < 10 ^ 8 \<Longrightarrow> unat (word_of_nat i :: u32) = i"
  by (simp add: unat_of_nat)

lemma sorted_seg_names: "hi \<le> 10 ^ 8 \<Longrightarrow> sorted_wrt (<) (seg_names lo hi)"
  unfolding seg_names_def sorted_wrt_map
  by (rule sorted_wrt_mono_rel [OF _ sorted_wrt_upt]) (simp add: segmentName_less unat_small)

lemma parse_seg_names: "hi \<le> 10 ^ 8 \<Longrightarrow> n \<in> set (seg_names lo hi) \<Longrightarrow> parseSegmentSeq n \<noteq> None"
  by (auto simp: seg_names_def parseSegmentSeq_segmentName unat_small)

lemma parse_snapFilename: "parseSegmentSeq snapFilename = None"
  by (simp add: parseSegmentSeq_def snapFilename_def segmentPrefix_def)

lemma snapFilename_not_segment: "hi \<le> 10 ^ 8 \<Longrightarrow> snapFilename \<notin> set (seg_names lo hi)"
  using parse_seg_names parse_snapFilename by blast

lemma listSegments_eq:
  assumes "distinct (map fst d)" and "fst ` set d = insert snapFilename (set (seg_names lo hi))"
    and "hi \<le> 10 ^ 8"
  shows "listSegments d = seg_names lo hi"
proof -
  have "set (listSegments d) = set (seg_names lo hi)"
    using assms parse_seg_names [OF assms(3)] by (auto simp: listSegments_def parse_snapFilename)
  moreover have "sorted (listSegments d)" "distinct (listSegments d)"
    using assms(1) by (auto simp: listSegments_def)
  moreover have "sorted (seg_names lo hi)" "distinct (seg_names lo hi)"
    using sorted_seg_names [OF assms(3), of lo] strict_sorted_iff by blast+
  ultimately show ?thesis by (metis sorted_distinct_set_unique)
qed

definition on_disk :: "DurableStorage \<Rightarrow> (string \<times> bytes list) list \<Rightarrow> bytes list \<Rightarrow> nat \<Rightarrow> bool" where
  "on_disk s B bs hi \<longleftrightarrow>
     hi \<le> 10 ^ 8
     \<and> segments (rw s) = map fst B @ [currentSegment (rw s)]
     \<and> (\<exists>lo. segments (rw s) = seg_names lo hi)
     \<and> distinct (map fst (disk s))
     \<and> fst ` set (disk s) = insert snapFilename (set (segments (rw s)))
     \<and> (\<forall>seg \<in> set B. holds_segment (disk s) seg)
     \<and> holds_segment (disk s) (currentSegment (rw s), bs)
     \<and> wal_ok (disk s) (current (rw s))
     \<and> wal_ok (disk s) (sw s) \<and> wfilename (sw s) = snapFilename
     \<and> file_bytes (disk s) snapFilename =
         (if snap s = empty_SnapshotMeta then [] else wal_frame (snap_bytes (snap s)))
     \<and> run_segments replay_batch (B @ [(currentSegment (rw s), bs)])
         (s\<lparr>hs := empty_HardState, entries := [], segLastIdx := Map.empty\<rparr>) = Inr s"

lemma newWAL_existing:
  "map_of d f \<noteq> None \<Longrightarrow>
     newWAL good_io d f =
       (d, Inr \<lparr>wfilename = f, wsize = int (length (file_bytes d f)), wpos = 0, wopen = True\<rparr>)"
  by (auto simp: newWAL_def good_io_def)

lemma map_of_some_iff: "map_of d f \<noteq> None \<longleftrightarrow> f \<in> fst ` set d"
  by (simp add: map_of_eq_None_iff)

lemma replaySnapshotMeta_good:
  assumes "wal_ok (disk s) (sw s)" and "wfilename (sw s) = snapFilename" and "wpos (sw s) = 0"
    and c: "file_bytes (disk s) snapFilename = (if sn = empty_SnapshotMeta then [] else wal_frame (snap_bytes sn))"
  shows "\<exists>w. replaySnapshotMeta good_io s = (disk s, Inr (s\<lparr>sw := w, snap := sn\<rparr>))
    \<and> wal_ok (disk s) w \<and> wfilename w = snapFilename"
proof -
  let ?fn = "\<lambda>_ batch _. case DecodeSnapshotMeta batch of Inl _ \<Rightarrow> Inl ErrCorruption | Inr sn \<Rightarrow> Inr sn"
  let ?bs = "if sn = empty_SnapshotMeta then [] else [snap_bytes sn]"
  have "read_chunks next_frame (frames_of ?bs) = (?bs, True)"
    by (rule read_frames_of) (simp add: frame_fits_def)
  moreover have "file_bytes (disk s) snapFilename = frames_of ?bs"
    using c by (simp add: frames_of_def)
  ultimately have "snd (readSegmentFrames (disk s) (sw s) ?fn empty_SnapshotMeta 0) = SegOk sn"
    using readSegmentFrames_chunks [OF assms(1), of ?fn empty_SnapshotMeta 0] assms(2,3)
    by (simp add: DecodeSnapshotMeta_snap_bytes)
  moreover obtain p where
    "fst (readSegmentFrames (disk s) (sw s) ?fn empty_SnapshotMeta 0) = (sw s)\<lparr>wpos := p\<rparr>"
    using readSegmentFrames_handle [of "disk s" "sw s" ?fn empty_SnapshotMeta 0] by auto
  ultimately have "readSegmentFrames (disk s) (sw s) ?fn empty_SnapshotMeta 0 =
      ((sw s)\<lparr>wpos := p\<rparr>, SegOk sn)" by (simp add: prod_eq_iff)
  with assms(1,2) show ?thesis
    by (intro exI [of _ "(sw s)\<lparr>wpos := p\<rparr>"]) (simp add: replaySnapshotMeta_def)
qed


lemma set_file_same: "map_of d f = Some c \<Longrightarrow> set_file d f c = d"
  unfolding set_file_def by (induction d) auto

lemma holds_segment_set_file:
  "holds_segment d seg \<Longrightarrow> fst seg \<noteq> f \<Longrightarrow> holds_segment (set_file d f c) seg"
  by (simp add: holds_segment_def set_file_def update_conv')

lemma map_of_set_file: "map_of (set_file d f c) g = (if g = f then Some c else map_of d g)"
  by (simp add: set_file_def update_conv')

lemma replayLog_good:
  assumes B: "\<forall>seg \<in> set B. holds_segment (disk s) seg"
    and cur: "wal_ok (disk s) (current (rw s))" "currentSegment (rw s) = name"
    and c: "file_bytes (disk s) name = frames_of bs @ take k (wal_frame b)"
    and fits: "\<forall>b \<in> set bs. frame_fits b" "frame_fits b" "k < length (wal_frame b)"
    and segs: "segments (rw s) = map fst B @ [name]"
    and run: "run_segments replay_batch (B @ [(name, bs)]) (s\<lparr>entries := []\<rparr>) = Inr t"
    and d': "d' = (if k = 0 then disk s else set_file (disk s) name (frames_of bs))"
  shows "\<exists>p. replayLog good_io s =
      (d', Inr (t\<lparr>disk := d', rw := (rw s)\<lparr>current :=
        (current (rw s))\<lparr>wsize := int (length (frames_of bs)), wpos := p\<rparr>\<rparr>\<rparr>))"
  using readAll_segments_run [OF B cur(1) _ fits, of replay_batch "s\<lparr>entries := []\<rparr>" t] cur(2) c segs run d'
  by (auto simp: replayLog_def readAll_def currentSegment_def)

section \<open>Opening the directory again\<close>

lemma on_disk_D:
  assumes "on_disk s B bs hi"
  shows "hi \<le> 10 ^ 8" "segments (rw s) = map fst B @ [currentSegment (rw s)]"
    "\<exists>lo. segments (rw s) = seg_names lo hi" "distinct (map fst (disk s))"
    "fst ` set (disk s) = insert snapFilename (set (segments (rw s)))"
    "\<forall>seg \<in> set B. holds_segment (disk s) seg" "holds_segment (disk s) (currentSegment (rw s), bs)"
    "wal_ok (disk s) (current (rw s))" "wal_ok (disk s) (sw s)" "wfilename (sw s) = snapFilename"
    "file_bytes (disk s) snapFilename =
       (if snap s = empty_SnapshotMeta then [] else wal_frame (snap_bytes (snap s)))"
    "run_segments replay_batch (B @ [(currentSegment (rw s), bs)])
       (s\<lparr>hs := empty_HardState, entries := [], segLastIdx := Map.empty\<rparr>) = Inr s"
  using assms unfolding on_disk_def by - (elim conjE, assumption)+

lemma on_disk_names:
  assumes "on_disk s B bs hi"
  shows "currentSegment (rw s) \<noteq> snapFilename" "\<forall>seg \<in> set B. fst seg \<noteq> currentSegment (rw s)"
    "\<forall>seg \<in> set B. fst seg \<noteq> snapFilename"
proof -
  obtain lo where lo: "segments (rw s) = seg_names lo hi" using on_disk_D(3) [OF assms] by blast
  have "snapFilename \<notin> set (segments (rw s))"
    using snapFilename_not_segment [OF on_disk_D(1) [OF assms]] lo by simp
  with on_disk_D(2) [OF assms] show "currentSegment (rw s) \<noteq> snapFilename"
    "\<forall>seg \<in> set B. fst seg \<noteq> snapFilename" by (auto simp: image_iff)
  have "distinct (segments (rw s))"
    using sorted_seg_names [OF on_disk_D(1) [OF assms], of lo] lo strict_sorted_iff by metis
  with on_disk_D(2) [OF assms] show "\<forall>seg \<in> set B. fst seg \<noteq> currentSegment (rw s)"
    by (auto simp: image_iff)
qed

text \<open>The directory of \<open>s\<close> after a crash that left \<open>k\<close> bytes of another frame behind.\<close>

definition torn_disk :: "DurableStorage \<Rightarrow> bytes list \<Rightarrow> nat \<Rightarrow> bytes \<Rightarrow> disk" where
  "torn_disk s bs k b =
     set_file (disk s) (currentSegment (rw s)) (frames_of bs @ take k (wal_frame b))"

lemma torn_disk_0: "on_disk s B bs hi \<Longrightarrow> torn_disk s bs 0 b = disk s"
  using on_disk_D(7) [of s B bs hi] by (simp add: torn_disk_def set_file_same holds_segment_def)

definition handle :: "disk \<Rightarrow> string \<Rightarrow> wal" where
  "handle d f = \<lparr>wfilename = f, wsize = int (length (file_bytes d f)), wpos = 0, wopen = True\<rparr>"

definition opened :: "disk \<Rightarrow> int \<Rightarrow> u64 \<Rightarrow> string list \<Rightarrow> DurableStorage" where
  "opened d limit thr segs =
     \<lparr>disk = d,
      rw = \<lparr>segmentLimit = (if limit \<le> 0 then defaultSegmentLimit else limit),
            segments = segs, current = handle d (last segs)\<rparr>,
      sw = handle d snapFilename, hs = empty_HardState, entries = [],
      snap = empty_SnapshotMeta, segLastIdx = Map.empty,
      compactThreshold = (if thr = 0 then DefaultCompactThreshold else thr)\<rparr>"

lemma opened_sel [simp]:
  "disk (opened d limit thr segs) = d" "segments (rw (opened d limit thr segs)) = segs"
  "current (rw (opened d limit thr segs)) = handle d (last segs)"
  "sw (opened d limit thr segs) = handle d snapFilename"
  "hs (opened d limit thr segs) = empty_HardState" "entries (opened d limit thr segs) = []"
  "segLastIdx (opened d limit thr segs) = Map.empty"
  by (simp_all add: opened_def)

lemma handle_sel [simp]: "wfilename (handle d f) = f" "wpos (handle d f) = 0" "wopen (handle d f)"
  "wsize (handle d f) = int (length (file_bytes d f))"
  by (simp_all add: handle_def)

lemma wal_ok_handle: "map_of d f \<noteq> None \<Longrightarrow> wal_ok d (handle d f)"
  by (simp add: wal_ok_def)

lemma open_directory:
  assumes "distinct (map fst d)" "fst ` set d = insert snapFilename (set (seg_names lo hi))"
    "hi \<le> 10 ^ 8" "seg_names lo hi \<noteq> []"
  shows "NewDurableStorageWithOptions good_io d limit thr = replay good_io (opened d limit thr (seg_names lo hi))"
proof -
  have "map_of d (last (seg_names lo hi)) \<noteq> None" "map_of d snapFilename \<noteq> None"
    using assms(2,4) by (auto simp: map_of_eq_None_iff)
  then have "newWAL good_io d (last (seg_names lo hi)) = (d, Inr (handle d (last (seg_names lo hi))))"
    "newWAL good_io d snapFilename = (d, Inr (handle d snapFilename))"
    by (simp_all add: newWAL_existing handle_def)
  then show ?thesis
    using listSegments_eq [OF assms(1-3)] assms(4)
    by (simp add: NewDurableStorageWithOptions_def newSegmentedWAL_def Let_def opened_def)
qed

lemma torn_disk_facts:
  fixes k b
  assumes od: "on_disk s B bs hi"
  defines "d \<equiv> torn_disk s bs k b" and "name \<equiv> currentSegment (rw s)"
  shows "distinct (map fst d)" "fst ` set d = insert snapFilename (set (segments (rw s)))"
    "\<forall>seg \<in> set B. holds_segment d seg" "file_bytes d name = frames_of bs @ take k (wal_frame b)"
    "file_bytes d snapFilename = file_bytes (disk s) snapFilename"
    "set_file d name (frames_of bs) = disk s"
proof -
  note D = on_disk_D [OF od] and N = on_disk_names [OF od, folded name_def]
  show "distinct (map fst d)" "fst ` set d = insert snapFilename (set (segments (rw s)))"
    using D(2,4,5) by (auto simp: d_def torn_disk_def distinct_set_file)
  show "\<forall>seg \<in> set B. holds_segment d seg"
    using D(6) N by (auto simp: d_def torn_disk_def name_def holds_segment_set_file)
  show "file_bytes d name = frames_of bs @ take k (wal_frame b)"
    by (simp add: d_def torn_disk_def name_def)
  show "file_bytes d snapFilename = file_bytes (disk s) snapFilename"
    using N(1) by (auto simp: d_def torn_disk_def name_def)
  have "map_of (disk s) name = Some (frames_of bs)"
    using D(7) by (simp add: holds_segment_def name_def)
  from set_file_same [OF this] show "set_file d name (frames_of bs) = disk s"
    by (simp add: d_def torn_disk_def name_def set_file_def)
qed

lemma reopened:
  assumes od: "on_disk s B bs hi" and b: "frame_fits b" "k < length (wal_frame b)"
  shows "\<exists>t. NewDurableStorageWithOptions good_io (torn_disk s bs k b) limit thr = (disk s, Inr t)
    \<and> disk t = disk s \<and> segments (rw t) = segments (rw s) \<and> currentSegment (rw t) = currentSegment (rw s)
    \<and> wal_ok (disk s) (current (rw t)) \<and> wal_ok (disk s) (sw t) \<and> wfilename (sw t) = snapFilename
    \<and> rehome t s = t"
proof -
  define d name where "d = torn_disk s bs k b" and "name = currentSegment (rw s)"
  note D = on_disk_D [OF od] and T = torn_disk_facts [OF od, of k b, folded d_def name_def]
  obtain lo where lo: "segments (rw s) = seg_names lo hi" using D(3) by blast
  let ?s0 = "opened d limit thr (segments (rw s))"
  have cur: "last (segments (rw s)) = name" "segments (rw s) = map fst B @ [name]"
    using D(2) by (simp_all add: name_def)
  have ok: "wal_ok d (handle d name)" "wal_ok d (handle d snapFilename)"
    using T(2) cur(2) by (simp_all add: wal_ok_handle map_of_eq_None_iff)
  have "file_bytes d snapFilename = (if snap s = empty_SnapshotMeta then [] else wal_frame (snap_bytes (snap s)))"
    using T(5) D(11) by simp
  then obtain w where w: "replaySnapshotMeta good_io ?s0 = (d, Inr (?s0\<lparr>sw := w, snap := snap s\<rparr>))"
    "wal_ok d w" "wfilename w = snapFilename"
    using replaySnapshotMeta_good [of ?s0 "snap s"] ok by auto
  let ?s1 = "?s0\<lparr>sw := w, snap := snap s\<rparr>"
  have "rehome ?s1 (s\<lparr>hs := empty_HardState, entries := [], segLastIdx := Map.empty\<rparr>) = ?s1\<lparr>entries := []\<rparr>"
    by (simp add: rehome_def opened_def)
  then have run: "run_segments replay_batch (B @ [(name, bs)]) (?s1\<lparr>entries := []\<rparr>) = Inr (rehome ?s1 s)"
    using run_segments_rehome [OF D(12), of ?s1] by (simp only: name_def)
  have fits: "\<forall>b \<in> set bs. frame_fits b" using D(7) by (simp add: holds_segment_def)
  have d': "(if k = 0 then d else set_file d name (frames_of bs)) = disk s"
    using T(6) torn_disk_0 [OF od] by (simp add: d_def)
  have "\<exists>p. replayLog good_io ?s1 = (disk s, Inr ((rehome ?s1 s)\<lparr>disk := disk s,
      rw := (rw ?s1)\<lparr>current := (current (rw ?s1))\<lparr>wsize := int (length (frames_of bs)), wpos := p\<rparr>\<rparr>\<rparr>))"
    by (rule replayLog_good [OF _ _ _ _ fits b _ run])
      (use T(3,4) cur ok d' [symmetric] in \<open>simp_all add: currentSegment_def\<close>)
  then obtain p where "replayLog good_io ?s1 = (disk s, Inr ((rehome ?s1 s)\<lparr>disk := disk s,
      rw := (rw ?s1)\<lparr>current := (handle d name)\<lparr>wsize := int (length (frames_of bs)), wpos := p\<rparr>\<rparr>\<rparr>))"
    using cur(1) by auto
  then have "replay good_io ?s0 = (disk s, Inr ((rehome ?s1 s)\<lparr>disk := disk s,
      rw := (rw ?s1)\<lparr>current := (handle d name)\<lparr>wsize := int (length (frames_of bs)), wpos := p\<rparr>\<rparr>\<rparr>))"
    using w(1) by (simp add: replay_def)
  moreover have "NewDurableStorageWithOptions good_io d limit thr = replay good_io ?s0"
    unfolding lo by (rule open_directory) (use T(1,2) D(1) lo cur(2) in auto)
  moreover have "wal_ok (disk s) w" "file_bytes (disk s) name = frames_of bs" "map_of (disk s) name \<noteq> None"
    using w(2,3) T(5) D(7,9,10) by (auto simp: wal_ok_def holds_segment_def name_def file_bytes_def)
  ultimately show ?thesis
    using w(3) by (auto simp: d_def rehome_def opened_def currentSegment_def name_def wal_ok_def)
qed

lemma on_disk_rehome:
  assumes "on_disk s B bs hi" and "disk t = disk s" "segments (rw t) = segments (rw s)"
    "currentSegment (rw t) = currentSegment (rw s)" "wal_ok (disk s) (current (rw t))"
    "wal_ok (disk s) (sw t)" "wfilename (sw t) = snapFilename" "rehome t s = t"
  shows "on_disk t B bs hi"
proof -
  note D = on_disk_D [OF assms(1)]
  have t: "hs t = hs s" "entries t = entries s" "snap t = snap s" "segLastIdx t = segLastIdx s"
    using assms(8) by (metis rehome_sel)+
  have "rehome t (s\<lparr>hs := empty_HardState, entries := [], segLastIdx := Map.empty\<rparr>) =
      t\<lparr>hs := empty_HardState, entries := [], segLastIdx := Map.empty\<rparr>"
    using t by (simp add: rehome_def)
  then have "run_segments replay_batch (B @ [(currentSegment (rw t), bs)])
      (t\<lparr>hs := empty_HardState, entries := [], segLastIdx := Map.empty\<rparr>) = Inr t"
    using run_segments_rehome [OF D(12), of t] assms(4,8) by (simp only:)
  then show ?thesis using D(1-11) assms(2-7) t by (simp add: on_disk_def)
qed

text \<open>
  Crash recovery: a directory whose last segment ends in any part of an unfinished frame
  opens without error, to the state the complete batches describe.
\<close>

lemma crash_recovery:
  assumes "on_disk s B bs hi" "frame_fits b" "k < length (wal_frame b)"
  obtains t where "NewDurableStorageWithOptions good_io (torn_disk s bs k b) limit thr = (disk t, Inr t)"
    "hs t = hs s" "entries t = entries s" "snap t = snap s" "segLastIdx t = segLastIdx s" "on_disk t B bs hi"
proof -
  obtain t where t: "NewDurableStorageWithOptions good_io (torn_disk s bs k b) limit thr = (disk s, Inr t)"
    "disk t = disk s" "segments (rw t) = segments (rw s)" "currentSegment (rw t) = currentSegment (rw s)"
    "wal_ok (disk s) (current (rw t))" "wal_ok (disk s) (sw t)" "wfilename (sw t) = snapFilename"
    "rehome t s = t"
    using reopened [OF assms] by blast
  have "hs t = hs s" "entries t = entries s" "snap t = snap s" "segLastIdx t = segLastIdx s"
    using t(8) by (metis rehome_sel)+
  with that t on_disk_rehome [OF assms(1) t(2-8)] show ?thesis by metis
qed

section \<open>Save\<close>

definition save_fits :: "Entry list \<Rightarrow> bool" where
  "save_fits es \<longleftrightarrow> 28 + computeTotalSize es < 2 ^ 32"

definition effective_hard :: "DurableStorage \<Rightarrow> HardState option \<Rightarrow> HardState" where
  "effective_hard s hard =
     (case hard of None \<Rightarrow> hs s | Some h \<Rightarrow> if IsEmptyHardState (Some h) then hs s else h)"

text \<open>Entries that continue the log or overwrite a suffix of it.\<close>

definition extends :: "DurableStorage \<Rightarrow> Entry list \<Rightarrow> bool" where
  "extends s es \<longleftrightarrow>
     (\<forall>e \<in> set (take 1 es).
        storage_base s < unat (eIndex e) \<and> unat (eIndex e) \<le> Suc (storage_base s + length (entries s))
        \<and> contiguous_from (unat (eIndex e)) es \<and> unat (eIndex e) + length es < 2 ^ 64)"

definition saved_entries :: "DurableStorage \<Rightarrow> Entry list \<Rightarrow> Entry list" where
  "saved_entries s es =
     (if es = [] then entries s
      else take (unat (eIndex (hd es)) - Suc (storage_base s)) (entries s) @ es)"

lemma extends_truncateAndAppend:
  assumes "storage_ok s" "extends s es"
  shows "storage_truncateAndAppend s es = Inr (s\<lparr>entries := saved_entries s es\<rparr>, None)"
    and "storage_ok (s\<lparr>entries := saved_entries s es\<rparr>)"
proof -
  show "storage_truncateAndAppend s es = Inr (s\<lparr>entries := saved_entries s es\<rparr>, None)"
  proof (cases es)
    case Nil
    then show ?thesis by (simp add: storage_truncateAndAppend_def saved_entries_def)
  next
    case (Cons e rest)
    with assms truncateAndAppend_ok [OF assms(1), of "unat (eIndex e)" es] show ?thesis
      by (simp add: extends_def saved_entries_def)
  qed
  show "storage_ok (s\<lparr>entries := saved_entries s es\<rparr>)"
  proof (cases es)
    case Nil
    then show ?thesis using assms(1) by (simp add: saved_entries_def)
  next
    case (Cons e rest)
    with assms storage_ok_truncateAndAppend [OF assms(1), of "unat (eIndex e)" es] show ?thesis
      by (simp add: extends_def saved_entries_def)
  qed
qed

lemma extends_retained:
  assumes "extends s es"
  shows "filterRetainedEntries es (sIndex (snap s)) = es"
proof (cases es)
  case (Cons e rest)
  with assms have "\<not> eIndex e \<le> sIndex (snap s)" by (simp add: extends_def word_as_nat)
  with Cons show ?thesis by (simp add: filterRetainedEntries_def)
qed (simp add: filterRetainedEntries_def)

text \<open>Replaying the batch that \<open>Save\<close> wrote has the effect that \<open>Save\<close> had in memory.\<close>

lemma replay_saved_batch:
  assumes "storage_ok s" "extends s es" "save_fits es"
  shows "replay_batch name (encodeSaveBatch h es) s =
    Inr (s\<lparr>hs := h, entries := saved_entries s es,
           segLastIdx := (if es = [] then segLastIdx s
                          else (segLastIdx s)(name \<mapsto> eIndex (last es)))\<rparr>)"
proof -
  let ?s = "s\<lparr>segLastIdx := (if es = [] then segLastIdx s
      else (segLastIdx s)(name \<mapsto> eIndex (last es))), hs := h\<rparr>"
  have "storage_ok ?s" "extends ?s es" "saved_entries ?s es = saved_entries s es"
    using assms by (simp_all add: storage_ok_def extends_def saved_entries_def)
  then have "storage_truncateAndAppend ?s es = Inr (?s\<lparr>entries := saved_entries s es\<rparr>, None)"
    using extends_truncateAndAppend(1) by metis
  moreover have "decodeSaveBatch (encodeSaveBatch h es) = Inr (h, es)"
    using assms(3) by (simp add: encodeSaveBatch_eq decodeSaveBatch_batch_bytes batch_fits_def save_fits_def)
  ultimately show ?thesis
    using extends_retained [OF assms(2)] by (cases "es = []") (simp_all add: replay_batch_def Let_def)
qed

lemma frames_of_snoc: "frames_of (bs @ [b]) = frames_of bs @ wal_frame b"
  by (simp add: frames_of_def)

lemma on_disk_write:
  assumes od: "on_disk s B bs hi" and b: "frame_fits b"
    and rep: "replay_batch (currentSegment (rw s)) b s = Inr t"
    and d: "d = set_file (disk s) (currentSegment (rw s)) (frames_of (bs @ [b]))"
    and r: "r = (rw s)\<lparr>current := (current (rw s))\<lparr>wsize := int (length (frames_of (bs @ [b]))), wpos := p\<rparr>\<rparr>"
  shows "on_disk (t\<lparr>disk := d, rw := r\<rparr>) B (bs @ [b]) hi"
proof -
  note D = on_disk_D [OF od] and N = on_disk_names [OF od]
  have home: "disk t = disk s" "rw t = rw s" "sw t = sw s" "snap t = snap s"
    using replay_batch_home [OF rep] by auto
  let ?t = "t\<lparr>disk := d, rw := r\<rparr>"
  have r': "currentSegment r = currentSegment (rw s)" "segments r = segments (rw s)"
    using r by (simp_all add: currentSegment_def)
  have "run_segments replay_batch (B @ [(currentSegment (rw s), bs @ [b])])
      (s\<lparr>hs := empty_HardState, entries := [], segLastIdx := Map.empty\<rparr>) = Inr t"
    using D(12) rep
    by (auto simp: run_segments_append run_handler_append split: sum.splits)
  from run_segments_rehome [OF this, of ?t]
  have run: "run_segments replay_batch (B @ [(currentSegment r, bs @ [b])])
      (?t\<lparr>hs := empty_HardState, entries := [], segLastIdx := Map.empty\<rparr>) = Inr ?t"
    using home(4) [symmetric] r' by (simp add: rehome_def)
  have "wal_ok d (current r)" "wal_ok d (sw s)"
    using r d D(8-10) N(1) by (auto simp: wal_ok_def currentSegment_def map_of_set_file)
  moreover have "\<forall>seg \<in> set B. holds_segment d seg" "holds_segment d (currentSegment r, bs @ [b])"
    using D(6,7) N(2) b r' d
    by (auto simp: holds_segment_set_file) (auto simp: holds_segment_def map_of_set_file)
  moreover have "file_bytes d snapFilename = file_bytes (disk s) snapFilename" using d N(1) by auto
  moreover have "distinct (map fst d)" "fst ` set d = fst ` set (disk s)"
    using d D(2,4,5) by (auto simp: distinct_set_file)
  ultimately show ?thesis
    using D(1-3,5,10,11) run r' home by (simp add: on_disk_def)
qed

lemma seg_names_Suc: "lo \<le> hi \<Longrightarrow> seg_names lo (Suc hi) = seg_names lo hi @ [segmentName (word_of_nat hi)]"
  by (simp add: seg_names_def)

lemma last_seg_names:
  assumes "seg_names lo hi \<noteq> []"
  obtains k where "hi = Suc k" "lo \<le> k" "last (seg_names lo hi) = segmentName (word_of_nat k)"
proof -
  have "lo < hi" using assms by (auto simp: seg_names_def)
  then obtain k where "hi = Suc k" "lo \<le> k" by (cases hi) auto
  with that seg_names_Suc [of lo k] show ?thesis by simp
qed

lemma cut_good:
  assumes od: "on_disk s B bs hi" and hi: "hi < 10 ^ 8"
  obtains d r where "cut good_io (disk s) (rw s) = (d, r, None)"
    "on_disk (s\<lparr>disk := d, rw := r\<rparr>) (B @ [(currentSegment (rw s), bs)]) [] (Suc hi)"
proof -
  note D = on_disk_D [OF od] and N = on_disk_names [OF od]
  obtain lo where lo: "segments (rw s) = seg_names lo hi" using D(3) by blast
  let ?name = "segmentName (word_of_nat hi)"
  have ne: "seg_names lo hi \<noteq> []" using D(2) lo by (metis snoc_eq_iff_butlast)
  then obtain k where k: "hi = Suc k" "lo \<le> k" "last (segments (rw s)) = segmentName (word_of_nat k)"
    using last_seg_names lo by metis
  then have "parseSegmentSeq (last (segments (rw s))) = Some (word_of_nat k)"
    using hi by (simp add: parseSegmentSeq_segmentName unat_small)
  moreover have "(word_of_nat k :: u32) + 1 = word_of_nat hi"
    using k(1) by simp
  moreover have names: "seg_names lo (Suc hi) = segments (rw s) @ [?name]"
    using seg_names_Suc [of lo hi] k lo by simp
  moreover have new: "?name \<notin> fst ` set (disk s)"
    using D(5) names sorted_seg_names [of "Suc hi" lo] hi snapFilename_not_segment [of "Suc hi" lo]
    by (auto simp: sorted_wrt_append)
  then have "newWAL good_io (disk s) ?name = (set_file (disk s) ?name [], Inr (handle (set_file (disk s) ?name []) ?name))"
    by (simp add: newWAL_def good_io_def handle_def map_of_eq_None_iff)
  moreover have "wopen (current (rw s))" using D(8) by (simp add: wal_ok_def)
  ultimately have cut: "cut good_io (disk s) (rw s) =
      (set_file (disk s) ?name [], (rw s)\<lparr>segments := segments (rw s) @ [?name],
        current := handle (set_file (disk s) ?name []) ?name\<rparr>, None)" (is "_ = (?d, ?r, None)")
    by (simp add: cut_def wal_sync_def wal_close_def Let_def) (simp add: good_io_def)
  let ?s = "s\<lparr>disk := ?d, rw := ?r\<rparr>"
  have "?name \<noteq> snapFilename" "?name \<noteq> currentSegment (rw s)" "\<forall>seg \<in> set B. fst seg \<noteq> ?name"
    using new D(2,5) by (auto simp: image_iff)
  moreover have "run_segments replay_batch ((B @ [(currentSegment (rw s), bs)]) @ [(?name, [])])
      (?s\<lparr>hs := empty_HardState, entries := [], segLastIdx := Map.empty\<rparr>) = Inr ?s"
    using run_segments_rehome [OF D(12), of ?s]
    by (subst run_segments_append) (simp add: rehome_def)
  ultimately have "on_disk ?s (B @ [(currentSegment (rw s), bs)]) [] (Suc hi)"
    using D hi names
    by (auto simp: on_disk_def currentSegment_def distinct_set_file holds_segment_set_file
        wal_ok_def map_of_set_file holds_segment_def [of _ "(_, [])"] frames_of_def
        intro!: exI [of _ lo])
  with cut that show ?thesis by blast
qed

lemma frame_fits_save: "save_fits es \<Longrightarrow> frame_fits (encodeSaveBatch h es)"
  by (simp add: frame_fits_def length_encodeSaveBatch save_fits_def)

lemma seg_write_good:
  assumes "on_disk s B bs hi"
  shows "\<exists>p. seg_write good_io (disk s) (rw s) b =
    (set_file (disk s) (currentSegment (rw s)) (frames_of (bs @ [b])),
     (rw s)\<lparr>current := (current (rw s))\<lparr>wsize := int (length (frames_of (bs @ [b]))), wpos := p\<rparr>\<rparr>, None)"
proof -
  have "wopen (current (rw s))" "wsize (current (rw s)) = int (length (frames_of bs))"
    "file_bytes (disk s) (currentSegment (rw s)) = frames_of bs"
    using on_disk_D(7,8) [OF assms]
    by (simp_all add: wal_ok_def holds_segment_def file_bytes_def currentSegment_def)
  then show ?thesis
    by (auto simp: seg_write_def wal_write_good Let_def frames_of_snoc currentSegment_def)
qed

lemma maybeCut_good:
  assumes "on_disk s B bs hi" "hi < 10 ^ 8"
  shows "\<exists>d r B' bs' hi'. maybeCut good_io (disk s) (rw s) = (d, r, None)
    \<and> on_disk (s\<lparr>disk := d, rw := r\<rparr>) B' bs' hi' \<and> hi' \<le> Suc hi"
proof (cases "segmentLimit (rw s) \<le> wsize (current (rw s))")
  case True
  obtain d r where "cut good_io (disk s) (rw s) = (d, r, None)"
    "on_disk (s\<lparr>disk := d, rw := r\<rparr>) (B @ [(currentSegment (rw s), bs)]) [] (Suc hi)"
    using cut_good [OF assms] .
  with True show ?thesis unfolding maybeCut_def by (metis order_refl)
next
  case False
  then have "maybeCut good_io (disk s) (rw s) = (disk s, rw s, None)" by (simp add: maybeCut_def)
  moreover have "s\<lparr>disk := disk s, rw := rw s\<rparr> = s" by simp
  ultimately show ?thesis using assms(1) by (metis le_SucI order_refl)
qed

text \<open>
  A successful \<open>Save\<close>: the hard state and the entries are in memory and on disk, whether or
  not the segment was cut.
\<close>

lemma Save_good:
  assumes od: "on_disk s B bs hi" and hi: "hi < 10 ^ 8" and ok: "storage_ok s"
    and ext: "extends s es" and fits: "save_fits es"
  obtains t B' bs' hi' where "Save good_io good_io s es hard = Inr (t, None)"
    "hs t = effective_hard s hard" "entries t = saved_entries s es" "snap t = snap s"
    "storage_ok t" "on_disk t B' bs' hi'" "hi' \<le> Suc hi"
proof (cases "es = [] \<and> IsEmptyHardState hard")
  case True
  then have "Save good_io good_io s es hard = Inr (s, None)" "effective_hard s hard = hs s"
    "saved_entries s es = entries s"
    by (auto simp: Save_def effective_hard_def saved_entries_def split: option.split)
  with that [of s B bs hi] od ok show ?thesis by simp
next
  case False
  let ?h = "effective_hard s hard" and ?cur = "currentSegment (rw s)"
  let ?b = "encodeSaveBatch ?h es"
  let ?m = "if es = [] then segLastIdx s else (segLastIdx s)(?cur \<mapsto> eIndex (last es))"
  let ?t = "s\<lparr>hs := ?h, entries := saved_entries s es, segLastIdx := ?m\<rparr>"
  obtain d1 r1 p where d1: "d1 = set_file (disk s) ?cur (frames_of (bs @ [?b]))"
    and r1: "r1 = (rw s)\<lparr>current := (current (rw s))\<lparr>wsize := int (length (frames_of (bs @ [?b]))), wpos := p\<rparr>\<rparr>"
    and w: "seg_write good_io (disk s) (rw s) ?b = (d1, r1, None)"
    using seg_write_good [OF od, of ?b] by blast
  let ?t1 = "?t\<lparr>disk := d1, rw := r1\<rparr>"
  have od1: "on_disk ?t1 B (bs @ [?b]) hi"
    using on_disk_write [OF od frame_fits_save [OF fits] replay_saved_batch [OF ok ext fits] d1 r1] .
  have sync: "seg_sync good_io r1 = None" and cur1: "currentSegment r1 = ?cur"
    using on_disk_D(8) [OF od1] r1
    by (simp_all add: seg_sync_def wal_sync_def wal_ok_def good_io_def currentSegment_def)
  obtain d3 r3 B' bs' hi' where c: "maybeCut good_io d1 r1 = (d3, r3, None)"
    and od3: "on_disk (?t\<lparr>disk := d3, rw := r3\<rparr>) B' bs' hi'" "hi' \<le> Suc hi"
    using maybeCut_good [OF od1 hi] by force
  let ?s3 = "s\<lparr>segLastIdx := ?m, disk := d3, rw := r3, hs := ?h\<rparr>"
  have "storage_ok ?s3" "extends ?s3 es" "saved_entries ?s3 es = saved_entries s es"
    using ok ext by (simp_all add: storage_ok_def extends_def saved_entries_def)
  then have ta: "storage_truncateAndAppend ?s3 es = Inr (?s3\<lparr>entries := saved_entries s es\<rparr>, None)"
    "storage_ok (?s3\<lparr>entries := saved_entries s es\<rparr>)"
    using extends_truncateAndAppend by metis+
  have "Save good_io good_io s es hard = storage_truncateAndAppend ?s3 es"
    using False w sync c cur1 unfolding Save_def effective_hard_def [symmetric] Let_def
    by (cases "es = []") simp_all
  moreover have "?s3\<lparr>entries := saved_entries s es\<rparr> = ?t\<lparr>disk := d3, rw := r3\<rparr>" by simp
  ultimately show ?thesis
    using that [of "?t\<lparr>disk := d3, rw := r3\<rparr>" B' bs' hi'] ta od3 by (simp only:) simp
qed

text \<open>A new directory.\<close>

lemma seg_names_0: "seg_names 0 1 = [segmentName 0]"
  by (simp add: seg_names_def)

lemma open_new:
  obtains s where "NewDurableStorageWithOptions good_io [] limit thr = (disk s, Inr s)"
    "hs s = empty_HardState" "entries s = []" "snap s = empty_SnapshotMeta"
    "storage_ok s" "on_disk s [] [] 1"
proof -
  let ?n = "segmentName 0"
  have ne: "?n \<noteq> snapFilename"
    using snapFilename_not_segment [of 1 0] seg_names_0 by auto
  let ?d = "[(?n, []), (snapFilename, [])]"
  let ?s = "opened ?d limit thr [?n]"
  have f: "file_bytes ?d ?n = []" "file_bytes ?d snapFilename = []"
    using ne by (simp_all add: file_bytes_def)
  have e: "\<exists>p. s\<lparr>sw := handle ?d snapFilename\<lparr>wpos := p\<rparr>\<rparr> = s" if "sw s = handle ?d snapFilename" for s
    using that by (intro exI [of _ 0]) (simp add: handle_def)
  have od: "on_disk ?s [] [] 1"
    using ne f by (auto simp: on_disk_def currentSegment_def seg_names_def holds_segment_def
        frames_of_def wal_ok_def opened_def intro!: exI [of _ 0])
  have "NewDurableStorageWithOptions good_io [] limit thr = replay good_io ?s"
    using ne by (auto simp: NewDurableStorageWithOptions_def newSegmentedWAL_def newWAL_def good_io_def
      listSegments_def Let_def opened_def handle_def set_file_def file_bytes_def)
  moreover have "NewDurableStorageWithOptions good_io ?d limit thr = replay good_io ?s"
    using open_directory [of ?d 0 1] ne seg_names_0 by auto
  moreover have "torn_disk ?s [] 0 [] = ?d" using torn_disk_0 [OF od] by simp
  moreover obtain t where "NewDurableStorageWithOptions good_io (torn_disk ?s [] 0 []) limit thr = (disk t, Inr t)"
    "hs t = hs ?s" "entries t = entries ?s" "snap t = snap ?s" "on_disk t [] [] 1"
    by (rule crash_recovery [OF od, of "[]" 0]) (auto simp: frame_fits_def)
  ultimately show ?thesis
    using that [of t] by (simp add: storage_ok_def log_well_def opened_def empty_SnapshotMeta_def)
qed

text \<open>
  A \<open>Save\<close> whose write stops after \<open>k\<close> bytes, followed by a restart: the batch is there
  if all of it reached the file, and otherwise nothing of it is.
\<close>

lemma Save_crash:
  assumes od: "on_disk s B bs hi" and ok: "storage_ok s" and ext: "extends s es" and fits: "save_fits es"
    and ne: "\<not> (es = [] \<and> IsEmptyHardState hard)" and io: "io_write io = Some k"
  defines "b \<equiv> encodeSaveBatch (effective_hard s hard) es"
  obtains s1 t bs' where "Save io cio s es hard = Inr (s1, Some ErrIO)"
    "NewDurableStorageWithOptions good_io (disk s1) limit thr = (disk t, Inr t)"
    "storage_ok t" "snap t = snap s" "on_disk t B bs' hi"
    "hs t = (if k < length (wal_frame b) then hs s else effective_hard s hard)"
    "entries t = (if k < length (wal_frame b) then entries s else saved_entries s es)"
proof -
  let ?cur = "currentSegment (rw s)"
  have w: "wopen (current (rw s))" "file_bytes (disk s) ?cur = frames_of bs"
    using on_disk_D(7,8) [OF od]
    by (simp_all add: wal_ok_def holds_segment_def file_bytes_def currentSegment_def)
  have d: "\<exists>r. seg_write io (disk s) (rw s) b = (torn_disk s bs k b, r, Some ErrIO)"
    using w io by (auto simp: seg_write_def wal_write_eq Let_def torn_disk_def currentSegment_def min_def)
  then obtain s1 where s1: "Save io cio s es hard = Inr (s1, Some ErrIO)" "disk s1 = torn_disk s bs k b"
    using ne unfolding Save_def effective_hard_def [symmetric] b_def [symmetric] Let_def by auto
  have fb: "frame_fits b" unfolding b_def using fits by (rule frame_fits_save)
  show ?thesis
  proof (cases "k < length (wal_frame b)")
    case True
    show ?thesis
      using crash_recovery [OF od fb True, of limit thr] that [OF s1(1)] s1(2) True ok
      by (auto simp: storage_ok_def)
  next
    case False
    let ?b = "encodeSaveBatch (effective_hard s hard) es"
    obtain t0 where t0: "replay_batch ?cur b s = Inr t0" "hs t0 = effective_hard s hard"
      "entries t0 = saved_entries s es" "snap t0 = snap s"
      using replay_saved_batch [OF ok ext fits, of ?cur] unfolding b_def by simp
    let ?t1 = "t0\<lparr>disk := set_file (disk s) ?cur (frames_of (bs @ [b])),
      rw := (rw s)\<lparr>current := (current (rw s))\<lparr>wsize := int (length (frames_of (bs @ [b]))), wpos := 0\<rparr>\<rparr>\<rparr>"
    have od1: "on_disk ?t1 B (bs @ [b]) hi" by (rule on_disk_write [OF od fb t0(1) refl refl])
    have "torn_disk ?t1 (bs @ [b]) 0 b = torn_disk s bs k b"
      using False torn_disk_0 [OF od1] by (simp add: torn_disk_def frames_of_snoc)
    moreover have "storage_ok (s\<lparr>entries := saved_entries s es\<rparr>)"
      using extends_truncateAndAppend(2) [OF ok ext] .
    ultimately show ?thesis
      using crash_recovery [OF od1 fb, of 0 limit thr] that [OF s1(1)] s1(2) False t0
      by (auto simp: storage_ok_def)
  qed
qed

section \<open>Histories\<close>

text \<open>
  What happens to a directory: it is created, batches are saved, the process stops in the
  middle of a write, the directory is opened again. \<open>n\<close> counts the saves.
\<close>

inductive durable_run :: "nat \<Rightarrow> DurableStorage \<Rightarrow> bool" where
  run_new: "NewDurableStorageWithOptions good_io [] limit thr = (d, Inr s) \<Longrightarrow> durable_run 0 s"
| run_save: "durable_run n s \<Longrightarrow> extends s es \<Longrightarrow> save_fits es \<Longrightarrow>
    Save good_io good_io s es hard = Inr (t, None) \<Longrightarrow> durable_run (Suc n) t"
| run_crash: "durable_run n s \<Longrightarrow> extends s es \<Longrightarrow> save_fits es \<Longrightarrow> io_write io = Some k \<Longrightarrow>
    Save io cio s es hard = Inr (s1, Some err) \<Longrightarrow>
    NewDurableStorageWithOptions good_io (disk s1) limit thr = (d, Inr t) \<Longrightarrow> durable_run n t"
| run_reopen: "durable_run n s \<Longrightarrow>
    NewDurableStorageWithOptions good_io (disk s) limit thr = (d, Inr t) \<Longrightarrow> durable_run n t"

lemma open_whole:
  assumes "on_disk s B bs hi"
  obtains t where "NewDurableStorageWithOptions good_io (disk s) limit thr = (disk t, Inr t)"
    "hs t = hs s" "entries t = entries s" "snap t = snap s" "segLastIdx t = segLastIdx s" "on_disk t B bs hi"
  using crash_recovery [OF assms, of "[]" 0 limit thr] torn_disk_0 [OF assms] that
  by (auto simp: frame_fits_def)

lemma durable_run_on_disk:
  "durable_run n s \<Longrightarrow> n + 1 < 10 ^ 8 \<Longrightarrow>
     storage_ok s \<and> (\<exists>B bs hi. on_disk s B bs hi \<and> hi \<le> Suc n)"
proof (induction rule: durable_run.induct)
  case (run_new limit thr d s)
  then show ?case using open_new [of limit thr] by (metis One_nat_def Inr_inject order_refl prod.inject)
next
  case (run_save n s es hard t)
  then obtain B bs hi where od: "storage_ok s" "on_disk s B bs hi" "hi \<le> Suc n" by auto
  then have "hi < 10 ^ 8" using run_save.prems by simp
  then show ?case
    using Save_good [OF od(2) _ od(1) run_save.hyps(2,3), of hard] run_save.hyps(4) od(3)
    by (metis Suc_le_mono Inr_inject order_trans prod.inject)
next
  case (run_crash n s es io k cio hard s1 err limit thr d t)
  then obtain B bs hi where od: "storage_ok s" "on_disk s B bs hi" "hi \<le> Suc n" by auto
  have "\<not> (es = [] \<and> IsEmptyHardState hard)" using run_crash.hyps(5) by (auto simp: Save_def)
  then show ?case
    using Save_crash [OF od(2,1) run_crash.hyps(2,3) _ run_crash.hyps(4), of hard cio limit thr]
      run_crash.hyps(5,6) od(3) by (metis Inr_inject prod.inject)
next
  case (run_reopen n s limit thr d t)
  then obtain B bs hi where od: "storage_ok s" "on_disk s B bs hi" "hi \<le> Suc n" by auto
  obtain u where u: "NewDurableStorageWithOptions good_io (disk s) limit thr = (disk u, Inr u)"
    "entries u = entries s" "snap u = snap s" "on_disk u B bs hi"
    using open_whole [OF od(2)] by blast
  then have "t = u" using run_reopen.hyps(2) by simp
  with u od show ?case by (auto simp: storage_ok_def)
qed

text \<open>C2. Durability of the raft log. Take any storage that was created empty and has since been
  saved to, torn by crashes in the middle of a write and reopened, in any order. Opening its directory
  succeeds and gives back the hard state, the entries and the snapshot that the storage has in memory. The
  next save, if it works, ends with the hard state given and with its entries in place of the log from their
  first index on, and reopening gives back just these. If a crash cuts its write off after \<open>k\<close> bytes, reopening
  succeeds as well; it gives back the state from before the save when the record is not complete, and the
  saved state when it is. Saves continue the log and fit the record format; the runs are those before the first
  snapshot or compaction.\<close>

theorem restart_preserves_log:
  assumes "durable_run n s" "n + 1 < 10 ^ 8" and "extends s es" "save_fits es"
  shows "(\<exists>t. NewDurableStorageWithOptions good_io (disk s) limit thr = (disk t, Inr t)
      \<and> hs t = hs s \<and> entries t = entries s \<and> snap t = snap s)
    \<and> (\<exists>t u. Save good_io good_io s es hard = Inr (t, None)
      \<and> hs t = effective_hard s hard \<and> entries t = saved_entries s es \<and> snap t = snap s
      \<and> NewDurableStorageWithOptions good_io (disk t) limit thr = (disk u, Inr u)
      \<and> hs u = hs t \<and> entries u = entries t \<and> snap u = snap t)
    \<and> (io_write io = Some k \<and> \<not> (es = [] \<and> IsEmptyHardState hard) \<longrightarrow>
      (\<exists>s1 t. Save io cio s es hard = Inr (s1, Some ErrIO)
        \<and> NewDurableStorageWithOptions good_io (disk s1) limit thr = (disk t, Inr t) \<and> snap t = snap s
        \<and> (if k < length (wal_frame (encodeSaveBatch (effective_hard s hard) es))
           then hs t = hs s \<and> entries t = entries s
           else hs t = effective_hard s hard \<and> entries t = saved_entries s es)))"
proof -
  obtain B bs hi where od: "storage_ok s" "on_disk s B bs hi" "hi \<le> Suc n" using durable_run_on_disk [OF assms(1,2)] by blast
  then have hi: "hi < 10 ^ 8" using assms(2) by simp
  have "\<exists>t. NewDurableStorageWithOptions good_io (disk s) limit thr = (disk t, Inr t)
      \<and> hs t = hs s \<and> entries t = entries s \<and> snap t = snap s"
    using open_whole [OF od(2)] by metis
  moreover have "\<exists>t u. Save good_io good_io s es hard = Inr (t, None)
      \<and> hs t = effective_hard s hard \<and> entries t = saved_entries s es \<and> snap t = snap s
      \<and> NewDurableStorageWithOptions good_io (disk t) limit thr = (disk u, Inr u)
      \<and> hs u = hs t \<and> entries u = entries t \<and> snap u = snap t"
    using Save_good [OF od(2) hi od(1) assms(3,4), of hard] open_whole by metis
  moreover have "\<exists>s1 t. Save io cio s es hard = Inr (s1, Some ErrIO)
        \<and> NewDurableStorageWithOptions good_io (disk s1) limit thr = (disk t, Inr t) \<and> snap t = snap s
        \<and> (if k < length (wal_frame (encodeSaveBatch (effective_hard s hard) es))
           then hs t = hs s \<and> entries t = entries s
           else hs t = effective_hard s hard \<and> entries t = saved_entries s es)"
    if "io_write io = Some k" "\<not> (es = [] \<and> IsEmptyHardState hard)"
    using Save_crash [OF od(2,1) assms(3,4) that(2,1), of cio limit thr] by metis
  ultimately show ?thesis by blast
qed

definition sample_entry :: Entry where
  "sample_entry = \<lparr>eIndex = 1, eTerm = 1, eData = [42]\<rparr>"

definition sample_hard :: HardState where
  "sample_hard = \<lparr>hTerm = 1, hVotedFor = 2, hCommit = 0\<rparr>"

lemma sample_run:
  obtains s t where "durable_run 0 s" "hs s = empty_HardState" "entries s = []" "extends s [sample_entry]"
    "Save good_io good_io s [sample_entry] (Some sample_hard) = Inr (t, None)"
    "durable_run 1 t" "hs t = sample_hard" "entries t = [sample_entry]"
proof -
  obtain s where s: "NewDurableStorageWithOptions good_io [] 0 0 = (disk s, Inr s)"
    "hs s = empty_HardState" "entries s = []" "snap s = empty_SnapshotMeta" "storage_ok s" "on_disk s [] [] 1"
    using open_new by blast
  have ext: "extends s [sample_entry]" "save_fits [sample_entry]"
    using s by (simp_all add: extends_def empty_SnapshotMeta_def sample_entry_def save_fits_def entrySize_def)
  have eff: "effective_hard s (Some sample_hard) = sample_hard" "saved_entries s [sample_entry] = [sample_entry]"
    using s by (simp_all add: effective_hard_def IsEmptyHardState_def sample_hard_def saved_entries_def)
  obtain t where t: "Save good_io good_io s [sample_entry] (Some sample_hard) = Inr (t, None)"
    "hs t = sample_hard" "entries t = [sample_entry]"
    using Save_good [OF s(6) _ s(5) ext, of "Some sample_hard"] eff by auto
  have "durable_run 0 s" using s(1) by (rule run_new)
  moreover from this ext t(1) have "durable_run 1 t" by (metis One_nat_def run_save)
  ultimately show ?thesis using that s(2,3) ext(1) t by blast
qed

theorem restart_preserves_log_witness:
  "\<exists>s t u. durable_run 0 s
     \<and> Save good_io good_io s [sample_entry] (Some sample_hard) = Inr (t, None) \<and> durable_run 1 t
     \<and> NewDurableStorageWithOptions good_io (disk t) 0 0 = (disk u, Inr u) \<and> hs u = sample_hard \<and> entries u = [sample_entry]
     \<and> (\<exists>t1 v. Save (good_io\<lparr>io_write := Some 3\<rparr>) good_io t [] (Some (sample_hard\<lparr>hTerm := 2\<rparr>)) = Inr (t1, Some ErrIO)
       \<and> NewDurableStorageWithOptions good_io (disk t1) 0 0 = (disk v, Inr v) \<and> hs v = sample_hard \<and> entries v = [sample_entry])"
proof -
  obtain s t where st: "durable_run 0 s" "Save good_io good_io s [sample_entry] (Some sample_hard) = Inr (t, None)"
    "durable_run 1 t" "hs t = sample_hard" "entries t = [sample_entry]"
    using sample_run by blast
  have "extends t []" "save_fits []" "\<not> IsEmptyHardState (Some (sample_hard\<lparr>hTerm := 2\<rparr>))"
    by (simp_all add: extends_def save_fits_def IsEmptyHardState_def sample_hard_def)
  moreover have "3 < length (wal_frame b)" for b by (simp add: wal_frame_def)
  ultimately show ?thesis
    using restart_preserves_log [of 1 t "[]" 0 0 "Some (sample_hard\<lparr>hTerm := 2\<rparr>)" "good_io\<lparr>io_write := Some 3\<rparr>" 3 good_io] st
    by auto
qed

end
