(* ===== verification/Raft_Total.thy ===== *)
theory Raft_Total
  imports Raft_Safety
begin

text \<open>
  The well-formedness of a node, \<open>raft_ok\<close>, and the messages that keep it: for these, no
  operation panics and the result is well formed again. The conditions on a message name
  what the code relies on without checking it.
\<close>

section \<open>Reading the log never panics\<close>

lemma Term_total: "storage_ok s \<Longrightarrow> \<exists>t. Term s i = Inr t"
  using Term_ok [of s i] Term_before [of i s] Term_after [of s i]
  by (cases "unat i < storage_base s"; cases "storage_base s + length (entries s) < unat i") auto

lemma log_term_of_total:
  assumes "log_shape l"
  shows "\<exists>t. log_term_of l i = Inr t"
proof -
  note D = log_shape_D [OF assms]
  have "\<exists>t. maybeTerm (unstable l) i = Inr t"
    using unat_offset_end(1) [OF assms]
    by (auto simp: maybeTerm_def nth_go_def unat_minus_le word_as_nat)
  then show ?thesis
    using Term_total [OF D(1), of i] by (auto simp: log_term_of_def split: option.split)
qed

lemma Entries_total:
  assumes "storage_ok s"
  shows "\<exists>es. Entries s lo hi = Inr es"
proof -
  have "slice_go (unat (lo - FirstIndex s)) (unat (hi - FirstIndex s)) (entries s) \<noteq> Inl e"
    if "entries s \<noteq> []" "FirstIndex s \<le> lo" "lo \<le> hi" "lo \<noteq> hi" "hi \<le> LastIndex s + 1" for e
  proof -
    have "unat (LastIndex s + 1) = Suc (storage_base s + length (entries s))"
      using LastIndex_ok [OF assms] assms log_well_D(2) by (subst unat_succ) (simp_all add: storage_ok_def)
    moreover have "unat (FirstIndex s) = Suc (storage_base s)" using FirstIndex_ok [OF assms that(1)] .
    ultimately show ?thesis using that by (auto simp: slice_go_def unat_minus_le word_as_nat)
  qed
  then show ?thesis
    by (cases "slice_go (unat (lo - FirstIndex s)) (unat (hi - FirstIndex s)) (entries s)")
      (auto simp: Entries_def Let_def not_less)
qed

lemma log_slice_of_total:
  assumes sh: "log_shape l" and hi: "unat hi \<le> Suc (log_base l + length (log_contents l))"
  shows "\<exists>es. log_slice_of l lo hi = Inr es"
proof -
  let ?off = "offset (unstable l)" and ?us = "uentries (unstable l)"
  note D = log_shape_D [OF sh] and L = length_log_contents [OF sh] and U = unat_offset_end [OF sh]
  have "\<exists>us. slice_go (unat (max lo ?off - ?off)) (unat (if hi - ?off > word_of_nat (length ?us)
      then word_of_nat (length ?us) else hi - ?off)) ?us = Inr us" if "lo < hi" "?off < hi"
  proof -
    have "unat (max lo ?off - ?off) = max (unat lo) (unat ?off) - unat ?off" "unat (hi - ?off) = unat hi - unat ?off"
      using that by (simp_all add: unat_minus_le word_as_nat)
    moreover have "unat hi - unat ?off \<le> length ?us" using hi L by simp
    ultimately show ?thesis using that U(2) by (auto simp: slice_go_def word_as_nat)
  qed
  moreover have "\<exists>x. (if lo < ?off then Entries (storage l) lo (min hi ?off) else Inr (Inr [])) = Inr x"
    using Entries_total [OF D(1)] by auto
  ultimately show ?thesis
    by (auto simp: log_slice_of_def Let_def not_le split: sum.split)
qed

lemma matchTerm_total: "log_shape l \<Longrightarrow> \<exists>b. matchTerm l i t = Inr b"
  using log_term_of_total [of l i] by (auto simp: matchTerm_def)

section \<open>Sending never panics\<close>

lemma send_total:
  assumes "mType m \<noteq> MsgPreVote" "mType m \<noteq> MsgPreVoteResp" "mType m \<noteq> MsgVote" "mType m \<noteq> MsgVoteResp"
  shows "yields (outputs r) (send r m)"
proof -
  have "\<exists>r'. send r m = Inr r'" using assms by (simp add: send_def Let_def)
  then obtain r' where "send r m = Inr r'" ..
  moreover from this have "outputs r r'" by (rule outputs_send) (use assms in \<open>simp add: vote_msg_def\<close>)
  ultimately show ?thesis by simp
qed

lemma sendAppend_total:
  assumes "log_shape (rlog r)"
  shows "yields (outputs r) (sendAppend to r)"
proof -
  have last: "unat (lastIndex (rlog r) + 1) \<le> Suc (log_base (rlog r) + length (log_contents (rlog r)))"
    using lastIndex_ok [OF assms] log_well_D(2) [OF log_well_contents [OF assms]]
    by (subst unat_succ) simp_all
  show ?thesis
  proof (cases "Progress_of (trk r) to")
    case None
    then show ?thesis by (simp add: sendAppend_def)
  next
    case (Some p)
    obtain t where t: "log_term_of (rlog r) (NextIndex p - 1) = Inr t" using log_term_of_total [OF assms] by blast
    obtain es where es: "log_slice_of (rlog r) (NextIndex p) (lastIndex (rlog r) + 1) = Inr es"
      using log_slice_of_total [OF assms last] by blast
    show ?thesis
      by (cases t) (simp_all add: sendAppend_def Some Let_def t es send_total)
  qed
qed

lemma bcastAppend_total:
  assumes "log_shape (rlog r)"
  shows "yields (outputs r) (bcastAppend r)"
  unfolding bcastAppend_def
proof (rule yields_fold_then)
  show "yields (outputs r) (if n = rid s then Inr s else sendAppend n s)" if "outputs r s" for n s
    using that sendAppend_total [of s n] assms outputs_sel(4) [OF that]
    by (auto elim: yields_mono intro: outputs_trans)
qed simp

lemma bcastHeartbeat_total: "yields (outputs r) (bcastHeartbeat r ctx)"
  unfolding bcastHeartbeat_def
  by (rule yields_fold_then) (auto intro!: yields_mono [OF send_total] intro: outputs_trans split: prod.split)

lemma respondReadIndexReq_total: "yields (outputs r) (respondReadIndexReq r m i)"
  by (simp add: respondReadIndexReq_def outputsI send_total)

section \<open>Well-formed nodes\<close>

text \<open>A leader knows of nobody beyond the end of its own log.\<close>

definition acked_ok :: "Raft \<Rightarrow> bool" where
  "acked_ok r \<longleftrightarrow> (\<forall>n pr. Progress_of (trk r) n = Some pr \<longrightarrow> MatchIndex pr \<le> lastIndex (rlog r))"

definition raft_ok :: "Raft \<Rightarrow> bool" where
  "raft_ok r \<longleftrightarrow> log_ok (rlog r) \<and> tracker_ok (trk r) \<and> rid r \<in> set (Voters (trk r))
     \<and> readOnly_ok (read_only r) \<and> role_ok r \<and> (state r = Leader \<longrightarrow> acked_ok r)"

definition log_room :: "raftLog \<Rightarrow> bool" where
  "log_room l \<longleftrightarrow> log_base l + length (log_contents l) + 2 < 2 ^ 64"

lemma raft_ok_D:
  assumes "raft_ok r"
  shows "log_ok (rlog r)" "log_shape (rlog r)" "tracker_ok (trk r)" "rid r \<in> set (Voters (trk r))"
    "readOnly_ok (read_only r)" "role_ok r" "state r = Leader \<Longrightarrow> acked_ok r"
  using assms by (simp_all add: raft_ok_def log_ok_def)

lemma raft_ok_cong:
  assumes "raft_ok r" "rlog r' = rlog r" "trk r' = trk r" "rid r' = rid r" "read_only r' = read_only r"
    "state r' = state r" "step_fn r' = step_fn r" "tick_fn r' = tick_fn r"
  shows "raft_ok r'"
  using assms by (simp add: raft_ok_def role_ok_def acked_ok_def)

lemma raft_ok_outputs: "outputs r r' \<Longrightarrow> raft_ok r \<Longrightarrow> raft_ok r'"
  by (erule raft_ok_cong) (simp_all only: outputs_sel)

lemma raft_ok_soft:
  assumes "raft_ok r"
  shows "raft_ok (r\<lparr>electionElapsed := k\<rparr>)" "raft_ok (r\<lparr>heartbeatElapsed := k\<rparr>)" "raft_ok (r\<lparr>lead := x\<rparr>)"
    "raft_ok (r\<lparr>leadTransferee := x\<rparr>)" "raft_ok (r\<lparr>votedFor := x\<rparr>)" "raft_ok (r\<lparr>pendingReadIndexRequests := ps\<rparr>)"
    "raft_ok (r\<lparr>messages := ms\<rparr>)" "raft_ok (r\<lparr>msgsAfterAppend := ms\<rparr>)"
  by (rule raft_ok_cong [OF assms]; simp)+

lemma raft_ok_trk:
  assumes "raft_ok r" "same_config (trk r) t" "state r = Leader \<Longrightarrow> acked_ok (r\<lparr>trk := t\<rparr>)"
  shows "raft_ok (r\<lparr>trk := t\<rparr>)"
  using assms same_config_ok [OF assms(2)] by (simp add: raft_ok_def role_ok_def same_config_def)

lemma raft_ok_becomeFollower: "raft_ok r \<Longrightarrow> raft_ok (becomeFollower r t ld)"
  using same_config_ok [OF becomeFollower_config [of r t ld]] becomeFollower_config [of r t ld]
  by (simp add: raft_ok_def becomeFollower_role same_config_def)

lemma raft_ok_becomePreCandidate: "raft_ok r \<Longrightarrow> state r \<noteq> Leader \<Longrightarrow> raft_ok (becomePreCandidate r)"
  by (simp add: raft_ok_def becomePreCandidate_def role_ok_def)

lemma raft_ok_becomeCandidate: "raft_ok r \<Longrightarrow> raft_ok (becomeCandidate r)"
  using same_config_ok [OF reset_config [of "r\<lparr>state := Candidate, step_fn := stepFunc_Candidate,
    tick_fn := tickFunc_Election\<rparr>" "trk r" "cur_term r + 1"]]
    reset_config [of "r\<lparr>state := Candidate, step_fn := stepFunc_Candidate,
    tick_fn := tickFunc_Election\<rparr>" "trk r" "cur_term r + 1"]
  by (simp add: raft_ok_def becomeCandidate_def Let_def role_ok_def same_config_def)

lemma raft_ok_RecordVote: "raft_ok r \<Longrightarrow> raft_ok (r\<lparr>trk := RecordVote (trk r) n v\<rparr>)"
  by (rule raft_ok_trk) (simp_all add: raft_ok_def acked_ok_def)

section \<open>Appending\<close>

lemma own_entry_ok:
  assumes ok: "log_ok l" and room: "log_room l"
  obtains l' where "appendEntries l [\<lparr>eIndex = lastIndex l + 1, eTerm = t, eData = d\<rparr>] = Inr (l', lastIndex l')"
    "log_ok l'" "log_contents l' = log_contents l @ [\<lparr>eIndex = lastIndex l + 1, eTerm = t, eData = d\<rparr>]"
    "storage l' = storage l" "committed l' = committed l" "applied l' = applied l" "lastIndex l \<le> lastIndex l'"
proof -
  let ?e = "\<lparr>eIndex = lastIndex l + 1, eTerm = t, eData = d\<rparr>" and ?f = "Suc (log_base l + length (log_contents l))"
  note O = log_ok_D [OF ok] and last = lastIndex_ok [OF log_ok_D(1) [OF ok]]
  have "unat (lastIndex l + 1) = ?f" using room last by (subst unat_succ) (simp_all add: log_room_def)
  then have c: "contiguous_from ?f [?e]" by simp
  obtain l' where l': "appendEntries l [?e] = Inr (l', lastIndex l')" "log_ok l'" "log_contents l' = appended l ?f [?e]"
    "storage l' = storage l" "committed l' = committed l" "applied l' = applied l"
    using appendEntries_ok [OF ok c] O(5) room by (auto simp: log_room_def)
  have "unat (lastIndex l') = Suc (unat (lastIndex l))"
    using lastIndex_ok [OF log_ok_D(1) [OF l'(2)]] l'(3,4) last by (simp add: appended_def)
  then have "lastIndex l \<le> lastIndex l'" by (simp add: word_le_unat)
  with that l' show ?thesis by (simp add: appended_def)
qed

definition appended_own :: "Raft \<Rightarrow> bytes \<Rightarrow> Raft \<Rightarrow> bool" where
  "appended_own r d r' \<longleftrightarrow> log_ok (rlog r')
     \<and> log_contents (rlog r') = log_contents (rlog r) @ [\<lparr>eIndex = lastIndex (rlog r) + 1, eTerm = cur_term r, eData = d\<rparr>]
     \<and> lastIndex (rlog r) \<le> lastIndex (rlog r') \<and> committed (rlog r') = committed (rlog r)
     \<and> outputs (r\<lparr>rlog := rlog r'\<rparr>) r'"

lemma appendEntry_total:
  assumes "log_ok (rlog r)" "log_room (rlog r)"
  shows "yields (appended_own r d) (appendEntry r d)"
proof -
  obtain l where l: "appendEntries (rlog r) [\<lparr>eIndex = lastIndex (rlog r) + 1, eTerm = cur_term r, eData = d\<rparr>] = Inr (l, lastIndex l)"
    "log_ok l" "log_contents l = log_contents (rlog r) @ [\<lparr>eIndex = lastIndex (rlog r) + 1, eTerm = cur_term r, eData = d\<rparr>]"
    "lastIndex (rlog r) \<le> lastIndex l" "committed l = committed (rlog r)"
    using own_entry_ok [OF assms] by metis
  have "yields (outputs (r\<lparr>rlog := l\<rparr>)) (send (r\<lparr>rlog := l\<rparr>) ((new_Message MsgAppResp)\<lparr>mTo := rid r, mIndex := lastIndex l\<rparr>))"
    by (rule send_total) simp_all
  then show ?thesis
    unfolding appendEntry_def Let_def l(1)
    by (simp, elim yields_mono) (frule outputs_sel(4), simp add: appended_own_def l(2-5))
qed


lemma appended_own_ok:
  assumes "appended_own r d r'" "raft_ok r"
  shows "raft_ok r'"
proof -
  have "raft_ok (r\<lparr>rlog := rlog r'\<rparr>)"
    using assms raft_ok_D [OF assms(2)]
    by (auto simp: raft_ok_def appended_own_def role_ok_def acked_ok_def intro: order_trans)
  with assms(1) show ?thesis using raft_ok_outputs by (auto simp: appended_own_def)
qed

lemma raft_ok_leader_role:
  assumes "raft_ok r"
  shows "raft_ok (leader_role r)"
proof -
  let ?r = "r\<lparr>state := Leader, step_fn := stepFunc_Leader, tick_fn := tickFunc_Heartbeat\<rparr>"
  have c: "same_config (trk r) (trk (reset ?r (cur_term r)))" by (rule reset_config) simp
  have "acked_ok (leader_role r)"
    by (auto simp: acked_ok_def leader_role_def Let_def)
  with assms c show ?thesis
    by (simp add: raft_ok_def leader_role_def Let_def role_ok_def same_config_ok [OF c]) (simp add: same_config_def)
qed

definition new_leader :: "Raft \<Rightarrow> Raft \<Rightarrow> bool" where
  "new_leader r r' \<longleftrightarrow> raft_ok r' \<and> state r' = Leader \<and> cur_term r' = cur_term r \<and> lead r' = rid r
     \<and> log_contents (rlog r') = log_contents (rlog r)
         @ [\<lparr>eIndex = lastIndex (rlog r) + 1, eTerm = cur_term r, eData = []\<rparr>]"

lemma becomeLeader_total:
  assumes "raft_ok r" "log_room (rlog r)"
  shows "yields (new_leader r) (becomeLeader r)"
proof -
  let ?r = "leader_role r"
  have sel: "rid ?r = rid r" "rlog ?r = rlog r" "state ?r = Leader" "cur_term ?r = cur_term r" "lead ?r = rid r"
    by (simp_all add: leader_role_def Let_def)
  have ok: "raft_ok ?r" using assms(1) by (rule raft_ok_leader_role)
  then obtain pr where pr: "Progress_of (trk ?r) (rid ?r) = Some pr"
    using Progress_of_domain [of "trk ?r" "rid ?r"] by (auto simp: raft_ok_def)
  let ?s = "?r\<lparr>trk := set_Progress (trk ?r) (rid ?r) (pr\<lparr>RecentActive := True\<rparr>)\<rparr>"
  have s: "raft_ok ?s"
  proof (rule raft_ok_trk [OF ok same_config_set_Progress [OF pr]])
    show "acked_ok ?s" using raft_ok_D(7) [OF ok sel(3)] pr by (auto simp: acked_ok_def)
  qed
  have "yields (appended_own ?s []) (appendEntry ?s [])"
    using s assms(2) sel by (intro appendEntry_total) (simp_all add: raft_ok_def)
  then have "yields (new_leader r) (and_then (appendEntry ?s []) bcastAppend)"
  proof (rule yields_and_then)
    fix r1 assume a: "appended_own ?s [] r1"
    then have ok1: "raft_ok r1" using appended_own_ok s by blast
    have "outputs (?s\<lparr>rlog := rlog r1\<rparr>) r1" using a by (simp add: appended_own_def)
    then have f: "state r1 = Leader" "cur_term r1 = cur_term r" "lead r1 = rid r"
      using sel by (simp_all add: outputs_sel(2,3,10))
    show "yields (new_leader r) (bcastAppend r1)"
    proof (rule yields_mono [OF bcastAppend_total])
      fix r2 assume "outputs r1 r2"
      then show "new_leader r r2"
        using ok1 raft_ok_outputs a sel f outputs_sel(2,3,4,10) [OF \<open>outputs r1 r2\<close>]
        by (simp add: new_leader_def appended_own_def)
    qed (rule raft_ok_D(2) [OF ok1])
  qed
  then show ?thesis by (simp add: becomeLeader_def Let_def pr)
qed

lemma bcastVote_total:
  assumes "log_shape (rlog r)" "u \<noteq> 0" "t = MsgVote \<or> t = MsgPreVote"
  shows "yields (\<lambda>r'. \<exists>ms. r' = r\<lparr>messages := ms\<rparr>) (bcastVote r t u)"
proof -
  let ?P = "\<lambda>r'. \<exists>ms. r' = r\<lparr>messages := ms\<rparr>"
  have "yields ?P (send s ((new_Message t)\<lparr>mTo := p, mTerm := u, mIndex := i, mLogTerm := lt\<rparr>))" if "?P s" for s p i lt
    using that assms(2,3) by (auto simp: send_def Let_def enqueue_def)
  moreover have "?P r" by (rule exI [of _ "messages r"]) simp
  ultimately show ?thesis
    unfolding bcastVote_def lastEntryID_ok [OF assms(1)] by (simp add: yields_fold_then)
qed

section \<open>Campaigns\<close>

lemma hup_election_total:
  assumes "raft_ok r" "log_room (rlog r)" "cur_term r + 1 \<noteq> 0" "t \<noteq> CampaignPreElection"
  shows "yields raft_ok (hup r t)"
proof (cases "state r = Leader")
  case True
  with assms(1) show ?thesis by (subst hup.simps) simp
next
  case False
  let ?r = "becomeCandidate r" and ?s = "(becomeCandidate r)\<lparr>trk := RecordVote (trk (becomeCandidate r)) (rid r) True\<rparr>"
  have s: "raft_ok ?s" using assms(1) raft_ok_becomeCandidate raft_ok_RecordVote by blast
  have "rlog ?s = rlog r" by (simp add: becomeCandidate_def Let_def)
  then have "yields raft_ok (becomeLeader ?s)" "yields raft_ok (bcastVote ?s MsgVote (cur_term ?s))"
    using becomeLeader_total [OF s] bcastVote_total [OF raft_ok_D(2) [OF s], of "cur_term ?s" MsgVote] assms(2,3) s
    by (auto elim!: yields_mono simp: new_leader_def raft_ok_soft)
  with False assms(4) show ?thesis by (subst hup.simps) (simp add: Let_def)
qed

lemma hup_total:
  assumes "raft_ok r" "log_room (rlog r)" "cur_term r + 1 \<noteq> 0"
  shows "yields raft_ok (hup r t)"
proof (cases "t = CampaignPreElection \<and> state r \<noteq> Leader")
  case False
  show ?thesis
  proof (cases "state r = Leader")
    case True
    with assms(1) show ?thesis by (subst hup.simps) simp
  next
    case 2: False
    with False assms show ?thesis by (intro hup_election_total) auto
  qed
next
  case True
  let ?s = "(becomePreCandidate r)\<lparr>trk := RecordVote (trk (becomePreCandidate r)) (rid (becomePreCandidate r)) True\<rparr>"
  have s: "raft_ok ?s" using assms(1) True raft_ok_becomePreCandidate raft_ok_RecordVote by blast
  have "rlog ?s = rlog r" "cur_term ?s = cur_term r" by (simp_all add: becomePreCandidate_def)
  then have "yields raft_ok (hup ?s CampaignElection)" "yields raft_ok (bcastVote ?s MsgPreVote (cur_term r + 1))"
    using hup_election_total [OF s, of CampaignElection] bcastVote_total [OF raft_ok_D(2) [OF s], of "cur_term r + 1" MsgPreVote]
      assms(2,3) s
    by (auto elim!: yields_mono simp: raft_ok_soft)
  with True show ?thesis by (subst hup.simps) (simp add: Let_def becomePreCandidate_def)
qed

section \<open>Messages from a leader\<close>

text \<open>An append whose previous entry matches must continue there, not below the commit index
  and not past the end of the log.\<close>

definition app_ok :: "raftLog \<Rightarrow> Message \<Rightarrow> bool" where
  "app_ok l m \<longleftrightarrow> (matchTerm l (mIndex m) (mLogTerm m) = Inr True \<and> mEntries m \<noteq> [] \<longrightarrow>
     committed l \<le> mIndex m \<and> mIndex m \<le> lastIndex l
     \<and> contiguous_from (Suc (unat (mIndex m))) (mEntries m)
     \<and> Suc (unat (mIndex m)) + length (mEntries m) < 2 ^ 64)"

definition appended_msg :: "raftLog \<Rightarrow> Message \<Rightarrow> Entry list" where
  "appended_msg l m =
     (if mEntries m = [] then log_contents l
      else take (unat (mIndex m) - log_base l) (log_contents l) @ mEntries m)"

text \<open>The state after a matching append, up to the messages queued.\<close>

definition app_done :: "Raft \<Rightarrow> Message \<Rightarrow> raftLog \<Rightarrow> bool" where
  "app_done r m l \<longleftrightarrow> log_ok l \<and> log_contents l = appended_msg (rlog r) m \<and> storage l = storage (rlog r)
     \<and> applied l = applied (rlog r) \<and> committed l = max (committed (rlog r)) (min (mCommit m) (lastIndex l))"

definition app_resp :: "Message \<Rightarrow> Message" where
  "app_resp m =
     (if mEntries m = [] then (new_Message MsgAppResp)\<lparr>mTo := mFrom m\<rparr>
      else (new_Message MsgAppResp)\<lparr>mTo := mFrom m, mIndex := eIndex (last (mEntries m)),
             mLogTerm := eTerm (last (mEntries m))\<rparr>)"

lemma append_message_ok:
  assumes ok: "log_ok (rlog r)" and app: "app_ok (rlog r) m"
    and match: "matchTerm (rlog r) (mIndex m) (mLogTerm m) = Inr True"
  obtains l where "append_message r m ((new_Message MsgAppResp)\<lparr>mTo := mFrom m\<rparr>) = Inr (r\<lparr>rlog := l\<rparr>, app_resp m)"
    "log_ok l" "log_contents l = appended_msg (rlog r) m" "storage l = storage (rlog r)"
    "applied l = applied (rlog r)" "committed l = committed (rlog r)"
proof (cases "mEntries m = []")
  case True
  with that [of "rlog r"] ok show ?thesis by (simp add: append_message_def app_resp_def appended_msg_def)
next
  case False
  let ?f = "Suc (unat (mIndex m))"
  have a: "committed (rlog r) \<le> mIndex m" "mIndex m \<le> lastIndex (rlog r)" "contiguous_from ?f (mEntries m)"
    "?f + length (mEntries m) < 2 ^ 64" using app match False by (auto simp: app_ok_def)
  note last = lastIndex_ok [OF log_ok_D(1) [OF ok]]
  have "unat (committed (rlog r)) < ?f" "?f \<le> Suc (log_base (rlog r) + length (log_contents (rlog r)))"
    using a(1,2) last by (simp_all add: word_le_unat)
  from appendEntries_ok [OF ok a(3) False this a(4)] obtain l where
    "appendEntries (rlog r) (mEntries m) = Inr (l, lastIndex l)" "log_ok l" "log_contents l = appended (rlog r) ?f (mEntries m)"
    "storage l = storage (rlog r)" "committed l = committed (rlog r)" "applied l = applied (rlog r)" by metis
  with False that [of l] show ?thesis
    by (simp add: append_message_def app_resp_def appended_def appended_msg_def)
qed

lemma commit_message_ok:
  assumes "log_ok (rlog r)"
  obtains l where "commit_message r m = Inr (r\<lparr>rlog := l\<rparr>)" "log_ok l"
    "l = (rlog r)\<lparr>committed := max (committed (rlog r)) (min (mCommit m) (lastIndex (rlog r)))\<rparr>"
proof -
  let ?c = "min (mCommit m) (lastIndex (rlog r))"
  have c: "commitTo (rlog r) ?c = Inr ((rlog r)\<lparr>committed := max (committed (rlog r)) ?c\<rparr>)"
    by (rule commitTo_in_range) simp
  have cl: "committed (rlog r) \<le> lastIndex (rlog r)" using assms by (rule committed_le_lastIndex)
  show ?thesis
  proof (cases "mCommit m > committed (rlog r)")
    case True
    with c that commitTo_ok [OF assms c] show ?thesis by (simp add: commit_message_def)
  next
    case False
    then have "max (committed (rlog r)) ?c = committed (rlog r)" by (auto simp: max_def min_def)
    with False assms that [of "rlog r"] show ?thesis by (simp add: commit_message_def)
  qed
qed

lemma handleAppendEntries_match:
  assumes "log_ok (rlog r)" "app_ok (rlog r) m" "matchTerm (rlog r) (mIndex m) (mLogTerm m) = Inr True"
  obtains l where "handleAppendEntries r m = send (r\<lparr>rlog := l\<rparr>) (app_resp m)" "app_done r m l"
proof -
  obtain l1 where l1: "append_message r m ((new_Message MsgAppResp)\<lparr>mTo := mFrom m\<rparr>) = Inr (r\<lparr>rlog := l1\<rparr>, app_resp m)"
    "log_ok l1" "log_contents l1 = appended_msg (rlog r) m" "storage l1 = storage (rlog r)"
    "applied l1 = applied (rlog r)" "committed l1 = committed (rlog r)"
    using append_message_ok [OF assms] by metis
  obtain l2 where l2: "commit_message (r\<lparr>rlog := l1\<rparr>) m = Inr (r\<lparr>rlog := l2\<rparr>)" "log_ok l2"
    "l2 = l1\<lparr>committed := max (committed l1) (min (mCommit m) (lastIndex l1))\<rparr>"
    using commit_message_ok [of "r\<lparr>rlog := l1\<rparr>" m] l1(2) by auto
  have "lastIndex l2 = lastIndex l1" "log_contents l2 = log_contents l1"
    by (simp_all add: l2(3) lastIndex_def log_contents_def split: option.split)
  with l1 l2 show ?thesis
    by (intro that [of l2]) (simp_all add: handleAppendEntries_def Let_def assms(3) app_done_def)
qed

lemma raft_ok_rlog:
  assumes "raft_ok r" "log_ok l" "state r \<noteq> Leader \<or> lastIndex (rlog r) \<le> lastIndex l"
  shows "raft_ok (r\<lparr>rlog := l\<rparr>)"
  using assms by (auto simp: raft_ok_def role_ok_def acked_ok_def intro: order_trans)

lemma handleAppendEntries_total:
  assumes "raft_ok r" "state r \<noteq> Leader" "app_ok (rlog r) m"
  shows "yields raft_ok (handleAppendEntries r m)"
proof -
  obtain b where b: "matchTerm (rlog r) (mIndex m) (mLogTerm m) = Inr b"
    using matchTerm_total raft_ok_D(2) [OF assms(1)] by blast
  show ?thesis
  proof (cases b)
    case True
    with b obtain l where l: "handleAppendEntries r m = send (r\<lparr>rlog := l\<rparr>) (app_resp m)" "app_done r m l"
      using handleAppendEntries_match [OF raft_ok_D(1) [OF assms(1)] assms(3)] by auto
    then have "raft_ok (r\<lparr>rlog := l\<rparr>)" using assms(1,2) by (intro raft_ok_rlog) (simp_all add: app_done_def)
    then show ?thesis
      unfolding l(1) by (intro yields_mono [OF send_total]) (auto simp: app_resp_def intro: raft_ok_outputs)
  next
    case False
    with b assms(1) show ?thesis
      by (auto simp: handleAppendEntries_def Let_def intro!: yields_mono [OF send_total] intro: raft_ok_outputs)
  qed
qed

lemma handleHeartbeat_total:
  assumes "raft_ok r" "mCommit m \<le> lastIndex (rlog r)"
  shows "yields raft_ok (handleHeartbeat r m)"
proof -
  let ?l = "(rlog r)\<lparr>committed := max (committed (rlog r)) (mCommit m)\<rparr>"
  have c: "commitTo (rlog r) (mCommit m) = Inr ?l" using assms(2) by (rule commitTo_in_range)
  have "lastIndex ?l = lastIndex (rlog r)" by (simp add: lastIndex_def split: option.split)
  then have "raft_ok (r\<lparr>rlog := ?l\<rparr>)"
    using assms(1) commitTo_ok [OF raft_ok_D(1) [OF assms(1)] c] by (intro raft_ok_rlog) simp_all
  then show ?thesis
    by (auto simp: handleHeartbeat_def c intro!: yields_mono [OF send_total] intro: raft_ok_outputs)
qed

text \<open>A snapshot that is ahead of everything the node has.\<close>

definition snap_ok :: "raftLog \<Rightarrow> Message \<Rightarrow> bool" where
  "snap_ok l m \<longleftrightarrow> (\<exists>sn. mSnapshot m = Some sn \<and> LastIndex (storage l) \<le> sIndex sn \<and> committed l \<le> sIndex sn
     \<and> (sIndex sn = 0 \<longrightarrow> sTerm sn = 0) \<and> unat (sIndex sn) + 2 < 2 ^ 64)"

lemma ApplySnapshot_cases:
  obtains (kept) s' e where "ApplySnapshot io s (Some sn) = Inr (s', Some e)" "snap s' = snap s" "entries s' = entries s"
  | (applied) s' where "ApplySnapshot io s (Some sn) = Inr (s', None)" "snap s' = sn"
      "entries s' = filterRetainedEntries (entries s) (sIndex sn)"
proof -
  obtain s1 e where p: "persistSnapshotMeta io s sn = (s1, e)" by fastforce
  have "snap s1 = snap s" "entries s1 = entries s"
    using p by (auto simp: persistSnapshotMeta_def Let_def split: prod.split_asm option.split_asm)
  with p show ?thesis
    by (cases "sIndex (snap s) > 0 \<and> sIndex sn \<le> sIndex (snap s)"; cases e)
      (auto simp: ApplySnapshot_def intro: kept applied)
qed

lemma filterRetained_none:
  assumes "storage_ok s" "LastIndex s \<le> i"
  shows "filterRetainedEntries (entries s) i = []"
proof -
  have "eIndex e \<le> i" if "e \<in> set (entries s)" for e
    using contiguous_from_set [of "Suc (storage_base s)" "entries s" e] that assms LastIndex_ok [OF assms(1)]
    by (auto simp: storage_ok_def log_well_def word_le_unat)
  moreover have "entries s = []" if "i = 0" using LastIndex_ok [OF assms(1)] assms(2) that by (simp add: word_le_unat)
  ultimately show ?thesis by (simp add: filterRetainedEntries_def)
qed

lemma restore_ok:
  assumes "log_ok l" "committed l \<le> sIndex sn" "sIndex sn = 0 \<longrightarrow> sTerm sn = 0" "unat (sIndex sn) + 2 < 2 ^ 64"
    and "snap s = sn" "entries s = []"
  shows "log_ok (restore (l\<lparr>storage := s\<rparr>) (sIndex sn))"
    "lastIndex (restore (l\<lparr>storage := s\<rparr>) (sIndex sn)) = sIndex sn"
proof -
  have o: "unat (sIndex sn + 1) = Suc (unat (sIndex sn))" using assms(4) by (intro unat_succ) simp
  have a: "applied l \<le> committed l" using assms(1) by (simp add: log_ok_def)
  show "log_ok (restore (l\<lparr>storage := s\<rparr>) (sIndex sn))"
    using assms(2-6) a o
    by (auto simp: log_ok_def log_shape_def restore_def storage_ok_def log_well_def log_contents_def word_as_nat)
  show "lastIndex (restore (l\<lparr>storage := s\<rparr>) (sIndex sn)) = sIndex sn"
    using assms(5,6) by (simp add: lastIndex_def restore_def maybeLastIndex_def LastIndex_def)
qed

lemma log_ok_storage:
  assumes "log_ok l" "snap s = snap (storage l)" "entries s = entries (storage l)"
  shows "log_ok (l\<lparr>storage := s\<rparr>)"
  using assms by (simp add: log_ok_def log_shape_def log_contents_def storage_ok_def)

lemma handleSnapshot_total:
  assumes "raft_ok r" "state r \<noteq> Leader" "snap_ok (rlog r) m"
  shows "yields raft_ok (handleSnapshot r m)"
proof -
  obtain sn where sn: "mSnapshot m = Some sn" "LastIndex (storage (rlog r)) \<le> sIndex sn" "committed (rlog r) \<le> sIndex sn"
    "sIndex sn = 0 \<longrightarrow> sTerm sn = 0" "unat (sIndex sn) + 2 < 2 ^ 64" using assms(3) by (auto simp: snap_ok_def)
  note L = raft_ok_D(1) [OF assms(1)]
  have sok: "storage_ok (storage (rlog r))" using L by (simp add: log_ok_def log_shape_def)
  show ?thesis
  proof (cases rule: ApplySnapshot_cases [of "env_io r" "storage (rlog r)" sn])
    case (kept s' e)
    have "raft_ok (r\<lparr>rlog := (rlog r)\<lparr>storage := s'\<rparr>\<rparr>)"
      using assms(1,2) log_ok_storage [OF L kept(2,3)] by (intro raft_ok_rlog) simp_all
    with kept(1) show ?thesis by (simp add: handleSnapshot_def sn(1) Let_def)
  next
    case (applied s')
    then have "entries s' = []" using filterRetained_none [OF sok sn(2)] by simp
    then have "raft_ok (r\<lparr>rlog := restore ((rlog r)\<lparr>storage := s'\<rparr>) (sIndex sn)\<rparr>)"
      using assms(1,2) restore_ok(1) [OF L sn(3-5) applied(2)] by (intro raft_ok_rlog) simp_all
    with applied(1) show ?thesis by (simp add: handleSnapshot_def sn(1) Let_def)
  qed
qed

section \<open>The leader\<close>

abbreviation goes_well :: "panic + Raft \<times> 'e \<Rightarrow> bool" where
  "goes_well x \<equiv> yields (\<lambda>(r, e). raft_ok r) x"

lemma goes_well_then: "yields raft_ok x \<Longrightarrow> goes_well (and_then x step_ok)"
  by (rule yields_and_then) simp_all

lemma yields_outputs_ok: "yields (outputs r) x \<Longrightarrow> raft_ok r \<Longrightarrow> yields raft_ok x"
  by (erule yields_mono) (rule raft_ok_outputs)

lemma Committed_le_last:
  assumes "raft_ok r" "acked_ok r"
  shows "Committed (trk r) \<le> lastIndex (rlog r)"
proof -
  have "{n. Committed (trk r) \<le> match_of (trk r) n} \<noteq> {}"
    using Committed_quorum [OF raft_ok_D(3) [OF assms(1)]] by (rule majority.quorum_not_empty)
  then obtain n where "Committed (trk r) \<le> match_of (trk r) n" by blast
  also have "match_of (trk r) n \<le> lastIndex (rlog r)" using assms(2) by (simp add: acked_ok_def split: option.split)
  finally show ?thesis .
qed

lemma maybeCommit_total:
  assumes "raft_ok r" "i \<le> lastIndex (rlog r)"
  shows "goes_well (maybeCommit r i)"
proof -
  let ?l = "(rlog r)\<lparr>committed := max (committed (rlog r)) i\<rparr>"
  have c: "commitTo (rlog r) i = Inr ?l" using assms(2) by (rule commitTo_in_range)
  have "lastIndex ?l = lastIndex (rlog r)" by (simp add: lastIndex_def split: option.split)
  then have "raft_ok (r\<lparr>rlog := ?l\<rparr>)"
    using assms(1) commitTo_ok [OF raft_ok_D(1) [OF assms(1)] c] by (intro raft_ok_rlog) simp_all
  moreover obtain b where "matchTerm (rlog r) i (cur_term r) = Inr b"
    using matchTerm_total [OF raft_ok_D(2) [OF assms(1)]] by blast
  ultimately show ?thesis using assms(1) c by (auto simp: maybeCommit_def)
qed

lemma drain_total:
  assumes "raft_ok r"
  shows "yields raft_ok (drainPendingReadIndexRequests r)"
proof -
  have "yields raft_ok (respondReadIndexReq s m i)" if "raft_ok s" for s m i
    using respondReadIndexReq_total that by (rule yields_outputs_ok)
  with assms show ?thesis
    by (auto simp: drainPendingReadIndexRequests_def raft_ok_soft intro!: yields_fold_then)
qed

lemma raft_ok_progress:
  assumes "raft_ok r" "Progress_of (trk r) n = Some pr" "state r = Leader \<Longrightarrow> MatchIndex pr' \<le> lastIndex (rlog r)"
  shows "raft_ok (r\<lparr>trk := set_Progress (trk r) n pr'\<rparr>)"
  using assms(1) same_config_set_Progress [OF assms(2)]
proof (rule raft_ok_trk)
  show "acked_ok (r\<lparr>trk := set_Progress (trk r) n pr'\<rparr>)" if "state r = Leader"
    using raft_ok_D(7) [OF assms(1) that] assms(3) [OF that] by (simp add: acked_ok_def)
qed

lemma appResp_finish_total:
  assumes "raft_ok r" "state r = Leader"
  shows "goes_well (appResp_finish r m prs)"
proof -
  have "yields (outputs r) (if mFrom m = leadTransferee r \<and> MatchIndex prs = lastIndex (rlog r)
      then sendTimeoutNow r (mFrom m) else Inr r)"
    by (simp add: sendTimeoutNow_def send_total)
  then show ?thesis
    unfolding appResp_finish_def
  proof (rule yields_and_then)
    fix s assume o: "outputs r s"
    then have s: "raft_ok s" "state s = Leader" using assms raft_ok_outputs by (auto simp: outputs_sel(3))
    have "goes_well (maybeCommit s (Committed (trk s)))"
      using s(1) Committed_le_last [OF s(1) raft_ok_D(7) [OF s]] by (rule maybeCommit_total)
    then show "goes_well (and_then (maybeCommit s (Committed (trk s)))
        (\<lambda>(r, advanced). and_then (if advanced then drainPendingReadIndexRequests r else Inr r) step_ok))"
      by (rule yields_and_then) (auto intro!: goes_well_then drain_total split: prod.split)
  qed
qed

lemma leader_MsgAppResp_total:
  assumes "raft_ok r" "state r = Leader" "\<not> mReject m \<Longrightarrow> mIndex m \<le> lastIndex (rlog r)"
  shows "goes_well (leader_MsgAppResp r m)"
proof (cases "Progress_of (trk r) (mFrom m)")
  case None
  with assms(1) show ?thesis by (simp add: leader_MsgAppResp_def)
next
  case (Some prs)
  let ?p = "if mTerm m = cur_term r then prs\<lparr>RecentActive := True\<rparr> else prs"
  have "yields (\<lambda>(s, q). outputs r s \<and> MatchIndex q \<le> lastIndex (rlog r)) (appResp_progress r m ?p)"
  proof (cases "mReject m")
    case True
    have "MatchIndex prs \<le> lastIndex (rlog r)"
      using raft_ok_D(7) [OF assms(1,2)] Some by (auto simp: acked_ok_def)
    with True show ?thesis
      by (auto simp: appResp_progress_def Let_def intro!: yields_and_then [where P = "outputs r"] send_total)
  qed (use assms(3) in \<open>simp add: appResp_progress_def\<close>)
  then have "goes_well (and_then (appResp_progress r m ?p)
      (\<lambda>(r, prs). appResp_finish (r\<lparr>trk := set_Progress (trk r) (mFrom m) prs\<rparr>) m prs))"
  proof (rule yields_and_then, clarify)
    fix s and q :: Progress assume o: "outputs r s" and q: "MatchIndex q \<le> lastIndex (rlog r)"
    have s: "raft_ok s" "state s = Leader" "rlog s = rlog r" "trk s = trk r"
      using o assms raft_ok_outputs by (auto simp: outputs_sel(3,4,5))
    with Some q show "goes_well (appResp_finish (s\<lparr>trk := set_Progress (trk s) (mFrom m) q\<rparr>) m q)"
      by (intro appResp_finish_total raft_ok_progress) simp_all
  qed
  then show ?thesis by (simp add: leader_MsgAppResp_def Some)
qed

lemma leader_MsgProp_total:
  assumes "raft_ok r" "log_room (rlog r)" "mEntries m \<noteq> []"
  shows "goes_well (leader_MsgProp r m)"
proof -
  have "yields raft_ok (appendEntry r d)" for d
    using appendEntry_total [OF raft_ok_D(1) [OF assms(1)] assms(2)]
    by (rule yields_mono) (rule appended_own_ok [OF _ assms(1)])
  then have "goes_well (and_then (appendEntry r d) (\<lambda>r. and_then (bcastAppend r) step_ok))" for d
    by (rule yields_and_then)
      (intro goes_well_then yields_outputs_ok [OF bcastAppend_total] raft_ok_D(2))
  with assms(1,3) show ?thesis by (simp add: leader_MsgProp_def)
qed


lemma heartbeatResp_read_total:
  assumes "raft_ok r"
  shows "goes_well (heartbeatResp_read r m)"
proof -
  obtain ro acked where ro: "recvAck (read_only r) (mFrom m) (mContext m) = (ro, acked)" by fastforce
  then have rok: "readOnly_ok ro" using readOnly_ok_recvAck [OF raft_ok_D(5) [OF assms], of "mFrom m" "mContext m"] by simp
  have set_ro: "raft_ok (s\<lparr>read_only := x\<rparr>)" if "raft_ok s" "readOnly_ok x" for s x
    using that by (simp add: raft_ok_def role_ok_def acked_ok_def)
  obtain ro' rss where adv: "readOnly_advance ro m = Inr (ro', rss)"
    using readOnly_advance_cases [OF rok, of m] by metis
  have "yields raft_ok (respondReadIndexReq s x i)" if "raft_ok s" for s x i
    using respondReadIndexReq_total that by (rule yields_outputs_ok)
  then have "goes_well (and_then (fold_then (\<lambda>rs r. respondReadIndexReq r (req rs) (rindex rs)) rss
      (r\<lparr>read_only := ro'\<rparr>)) step_ok)"
    using set_ro [OF assms readOnly_ok_advance [OF rok adv]]
    by (intro goes_well_then yields_fold_then) simp_all
  with assms rok set_ro show ?thesis
    by (simp add: heartbeatResp_read_def ro Let_def adv)
qed

lemma leader_MsgHeartbeatResp_total:
  assumes "raft_ok r" "state r = Leader"
  shows "goes_well (leader_MsgHeartbeatResp r m)"
proof (cases "Progress_of (trk r) (mFrom m)")
  case None
  with assms(1) show ?thesis by (simp add: leader_MsgHeartbeatResp_def)
next
  case (Some prs)
  let ?p = "if mTerm m = cur_term r then prs\<lparr>RecentActive := True\<rparr> else prs"
  let ?r = "r\<lparr>trk := set_Progress (trk r) (mFrom m) ?p\<rparr>"
  have "MatchIndex prs \<le> lastIndex (rlog r)" using raft_ok_D(7) [OF assms] Some by (simp add: acked_ok_def)
  then have ok: "raft_ok ?r" using assms(1) Some by (intro raft_ok_progress) simp_all
  then have "yields raft_ok (if MatchIndex ?p < lastIndex (rlog ?r) then sendAppend (mFrom m) ?r else Inr ?r)"
    using yields_outputs_ok [OF sendAppend_total [OF raft_ok_D(2) [OF ok]] ok] by simp
  then have "goes_well (and_then (if MatchIndex ?p < lastIndex (rlog ?r) then sendAppend (mFrom m) ?r else Inr ?r)
      (\<lambda>r. heartbeatResp_read r m))"
    by (rule yields_and_then) (rule heartbeatResp_read_total)
  then show ?thesis by (simp add: leader_MsgHeartbeatResp_def Some Let_def)
qed

lemma leader_MsgReadIndex_total:
  assumes "raft_ok r"
  shows "goes_well (leader_MsgReadIndex r m)"
proof -
  obtain b where b: "committedEntryInCurrentTerm r = Inr b"
    using matchTerm_total [OF raft_ok_D(2) [OF assms]] by (auto simp: committedEntryInCurrentTerm_def)
  let ?ro = "fst (recvAck (addRequest (read_only r) (committed (rlog r)) m) (rid r) (mContext m))"
  have "readOnly_ok ?ro" using raft_ok_D(5) [OF assms] by (intro readOnly_ok_recvAck readOnly_ok_addRequest)
  then have "raft_ok (r\<lparr>read_only := ?ro\<rparr>)" using assms by (simp add: raft_ok_def role_ok_def acked_ok_def)
  then have "yields raft_ok (bcastHeartbeat (r\<lparr>read_only := ?ro\<rparr>) (mContext m))"
    using yields_outputs_ok [OF bcastHeartbeat_total] by blast
  moreover have "yields raft_ok (respondReadIndexReq r m i)" for i
    using yields_outputs_ok [OF respondReadIndexReq_total assms] .
  ultimately show ?thesis
    using assms by (auto simp: leader_MsgReadIndex_def b Let_def raft_ok_soft intro!: goes_well_then)
qed

lemma leader_MsgCheckQuorum_total:
  assumes "raft_ok r"
  shows "goes_well (leader_MsgCheckQuorum r)"
proof -
  let ?t = "Visit (trk r) (\<lambda>nid pr. if nid \<noteq> rid r then pr\<lparr>RecentActive := False\<rparr> else pr)"
  have "raft_ok (r\<lparr>trk := ?t\<rparr>)"
    using assms same_config_Visit
  proof (rule raft_ok_trk)
    show "acked_ok (r\<lparr>trk := ?t\<rparr>)" if "state r = Leader"
      using raft_ok_D(7) [OF assms that] by (auto simp: acked_ok_def)
  qed
  with assms show ?thesis by (simp add: leader_MsgCheckQuorum_def raft_ok_becomeFollower)
qed

lemma leader_MsgTransferLeader_total:
  assumes "raft_ok r" "mFrom m \<in> set (Voters (trk r))"
  shows "goes_well (leader_MsgTransferLeader r m)"
proof -
  obtain pr where pr: "Progress_of (trk r) (mFrom m) = Some pr"
    using Progress_of_domain [OF raft_ok_D(3) [OF assms(1)]] assms(2) by blast
  have ok: "raft_ok (s\<lparr>electionElapsed := 0, leadTransferee := x\<rparr>)" "raft_ok (abortLeaderTransfer s)"
    if "raft_ok s" for s x using that by (auto simp: abortLeaderTransfer_def intro: raft_ok_cong)
  have "yields raft_ok (sendTimeoutNow s to)" "yields raft_ok (sendAppend to s)" if "raft_ok s" for s to
    using yields_outputs_ok [OF send_total that] yields_outputs_ok [OF sendAppend_total [OF raft_ok_D(2) [OF that]] that]
    by (simp_all add: sendTimeoutNow_def)
  with assms(1) ok pr show ?thesis
    by (auto simp: leader_MsgTransferLeader_def Let_def abortLeaderTransfer_def intro!: goes_well_then)
qed

section \<open>Step\<close>

definition msg_ok :: "Raft \<Rightarrow> Message \<Rightarrow> bool" where
  "msg_ok r m \<longleftrightarrow>
     (case mType m of
        MsgApp \<Rightarrow> app_ok (rlog r) m
      | MsgHeartbeat \<Rightarrow> mCommit m \<le> lastIndex (rlog r)
      | MsgSnap \<Rightarrow> snap_ok (rlog r) m
      | MsgVote \<Rightarrow> mTerm m \<noteq> 0
      | MsgPreVote \<Rightarrow> mTerm m \<noteq> 0
      | MsgProp \<Rightarrow> mEntries m \<noteq> []
      | MsgAppResp \<Rightarrow> mReject m \<or> mIndex m \<le> lastIndex (rlog r)
      | MsgTransferLeader \<Rightarrow> mFrom m \<in> set (Voters (trk r))
      | _ \<Rightarrow> True)"

definition room_ok :: "Raft \<Rightarrow> bool" where
  "room_ok r \<longleftrightarrow> log_room (rlog r) \<and> cur_term r + 1 \<noteq> 0"

lemma candidate_voteResp_total:
  assumes "raft_ok r" "room_ok r"
  shows "goes_well (candidate_voteResp r m)"
proof -
  let ?r = "r\<lparr>trk := RecordVote (trk r) (mFrom m) (\<not> mReject m)\<rparr>"
  let ?s = "(becomeCandidate ?r)\<lparr>trk := RecordVote (trk (becomeCandidate ?r)) (rid ?r) True\<rparr>"
  have ok: "raft_ok ?r" "raft_ok ?s"
    using assms(1) raft_ok_RecordVote raft_ok_becomeCandidate by blast+
  have "yields raft_ok (bcastVote ?s MsgVote (cur_term r + 1))"
    by (rule yields_mono [OF bcastVote_total [OF raft_ok_D(2) [OF ok(2)]]])
      (use assms(2) ok(2) in \<open>auto simp: room_ok_def raft_ok_soft\<close>)
  moreover have "yields raft_ok (becomeLeader ?r)"
    using becomeLeader_total [OF ok(1)] assms(2) by (auto elim!: yields_mono simp: room_ok_def new_leader_def)
  ultimately show ?thesis
    using assms(1) ok raft_ok_becomeFollower [OF ok(1)]
    by (auto simp: candidate_voteResp_def Let_def intro!: goes_well_then split: VoteResult.split)
qed

lemma stepLeader_total:
  assumes "raft_ok r" "room_ok r" "msg_ok r m" "state r = Leader"
  shows "goes_well (stepLeader r m)"
  using assms
  by (cases "mType m")
    (auto simp: stepLeader_def msg_ok_def room_ok_def intro!: leader_MsgAppResp_total leader_MsgProp_total
      leader_MsgHeartbeatResp_total leader_MsgReadIndex_total leader_MsgCheckQuorum_total
      leader_MsgTransferLeader_total goes_well_then yields_outputs_ok [OF bcastHeartbeat_total])

lemma stepCandidate_total:
  assumes "raft_ok r" "room_ok r" "msg_ok r m"
  shows "goes_well (stepCandidate r m)"
proof -
  let ?r = "becomeFollower r (mTerm m) (mFrom m)"
  have ok: "raft_ok ?r" "state ?r \<noteq> Leader" "rlog ?r = rlog r" using assms(1) raft_ok_becomeFollower by simp_all
  with assms show ?thesis
    by (auto simp: stepCandidate_def Let_def msg_ok_def intro!: candidate_voteResp_total goes_well_then
        handleAppendEntries_total handleHeartbeat_total handleSnapshot_total)
qed

lemma forward_total:
  assumes "raft_ok r" "mType m = MsgProp \<or> mType m = MsgReadIndex \<or> mType m = MsgTransferLeader"
  shows "yields raft_ok (send r (m\<lparr>mTo := x\<rparr>))"
  by (rule yields_outputs_ok [OF send_total assms(1)]) (use assms(2) in auto)

lemma stepFollower_total:
  assumes "raft_ok r" "room_ok r" "msg_ok r m" "state r \<noteq> Leader"
  shows "goes_well (stepFollower r m)"
proof -
  let ?r = "r\<lparr>electionElapsed := 0, lead := mFrom m\<rparr>"
  have ok: "raft_ok ?r" "state ?r \<noteq> Leader" "rlog ?r = rlog r"
    using assms(1,4) by (auto intro: raft_ok_cong)
  have rs: "raft_ok (r\<lparr>readStates := x\<rparr>)" for x using assms(1) by (rule raft_ok_cong) simp_all
  from ok rs assms show ?thesis
    by (cases "mType m")
      (auto simp: stepFollower_def msg_ok_def room_ok_def intro!: goes_well_then forward_total hup_total
        handleAppendEntries_total handleHeartbeat_total handleSnapshot_total)
qed

lemma call_step_total:
  assumes "raft_ok r" "room_ok r" "msg_ok r m"
  shows "goes_well (call_step r m)"
proof -
  have "step_fn r = (case state r of Leader \<Rightarrow> stepFunc_Leader | Follower \<Rightarrow> stepFunc_Follower | _ \<Rightarrow> stepFunc_Candidate)"
    using raft_ok_D(6) [OF assms(1)] by (simp add: role_ok_def)
  then show ?thesis
    using stepLeader_total [OF assms] stepCandidate_total [OF assms] stepFollower_total [OF assms]
    by (cases "state r") (simp_all add: call_step_def)
qed

lemma respondVote_total:
  assumes "raft_ok r" "u \<noteq> 0" "t = MsgVoteResp \<or> t = MsgPreVoteResp"
  shows "yields (\<lambda>s. \<exists>ms. s = r\<lparr>msgsAfterAppend := ms\<rparr>) (respondVote r to g t u)"
  using assms(2,3) by (auto simp: respondVote_def send_def Let_def enqueue_def)

lemma step_message_total:
  assumes ok: "raft_ok r" and room: "room_ok r" and m: "msg_ok r m"
    and t: "mType m = MsgVote \<Longrightarrow> cur_term r \<noteq> 0"
  shows "goes_well (step_message r m)"
proof -
  have vote: "\<exists>g. vote_granted r m = Inr g"
    by (cases "canVoteFor r m") (auto simp: vote_granted_def isCandidateUpToDate_def isUpToDate_ok [OF raft_ok_D(2) [OF ok]])
  have resp: "yields raft_ok (respondVote s to g t u)"
    if "raft_ok s" "u \<noteq> 0" "t = MsgVoteResp \<or> t = MsgPreVoteResp" for s to g t u
    using respondVote_total [OF that] by (rule yields_mono) (use that(1) in \<open>auto simp: raft_ok_soft\<close>)
  show ?thesis
  proof (cases "mType m")
    case MsgVote
    with vote resp ok t m show ?thesis
      by (auto simp: step_message_def Let_def raft_ok_soft intro!: goes_well_then)
  next
    case MsgPreVote
    with vote resp ok m show ?thesis by (auto simp: step_message_def msg_ok_def intro!: goes_well_then)
  next
    case MsgHup
    with hup_total [OF ok] room show ?thesis by (auto simp: step_message_def room_ok_def intro!: goes_well_then)
  qed (use call_step_total [OF ok room m] in \<open>simp_all add: step_message_def\<close>)
qed

lemma Step_goes_well:
  assumes ok: "raft_ok r" and room: "log_room (rlog r)" "term_room r m" and m: "msg_ok r m"
  shows "goes_well (Step r m)"
proof -
  let ?P = "\<lambda>s. raft_ok s \<and> room_ok s \<and> msg_ok s m \<and> (mType m = MsgVote \<longrightarrow> cur_term s \<noteq> 0)"
  have nz: "t + 1 \<noteq> 0" if "unat t + 1 < 2 ^ 64" for t :: u64
    using unat_succ [of t] that by auto
  have "yields ?P (step_term r m)"
  proof (cases "cur_term r < mTerm m \<and> mType m \<noteq> MsgPreVote \<and> mType m \<noteq> MsgPreVoteResp")
    case True
    let ?r = "becomeFollower r (mTerm m) (mFrom m)"
    have "Voters (trk ?r) = Voters (trk r)" using becomeFollower_config [of r "mTerm m" "mFrom m"] by (simp add: same_config_def)
    then have "msg_ok ?r m" using m by (simp add: msg_ok_def cong: MessageType.case_cong)
    then have "?P ?r"
      using True ok room nz by (auto simp: room_ok_def term_room_def raft_ok_becomeFollower)
    moreover have "mTerm m \<noteq> 0" using True by auto
    ultimately show ?thesis using True by (simp add: step_term_def)
  next
    case False
    have p: "?P r" using ok room m nz False by (auto simp: room_ok_def term_room_def msg_ok_def word_gt_0)
    show ?thesis
    proof (cases "mTerm m \<noteq> 0 \<and> mTerm m < cur_term r \<and> mType m = MsgPreVote")
      case True
      then have "cur_term r \<noteq> 0" by auto
      then have "yields ?P (respondVote r (mFrom m) False MsgPreVoteResp (cur_term r))"
        by (intro yields_mono [OF respondVote_total [OF ok]])
          (use p True in \<open>auto simp: raft_ok_soft room_ok_def msg_ok_def\<close>)
      moreover have "\<not> cur_term r < mTerm m" using True by auto
      ultimately show ?thesis using True by (simp add: step_term_def)
    next
      case not_pre: False
      with False p show ?thesis by (auto simp: step_term_def)
    qed
  qed
  then show ?thesis
    unfolding Step_def by (rule yields_and_then) (auto intro: step_message_total)
qed

lemma CheckQuorum_log:
  assumes "Step r (new_Message MsgCheckQuorum) = Inr (r', e)"
  shows "rlog r' = rlog r"
  using assms
  by (cases "step_fn r")
    (auto simp: Step_def step_term_def step_message_def call_step_def stepLeader_def stepCandidate_def
      stepFollower_def leader_MsgCheckQuorum_def Let_def split: if_split_asm)

lemma tickElection_total:
  assumes "raft_ok r" "log_room (rlog r)" "unat (cur_term r) + 1 < 2 ^ 64"
  shows "yields raft_ok (tickElection r)"
proof -
  let ?r = "r\<lparr>electionElapsed := 0\<rparr>" and ?m = "(new_Message MsgHup)\<lparr>mFrom := rid r\<rparr>"
  have "goes_well (Step ?r ?m)"
    by (rule Step_goes_well) (use assms in \<open>simp_all add: raft_ok_soft term_room_def msg_ok_def\<close>)
  then have "yields raft_ok (and_then (Step ?r ?m) (\<lambda>(r, _). Inr r))" by (rule yields_and_then) auto
  with assms(1) show ?thesis by (simp add: tickElection_def Let_def raft_ok_soft)
qed

lemma tickHeartbeat_total:
  assumes "raft_ok r" "log_room (rlog r)" "unat (cur_term r) + 1 < 2 ^ 64"
  shows "yields raft_ok (tickHeartbeat r)"
proof -
  let ?P = "\<lambda>s. raft_ok s \<and> rlog s = rlog r \<and> cur_term s = cur_term r"
  let ?r = "r\<lparr>heartbeatElapsed := heartbeatElapsed r + 1, electionElapsed := electionElapsed r + 1\<rparr>"
  have local: "goes_well (Step s m)" if "raft_ok s" "rlog s = rlog r" "cur_term s = cur_term r" "mTerm m = 0"
    "mType m = MsgCheckQuorum \<or> mType m = MsgBeat" for s m
    by (rule Step_goes_well) (use that assms in \<open>auto simp: term_room_def msg_ok_def\<close>)
  have ok: "raft_ok ?r" "raft_ok (?r\<lparr>electionElapsed := 0\<rparr>)" using assms(1) by (auto intro: raft_ok_cong)
  obtain s e where s: "Step (?r\<lparr>electionElapsed := 0\<rparr>) (new_Message MsgCheckQuorum) = Inr (s, e)" "raft_ok s"
    using local [OF ok(2), of "new_Message MsgCheckQuorum"] by (auto simp: yields_def)
  then have "?P s" using CheckQuorum_log [OF s(1)] Step_CheckQuorum_term [OF s(1)] by simp
  then have a: "?P (if state s = Leader \<and> leadTransferee s \<noteq> None_id then abortLeaderTransfer s else s)"
    by (simp add: abortLeaderTransfer_def raft_ok_soft)
  have b: "yields raft_ok (if heartbeatElapsed t \<ge> heartbeatTimeout t
      then and_then (Step (t\<lparr>heartbeatElapsed := 0\<rparr>) ((new_Message MsgBeat)\<lparr>mFrom := rid t\<rparr>)) (\<lambda>(r, _). Inr r)
      else Inr t)" if "?P t" for t
  proof -
    have "goes_well (Step (t\<lparr>heartbeatElapsed := 0\<rparr>) ((new_Message MsgBeat)\<lparr>mFrom := rid t\<rparr>))"
      using that by (intro local) (simp_all add: raft_ok_soft)
    then have "yields raft_ok (and_then (Step (t\<lparr>heartbeatElapsed := 0\<rparr>) ((new_Message MsgBeat)\<lparr>mFrom := rid t\<rparr>)) (\<lambda>(r, _). Inr r))"
      by (rule yields_and_then) auto
    with that show ?thesis by simp
  qed
  show ?thesis
    unfolding tickHeartbeat_def Let_def
    by (rule yields_and_then [where P = ?P]) (use ok a s(1) in simp, rule b)
qed

text \<open>C5. A well-formed node that has room for one more entry and one more term handles every
  message that meets \<open>msg_ok\<close> without a panic, and is well formed afterwards. The conditions
  are those the code relies on without checking: an append that matches continues at its
  previous entry and not below the commit index, a heartbeat commits nothing beyond the log, a
  snapshot is ahead of the log, an acknowledged index exists, requests for votes carry a term,
  proposals are not empty and a leadership transfer goes to a voter.\<close>
theorem Step_never_panics:
  assumes "raft_ok r" "log_room (rlog r)" "term_room r m" "msg_ok r m"
  shows "\<exists>r' e. Step r m = Inr (r', e) \<and> raft_ok r'"
  using Step_goes_well [OF assms] by (auto simp: yields_def)

lemma sample_raft_ok: "raft_ok sample_node" "log_room (rlog sample_node)"
proof -
  have "log_base (rlog sample_node) = 0"
    by (simp add: sample_node_def newRaftLog_def Let_def sample_storage_def empty_SnapshotMeta_def)
  then show "log_room (rlog sample_node)" using sample_log_ok(2) by (simp add: log_room_def)
  show "raft_ok sample_node"
    using sample_log_ok(1)
    by (simp add: raft_ok_def role_ok_def tracker_ok_def) (simp add: sample_node_def)
qed

theorem Step_never_panics_witness:
  "raft_ok sample_node \<and> msg_ok sample_node (sample_vote 2)
     \<and> (\<exists>r' e. Step sample_node (sample_vote 2) = Inr (r', e) \<and> raft_ok r')"
proof -
  have "term_room sample_node (sample_vote 2)" "msg_ok sample_node (sample_vote 2)"
    by (simp_all add: term_room_def msg_ok_def sample_vote_def sample_node_def)
  with Step_never_panics [OF sample_raft_ok] sample_raft_ok show ?thesis by blast
qed

text \<open>Ticks never panic on a well-formed node either, and keep it well formed.\<close>
theorem Tick_never_panics:
  assumes "raft_ok r" "log_room (rlog r)" "unat (cur_term r) + 1 < 2 ^ 64"
  shows "\<exists>r'. Tick r = Inr r' \<and> raft_ok r'"
  using tickElection_total [OF assms] tickHeartbeat_total [OF assms]
  by (cases "tick_fn r") (auto simp: Tick_def yields_def)

theorem Tick_never_panics_witness: "\<exists>r'. Tick sample_node = Inr r' \<and> raft_ok r'"
  using Tick_never_panics [OF sample_raft_ok] by (simp add: sample_node_def)

lemma newRaft_raft_ok:
  assumes "newRaft cfg rnd io = Inr r" "cfgStorage cfg = Some s" "storage_commit_ok s"
  shows "raft_ok r"
  using assms(1)
proof (cases rule: newRaft_cases)
  case (1 s')
  have t: "tracker_ok (trk r)" "Voters (trk r) = buildMajorityConfig (cfgID cfg) (cfgPeers cfg)"
    using initial_config 1 by blast+
  have "read_only r = newReadOnly"
    using assms(1) by (auto simp: newRaft_def Let_def split: if_split_asm)
  with 1 t newRaft_log_ok [OF assms] show ?thesis by (simp add: raft_ok_def buildMajorityConfig_keys)
qed

text \<open>C16. A node created on a storage whose commit index lies within its log starts well formed,
  with exactly the stored entries as its log.\<close>
theorem newRaft_well_formed:
  assumes "newRaft cfg rnd io = Inr r" "cfgStorage cfg = Some s" "storage_commit_ok s"
  shows "raft_ok r \<and> log_contents (rlog r) = entries s \<and> state r = Follower"
  using newRaft_raft_ok [OF assms] newRaft_log_ok [OF assms] newRaft_cases [OF assms(1)] by metis

theorem newRaft_well_formed_witness: "raft_ok sample_node \<and> log_contents (rlog sample_node) = []"
proof -
  have "cfgStorage sample_config = Some sample_storage" "storage_commit_ok sample_storage"
    by (simp_all add: sample_config_def storage_commit_ok_def storage_ok_def log_well_def sample_defs IsEmptyHardState_def)
  from newRaft_well_formed [OF sample_node_new this] show ?thesis by (simp add: sample_storage_def)
qed

end
