(* ===== verification/Campaigns.thy ===== *)
theory Campaigns
  imports Raft_Total
begin

text \<open>
  Progress of elections: the answer that completes a majority makes a candidate leader, and a
  node that is the only voter becomes leader by ticking.
\<close>

section \<open>Winning an election\<close>

lemma raft_ok_voted:
  assumes "raft_ok r"
  shows "raft_ok (r\<lparr>trk := RecordVote (trk r) n v\<rparr>)"
  using assms raft_ok_RecordVote by blast

lemma recorded_won:
  assumes "tracker_ok t"
  shows "TallyVotes (RecordVote t n True) = VoteWon \<longleftrightarrow> is_majority (Voters t) (insert n {k. votes t k = Some True})"
proof -
  have "tracker_ok (RecordVote t n True)" using assms same_config_ok [OF same_config_RecordVote [of t n True]] by simp
  moreover have "{k. votes (RecordVote t n True) k = Some True} = insert n {k. votes t k = Some True}"
    by (auto simp: RecordVote_def)
  moreover have "Voters (RecordVote t n True) = Voters t" by (simp add: RecordVote_def)
  ultimately show ?thesis by (simp add: TallyVotes_won)
qed

text \<open>C10. A candidate wins exactly when it should: the granting answer that completes a
  majority of the voters makes it the leader of its term, with its own entry of that term
  appended to the log.\<close>
theorem majority_elects:
  assumes ok: "raft_ok r" "log_room (rlog r)" and cand: "state r = Candidate"
    and m: "mType m = MsgVoteResp" "\<not> mReject m" "mTerm m = cur_term r"
    and maj: "is_majority (Voters (trk r)) (insert (mFrom m) {n. votes (trk r) n = Some True})"
  shows "\<exists>r'. Step r m = Inr (r', None) \<and> state r' = Leader \<and> cur_term r' = cur_term r \<and> lead r' = rid r \<and> raft_ok r'
    \<and> log_contents (rlog r') = log_contents (rlog r) @ [\<lparr>eIndex = lastIndex (rlog r) + 1, eTerm = cur_term r, eData = []\<rparr>]"
proof -
  let ?r = "r\<lparr>trk := RecordVote (trk r) (mFrom m) True\<rparr>"
  have "step_fn r = stepFunc_Candidate" using raft_ok_D(6) [OF ok(1)] cand by (simp add: role_ok_def)
  then have "Step r m = and_then (becomeLeader ?r) step_ok"
    using m cand maj recorded_won [OF raft_ok_D(3) [OF ok(1)], of "mFrom m"]
    by (simp add: Step_def step_term_def step_message_def call_step_def stepCandidate_def candidate_voteResp_def Let_def)
  moreover obtain r' where "becomeLeader ?r = Inr r'" "new_leader ?r r'"
    using becomeLeader_total [OF raft_ok_voted [OF ok(1)], of "mFrom m" True] ok(2) by (auto simp: yields_def split: sum.splits)
  ultimately show ?thesis by (simp add: new_leader_def)
qed

lemma lone_vote_wins:
  assumes "tracker_ok t" "set (Voters t) = {n}"
  shows "TallyVotes (RecordVote t n True) = VoteWon"
  using assms by (simp add: recorded_won is_majority_def)

lemma lone_hup:
  assumes ok: "raft_ok r" "log_room (rlog r)" "state r \<noteq> Leader" and lone: "set (Voters (trk r)) = {rid r}"
  shows "yields (\<lambda>r'. state r' = Leader \<and> cur_term r' = cur_term r + 1 \<and> lead r' = rid r \<and> raft_ok r') (hup r CampaignPreElection)"
proof -
  let ?p = "(becomePreCandidate r)\<lparr>trk := RecordVote (trk (becomePreCandidate r)) (rid r) True\<rparr>"
  let ?c = "(becomeCandidate ?p)\<lparr>trk := RecordVote (trk (becomeCandidate ?p)) (rid r) True\<rparr>"
  have p: "raft_ok ?p" using ok raft_ok_becomePreCandidate raft_ok_RecordVote by blast
  have c: "raft_ok (becomeCandidate ?p)" using p by (rule raft_ok_becomeCandidate)
  have sel: "state ?p \<noteq> Leader" "rid ?p = rid r" "rid (becomeCandidate ?p) = rid r" "Voters (trk ?p) = Voters (trk r)"
    "rlog ?c = rlog r" "cur_term ?c = cur_term r + 1" "rid ?c = rid r" "rid (becomePreCandidate r) = rid r"
    "Voters (trk (becomePreCandidate r)) = Voters (trk r)" "trk (becomePreCandidate r) = trk r"
    by (simp_all add: becomePreCandidate_def becomeCandidate_def Let_def RecordVote_def)
  have cv: "Voters (trk (becomeCandidate ?p)) = Voters (trk r)"
    using reset_config [of "?p\<lparr>state := Candidate, step_fn := stepFunc_Candidate, tick_fn := tickFunc_Election\<rparr>"
      "trk ?p" "cur_term ?p + 1"] sel(4) by (simp add: same_config_def becomeCandidate_def Let_def)
  have "hup ?p CampaignElection = becomeLeader ?c"
    using sel cv lone lone_vote_wins [OF raft_ok_D(3) [OF c]] by (subst hup.simps) (simp add: Let_def)
  moreover have "hup r CampaignPreElection = hup ?p CampaignElection"
    using ok(3) sel lone lone_vote_wins [OF raft_ok_D(3) [OF ok(1)]] by (subst hup.simps) (simp add: Let_def)
  moreover obtain r' where "becomeLeader ?c = Inr r'" "new_leader ?c r'"
    using becomeLeader_total [OF raft_ok_RecordVote [OF c]] ok(2) sel(5) by (auto simp: yields_def)
  ultimately show ?thesis using sel by (simp add: new_leader_def)
qed

primrec ticks :: "nat \<Rightarrow> Raft \<Rightarrow> panic + Raft" where
  "ticks 0 r = Inr r"
| "ticks (Suc k) r = and_then (Tick r) (ticks k)"

lemma Tick_waits:
  assumes "tick_fn r = tickFunc_Election" "electionElapsed r + 1 < randomizedElectionTimeout r"
  shows "Tick r = Inr (r\<lparr>electionElapsed := electionElapsed r + 1\<rparr>)"
  using assms by (simp add: Tick_def tickElection_def pastElectionTimeout_def Let_def)

lemma Tick_campaigns:
  assumes "tick_fn r = tickFunc_Election" "electionElapsed r + 1 = randomizedElectionTimeout r"
  shows "Tick r = hup (r\<lparr>electionElapsed := 0\<rparr>) CampaignPreElection"
  using assms
  by (cases "hup (r\<lparr>electionElapsed := 0\<rparr>) CampaignPreElection")
    (simp_all add: Tick_def tickElection_def pastElectionTimeout_def Let_def Step_def step_term_def step_message_def)

text \<open>C11. A node that is the only voter elects itself: when its clock has ticked as often as its
  randomized election timeout asks for, it is leader of the next term.\<close>
theorem lone_voter_elects:
  assumes "raft_ok r" "log_room (rlog r)" "state r \<noteq> Leader" "set (Voters (trk r)) = {rid r}"
    and "0 < k" "electionElapsed r + int k = randomizedElectionTimeout r"
  shows "\<exists>r'. ticks k r = Inr r' \<and> state r' = Leader \<and> cur_term r' = cur_term r + 1 \<and> lead r' = rid r \<and> raft_ok r'"
  using assms
proof (induction k arbitrary: r)
  case (Suc k)
  have t: "tick_fn r = tickFunc_Election"
    using raft_ok_D(6) [OF Suc.prems(1)] Suc.prems(3) by (cases "state r") (simp_all add: role_ok_def)
  show ?case
  proof (cases k)
    case 0
    let ?r = "r\<lparr>electionElapsed := 0\<rparr>"
    have "raft_ok ?r" using Suc.prems(1) by (rule raft_ok_cong) simp_all
    then have "yields (\<lambda>r'. state r' = Leader \<and> cur_term r' = cur_term r + 1 \<and> lead r' = rid r \<and> raft_ok r')
        (hup ?r CampaignPreElection)"
      using lone_hup [of ?r] Suc.prems by simp
    then show ?thesis using Tick_campaigns [OF t] Suc.prems(6) 0 by (auto simp: yields_def)
  next
    case (Suc j)
    let ?r = "r\<lparr>electionElapsed := electionElapsed r + 1\<rparr>"
    have "raft_ok ?r" using Suc.prems(1) by (rule raft_ok_cong) simp_all
    then show ?thesis
      using Suc.IH [of ?r] Suc.prems Suc Tick_waits [OF t] by simp
  qed
qed simp

section \<open>Witnesses\<close>

text \<open>Node 1 as candidate of term 1 with its own vote, and the vote of node 2 on its way.\<close>

definition sample_candidate :: Raft where
  "sample_candidate = sample_node\<lparr>cur_term := 1, votedFor := 1, state := Candidate, step_fn := stepFunc_Candidate,
     trk := RecordVote (trk sample_node) 1 True\<rparr>"

definition sample_grant :: Message where
  "sample_grant = (new_Message MsgVoteResp)\<lparr>mFrom := 2, mTo := 1, mTerm := 1\<rparr>"

lemma sample_candidate_ok: "raft_ok sample_candidate" "log_room (rlog sample_candidate)"
proof -
  have "rlog sample_candidate = rlog sample_node" "tracker_ok (trk sample_candidate)"
    by (simp_all add: sample_candidate_def sample_node_def tracker_ok_def RecordVote_def)
  with sample_log_ok(1) sample_raft_ok(2) show "raft_ok sample_candidate" "log_room (rlog sample_candidate)"
    by (simp_all add: raft_ok_def role_ok_def) (simp_all add: sample_candidate_def sample_node_def RecordVote_def)
qed

theorem majority_elects_witness:
  "\<exists>r'. Step sample_candidate sample_grant = Inr (r', None) \<and> state r' = Leader \<and> cur_term r' = 1"
proof -
  have "is_majority (Voters (trk sample_candidate)) (insert 2 {n. votes (trk sample_candidate) n = Some True})"
    by (simp add: is_majority_def sample_candidate_def sample_node_def RecordVote_def)
  moreover have "state sample_candidate = Candidate" "cur_term sample_candidate = 1" by (simp_all add: sample_candidate_def)
  ultimately show ?thesis
    using majority_elects [OF sample_candidate_ok, of sample_grant] by (auto simp: sample_grant_def)
qed

text \<open>A cluster of one node.\<close>

definition solo_config :: Config where
  "solo_config = sample_config\<lparr>cfgPeers := []\<rparr>"

definition solo_raft :: Raft where
  "solo_raft = sample_node\<lparr>peers := [], trk := \<lparr>selfID = 1, Voters = [1],
     progress = [(1, \<lparr>MatchIndex = 0, NextIndex = 1, RecentActive = False\<rparr>)], votes = Map.empty\<rparr>\<rparr>"

lemma solo_raft_new: "newRaft solo_config (\<lambda>_. 3) good_io = Inr solo_raft"
  by (simp add: newRaft_def validate_def solo_config_def sample_config_def Let_def InitialState_def IsEmptyHardState_def
      becomeFollower_def reset_def resetRandomizedElectionTimeout_def intN_def abortLeaderTransfer_def
      Visit_def ResetVotes_def NewTracker_def InitProgress_def buildMajorityConfig_def solo_raft_def sample_node_def)
   (simp add: sample_defs FirstIndex_def newRaftLog_def Let_def zero_Progress_def LastIndex_def lastIndex_def maybeLastIndex_def)

lemma solo_raft_ok: "raft_ok solo_raft" "log_room (rlog solo_raft)"
proof -
  have "rlog solo_raft = rlog sample_node" "tracker_ok (trk solo_raft)"
    by (simp_all add: solo_raft_def tracker_ok_def)
  with sample_log_ok(1) sample_raft_ok(2) show "raft_ok solo_raft" "log_room (rlog solo_raft)"
    by (simp_all add: raft_ok_def role_ok_def) (simp_all add: solo_raft_def sample_node_def)
qed

theorem lone_voter_elects_witness:
  "\<exists>r'. ticks 13 solo_raft = Inr r' \<and> state r' = Leader \<and> cur_term r' = 1"
proof -
  have "state solo_raft \<noteq> Leader" "set (Voters (trk solo_raft)) = {rid solo_raft}" "cur_term solo_raft = 0"
    "electionElapsed solo_raft + int 13 = randomizedElectionTimeout solo_raft"
    by (simp_all add: solo_raft_def sample_node_def)
  with lone_voter_elects [OF solo_raft_ok, of 13] show ?thesis by auto
qed

end
