(* ===== verification/Cluster.thy ===== *)
theory Cluster
  imports Host Election Raft_Recovery Campaigns
begin

text \<open>
  Several nodes with their hosts and a network. A node takes events between the moments its
  host takes a \<open>Ready\<close>, saves and sends it, and calls \<open>Advance\<close>. A message once sent may
  be delivered at any time, any number of times, or never. A server may crash at any time;
  it restarts with \<open>newRaft\<close> on a storage that has the hard state saved last, or the one it
  was saving. The server compacts the log on its own. Two history variables go along: \<open>elected\<close>, all pairs
  of a term and a node that was leader in it, and \<open>stale_seen\<close>, whether a message of a leader
  of an earlier term was ever delivered to a candidate. The code does not reject such a message; the
  candidate follows the earlier leader, back in its term, and forgets its vote.
\<close>

section \<open>Steps\<close>

datatype phase = Idle | Taken Ready | Done Ready | Stopped Ready

record server =
  sv_node :: node
  sv_host :: raftHost
  sv_phase :: phase

record cluster =
  servers :: "u64 \<Rightarrow> server"
  cnet :: "Message set"
  elected :: "(u64 \<times> u64) set"
  stale_seen :: bool

abbreviation sv_raft :: "server \<Rightarrow> Raft" where
  "sv_raft sv \<equiv> nr (sv_node sv)"

definition put_server :: "cluster \<Rightarrow> u64 \<Rightarrow> server \<Rightarrow> Message set \<Rightarrow> cluster" where
  "put_server C i sv N =
     C\<lparr>servers := (servers C)(i := sv), cnet := cnet C \<union> N,
       elected := elected C \<union> (if state (sv_raft sv) = Leader then {(cur_term (sv_raft sv), i)} else {})\<rparr>"

definition note_stale :: "bool \<Rightarrow> cluster \<Rightarrow> cluster" where
  "note_stale b C = C\<lparr>stale_seen := (stale_seen C \<or> b)\<rparr>"

text \<open>A delivered message was sent to this node; terms stay away from the end of their range.\<close>

definition event_ok :: "Message set \<Rightarrow> u64 \<Rightarrow> Raft \<Rightarrow> node_event \<Rightarrow> bool" where
  "event_ok N i r ev =
     (case ev of
        EvStep m \<Rightarrow> m \<in> N \<and> mTo m = i \<and> \<not> IsLocalMsg (mType m) \<and> term_room r m
      | EvReady \<Rightarrow> False
      | EvAdvance \<Rightarrow> False
      | _ \<Rightarrow> unat (cur_term r) + 1 < 2 ^ 64)"

fun steps_room :: "Raft \<Rightarrow> Message list \<Rightarrow> bool" where
  "steps_room r [] \<longleftrightarrow> True"
| "steps_room r (m # ms) \<longleftrightarrow> term_room r m
     \<and> (case Step r m of Inl _ \<Rightarrow> True | Inr (r', _) \<Rightarrow> steps_room r' ms)"

definition advance_ok :: "node \<Rightarrow> bool" where
  "advance_ok n =
     (case Advance (nr n) (rd n) of Inl _ \<Rightarrow> True | Inr r \<Rightarrow> steps_room r (stepsOnAdvance n))"

definition stale_event :: "Raft \<Rightarrow> node_event \<Rightarrow> bool" where
  "stale_event r ev = (case ev of EvStep m \<Rightarrow> \<not> not_stale r m | _ \<Rightarrow> False)"

fun stale_steps :: "Raft \<Rightarrow> Message list \<Rightarrow> bool" where
  "stale_steps r [] \<longleftrightarrow> False"
| "stale_steps r (m # ms) \<longleftrightarrow> \<not> not_stale r m \<or> (case Step r m of Inl _ \<Rightarrow> False | Inr (r', _) \<Rightarrow> stale_steps r' ms)"

definition stale_advance :: "node \<Rightarrow> bool" where
  "stale_advance n =
     (case Advance (nr n) (rd n) of Inl _ \<Rightarrow> False | Inr r \<Rightarrow> stale_steps r (stepsOnAdvance n))"

definition saved_hard :: "HardState \<Rightarrow> Ready \<Rightarrow> HardState" where
  "saved_hard h rdy = (if IsEmptyHardState (rdHardState rdy) then h else the (rdHardState rdy))"

definition saving :: "phase \<Rightarrow> HardState \<Rightarrow> HardState set" where
  "saving ph h = (case ph of Idle \<Rightarrow> {h} | Taken rdy \<Rightarrow> {h, saved_hard h rdy} | Done rdy \<Rightarrow> {h}
                  | Stopped rdy \<Rightarrow> {h, saved_hard h rdy})"

inductive cluster_step :: "u64 list \<Rightarrow> cluster \<Rightarrow> cluster \<Rightarrow> bool" for V where
  step_event: "i \<in> set V \<Longrightarrow> sv = servers C i \<Longrightarrow> event_ok (cnet C) i (sv_raft sv) ev \<Longrightarrow>
    iterate (sv_node sv) ev = Inr (Some (n, e)) \<Longrightarrow>
    cluster_step V C (put_server (note_stale (stale_event (sv_raft sv) ev) C) i (sv\<lparr>sv_node := n\<rparr>) {})"
| step_take: "i \<in> set V \<Longrightarrow> sv = servers C i \<Longrightarrow> sv_phase sv = Idle \<Longrightarrow> node_top (sv_node sv) = Inr n \<Longrightarrow>
    readyc n \<Longrightarrow> host_take (sv_host sv) n = (h, n', rdy) \<Longrightarrow>
    cluster_step V C (put_server C i \<lparr>sv_node = n', sv_host = h, sv_phase = Taken rdy\<rparr> {})"
| step_batch: "i \<in> set V \<Longrightarrow> sv = servers C i \<Longrightarrow> sv_phase sv = Taken rdy \<Longrightarrow>
    handleBatch io cio taken (storage (rlog (sv_raft sv))) (sv_host sv) rdy = Inr (s, h0, e) \<Longrightarrow>
    host_batch io cio taken (sv_host sv) (sv_node sv) rdy = Inr (h, n) \<Longrightarrow>
    cluster_step V C (put_server C i
      \<lparr>sv_node = n, sv_host = h, sv_phase = (if e = None then Done rdy else Stopped rdy)\<rparr>
      (if e = None then set (rdMessages rdy) else {}))"
| step_advance: "i \<in> set V \<Longrightarrow> sv = servers C i \<Longrightarrow> sv_phase sv = Done rdy \<Longrightarrow> advance_ok (sv_node sv) \<Longrightarrow>
    iterate (sv_node sv) EvAdvance = Inr (Some (n, e)) \<Longrightarrow>
    cluster_step V C (put_server (note_stale (stale_advance (sv_node sv)) C) i (sv\<lparr>sv_node := n, sv_phase := Idle\<rparr>) {})"
| step_compact: "i \<in> set V \<Longrightarrow> sv = servers C i \<Longrightarrow>
    MaybeCompact io cio (storage (rlog (sv_raft sv))) thru = Inr (s, e) \<Longrightarrow>
    cluster_step V C (put_server C i (sv\<lparr>sv_node := (sv_node sv)\<lparr>nr := (sv_raft sv)\<lparr>
      rlog := (rlog (sv_raft sv))\<lparr>storage := s\<rparr>\<rparr>\<rparr>\<rparr>) {})"
| step_crash: "i \<in> set V \<Longrightarrow> sv = servers C i \<Longrightarrow>
    hs u \<in> saving (sv_phase sv) (hs (storage (rlog (sv_raft sv)))) \<Longrightarrow>
    setupNode cfg rnd io = Inr n \<Longrightarrow> cfgID cfg = i \<Longrightarrow> insert i (set (cfgPeers cfg)) = set V \<Longrightarrow>
    cfgStorage cfg = Some u \<Longrightarrow>
    cluster_step V C (put_server C i \<lparr>sv_node = n, sv_host = h, sv_phase = Idle\<rparr> {})"

definition cluster_start :: "u64 list \<Rightarrow> cluster \<Rightarrow> bool" where
  "cluster_start V C \<longleftrightarrow> None_id \<notin> set V \<and> cnet C = {} \<and> elected C = {} \<and> \<not> stale_seen C
     \<and> (\<forall>i \<in> set V. sv_phase (servers C i) = Idle
          \<and> (\<exists>cfg rnd io. setupNode cfg rnd io = Inr (sv_node (servers C i))
               \<and> cfgID cfg = i \<and> insert i (set (cfgPeers cfg)) = set V))"

inductive cluster_run :: "u64 list \<Rightarrow> cluster \<Rightarrow> bool" for V where
  cluster_init: "cluster_start V C \<Longrightarrow> cluster_run V C"
| cluster_more: "cluster_run V C \<Longrightarrow> cluster_step V C C' \<Longrightarrow> cluster_run V C'"

section \<open>The invariant of a server\<close>

definition net_from :: "Message set \<Rightarrow> u64 \<Rightarrow> Message set" where
  "net_from N i = {m \<in> N. vote_msg m \<and> mFrom m = i}"

definition reached :: "Message set \<Rightarrow> u64 \<Rightarrow> Message \<Rightarrow> bool" where
  "reached N i m \<longleftrightarrow> m \<in> N \<and> mTo m = i \<or> mFrom m = i"

definition own_msgs :: "node \<Rightarrow> Message set" where
  "own_msgs n = set (rdMessages (rd n)) \<union> set (stepsOnAdvance n)"

text \<open>The hard state \<open>h\<close> remembers every promise the node has sent.\<close>

definition hard_kept :: "Message set \<Rightarrow> u64 \<Rightarrow> HardState \<Rightarrow> bool" where
  "hard_kept N i h \<longleftrightarrow> (\<forall>m \<in> net_from N i. kept (hTerm h) (hVotedFor h) m)"

definition ready_kept :: "HardState \<Rightarrow> Ready \<Rightarrow> Message set \<Rightarrow> u64 \<Rightarrow> bool" where
  "ready_kept h rdy N i \<longleftrightarrow> hard_kept (N \<union> set (rdMessages rdy)) i (saved_hard h rdy)"

definition remembered :: "node \<Rightarrow> bool" where
  "remembered n \<longleftrightarrow> prevHard n = None \<or> prevHard n = Some (hs (storage (rlog (nr n))))"

abbreviation node_hs :: "node \<Rightarrow> HardState" where
  "node_hs n \<equiv> hs (storage (rlog (nr n)))"

fun phase_ok :: "Message set \<Rightarrow> u64 \<Rightarrow> node \<Rightarrow> phase \<Rightarrow> bool" where
  "phase_ok N i n Idle \<longleftrightarrow> \<not> advancec n \<and> (readyc n \<longrightarrow> ready_kept (node_hs n) (rd n) N i) \<and> remembered n"
| "phase_ok N i n (Taken rdy) \<longleftrightarrow> advancec n \<and> \<not> readyc n \<and> rd n = rdy \<and> ready_kept (node_hs n) rdy N i \<and> remembered n"
| "phase_ok N i n (Done rdy) \<longleftrightarrow> advancec n \<and> \<not> readyc n \<and> rd n = rdy
     \<and> (if IsEmptyHardState (rdHardState rdy) then remembered n else rdHardState rdy = Some (node_hs n))"
| "phase_ok N i n (Stopped rdy) \<longleftrightarrow> advancec n \<and> \<not> readyc n \<and> rd n = rdy \<and> ready_kept (node_hs n) rdy N i"

definition sv_inv :: "u64 list \<Rightarrow> Message set \<Rightarrow> u64 \<Rightarrow> node \<Rightarrow> phase \<Rightarrow> bool" where
  "sv_inv V N i n ph \<longleftrightarrow> rid (nr n) = i \<and> set (Voters (trk (nr n))) = set V
     \<and> vote_inv (reached N i) (net_from N i \<union> own_msgs n) (nr n)
     \<and> hard_kept N i (hs (storage (rlog (nr n)))) \<and> phase_ok N i n ph"

lemma vote_inv_promise:
  assumes "vote_inv D S r" "m \<in> promises S r"
  shows "mFrom m = rid r" "vote_target m \<noteq> None_id" "asked D m" "kept (cur_term r) (votedFor r) m"
  using assms by (simp_all add: vote_inv_def promises_ok_def)

text \<open>A change of the node's raft state.\<close>

lemma sv_inv_raft:
  assumes "sv_inv V N i n ph" "vote_inv (reached N i) (net_from N i \<union> own_msgs n) r" "same_core (nr n) r"
  shows "sv_inv V N i (n\<lparr>nr := r\<rparr>) ph"
  using assms by (cases ph) (auto simp: sv_inv_def same_core_def own_msgs_def remembered_def split: if_splits)

lemma sv_inv_net:
  assumes "sv_inv V N i n ph" "N \<subseteq> N'" "net_from N' i = net_from N i"
    and "\<And>m. m \<in> N' \<Longrightarrow> vote_msg m \<Longrightarrow> mFrom m \<noteq> None_id"
  shows "sv_inv V N' i n ph"
proof -
  note v = assms(1) [unfolded sv_inv_def]
  have "i \<noteq> None_id" using v by (auto simp: vote_inv_def election_ok_def)
  have "vote_inv (reached N' i) (net_from N' i \<union> own_msgs n) (nr n)"
  proof (rule vote_inv_mono)
    show "vote_inv (reached N i) (net_from N i \<union> own_msgs n) (nr n)" using v by blast
    show "reached N' i m" if "reached N i m" for m using that assms(2) by (auto simp: reached_def)
    show "mFrom m \<noteq> None_id" if "reached N' i m" "mType m = MsgVote" for m
      using that assms(4) [of m] \<open>i \<noteq> None_id\<close> by (auto simp: reached_def vote_msg_def)
  qed (simp add: assms(3))
  moreover have "net_from (N' \<union> A) i = net_from (N \<union> A) i" for A using assms(3) by (auto simp: net_from_def)
  ultimately show ?thesis
    using v assms(3) by (cases ph) (simp_all add: sv_inv_def hard_kept_def ready_kept_def)
qed

section \<open>Each step\<close>

lemma ready_kept_new:
  assumes "vote_inv D (net_from N i \<union> own_msgs n) (nr n)" "rid (nr n) = i" "ready n = Inr rdy"
    and "prevHard n = None \<or> prevHard n = Some h"
  shows "ready_kept h rdy N i"
proof -
  let ?r = "nr n" and ?c = "current_HardState (nr n)"
  have msgs: "set (rdMessages rdy) \<subseteq> set (messages ?r) \<union> set (msgsAfterAppend ?r)"
    and hard: "rdHardState rdy = (if Some ?c = prevHard n then None else Some ?c)"
    using assms(3) by (auto simp: ready_def Ready_of_def elim!: and_then_InrE split: if_split_asm)
  have k: "vote_target m \<noteq> None_id \<and> kept (cur_term ?r) (votedFor ?r) m" if "m \<in> net_from (N \<union> set (rdMessages rdy)) i" for m
  proof -
    have "m \<in> promises (net_from N i \<union> own_msgs n) ?r" using that msgs by (auto simp: net_from_def promises_def)
    with vote_inv_promise [OF assms(1)] show ?thesis by blast
  qed
  have "IsEmptyHardState None" by (simp add: IsEmptyHardState_def)
  then have "saved_hard h rdy = ?c \<or> IsEmptyHardState (Some ?c)"
    using hard assms(4) by (auto simp: saved_hard_def split: if_split_asm)
  then consider "saved_hard h rdy = ?c" | "IsEmptyHardState (Some ?c)" by blast
  then show ?thesis
  proof cases
    case 1
    with k show ?thesis by (simp add: ready_kept_def hard_kept_def current_HardState_def)
  next
    case 2
    then have "cur_term ?r = 0" "votedFor ?r = 0" by (simp_all add: IsEmptyHardState_def current_HardState_def)
    with k have "net_from (N \<union> set (rdMessages rdy)) i = {}" by (auto simp: kept_def)
    then show ?thesis by (simp add: ready_kept_def hard_kept_def)
  qed
qed

lemma ready_messages:
  "ready n = Inr rdy \<Longrightarrow> set (rdMessages rdy) \<subseteq> set (messages (nr n)) \<union> set (msgsAfterAppend (nr n))"
  by (auto simp: ready_def Ready_of_def elim!: and_then_InrE split: if_split_asm)

lemma sv_inv_top:
  assumes inv: "sv_inv V N i n ph" and top: "node_top n = Inr n'"
  shows "sv_inv V N i n' ph"
proof (cases "\<not> advancec n \<and> hasReady n")
  case False
  with assms show ?thesis by (simp add: node_top_def)
next
  case True
  with top obtain rdy where rdy: "ready n = Inr rdy" "n' = n\<lparr>readyc := True, rd := rdy\<rparr>"
    by (auto simp: node_top_def elim!: and_then_InrE)
  note v = inv [unfolded sv_inv_def]
  have ph: "ph = Idle" using True v by (cases ph) auto
  have "ready_kept (hs (storage (rlog (nr n)))) rdy N i"
    using v ph by (intro ready_kept_new [OF _ _ rdy(1)]) (auto simp: remembered_def)
  moreover have "vote_inv (reached N i) (net_from N i \<union> own_msgs n') (nr n')"
  proof (rule vote_inv_cong)
    show "vote_inv (reached N i) (net_from N i \<union> own_msgs n) (nr n)" using v by blast
    show "promises (net_from N i \<union> own_msgs n') (nr n') \<subseteq> promises (net_from N i \<union> own_msgs n) (nr n)"
      using ready_messages [OF rdy(1)] by (auto simp: rdy(2) own_msgs_def promises_def)
  qed (simp_all add: rdy(2))
  ultimately show ?thesis using v ph by (simp add: sv_inv_def rdy(2) remembered_def)
qed


lemma local_event:
  assumes "unat (cur_term r) + 1 < 2 ^ 64" "mTerm m = 0" "mType m = MsgProp \<or> mType m = MsgHup \<or> mType m = MsgReadIndex"
  shows "not_stale r m" "term_room r m" "\<not> vote_msg m"
  using assms by (auto simp: not_stale_def term_room_def from_leader_def vote_msg_def)

lemma node_top_raft: "node_top n = Inr n' \<Longrightarrow> nr n' = nr n \<and> stepsOnAdvance n' = stepsOnAdvance n"
  by (auto simp: node_top_def elim!: and_then_InrE split: if_split_asm)

lemma with_raft_Inr: "with_raft n res = Inr (n', e) \<longleftrightarrow> (\<exists>r. res = Inr (r, e) \<and> n' = n\<lparr>nr := r\<rparr>)"
  by (cases res) (auto simp: with_raft_def)

lemma sv_inv_Step:
  assumes "sv_inv V N i n ph" "Step (nr n) m = Inr (r, e)" "not_stale (nr n) m" "term_room (nr n) m"
    and "vote_msg m \<Longrightarrow> m \<in> N \<and> mTo m = i"
  shows "sv_inv V N i (n\<lparr>nr := r\<rparr>) ph"
proof -
  have "vote_inv (reached N i) (net_from N i \<union> own_msgs n) r \<and> same_core (nr n) r"
    by (rule vote_inv_Step [OF assms(2-4)]) (use assms(1,5) in \<open>auto simp: sv_inv_def reached_def\<close>)
  with assms(1) sv_inv_raft show ?thesis by blast
qed

lemma sv_inv_event:
  assumes inv: "sv_inv V N i n ph" and ev: "event_ok N i (nr n) ev" "\<not> stale_event (nr n) ev"
    and it: "iterate n ev = Inr (Some (n', e))"
  shows "sv_inv V N i n' ph"
proof -
  obtain n1 where top: "node_top n = Inr n1" and sel: "node_select n1 ev = Inr (n', e)"
    using it by (auto simp: iterate_def elim!: and_then_InrE split: if_split_asm)
  have inv1: "sv_inv V N i n1 ph" using inv top by (rule sv_inv_top)
  have ev1: "event_ok N i (nr n1) ev" "\<not> stale_event (nr n1) ev" using ev node_top_raft [OF top] by simp_all
  show ?thesis
  proof (cases ev)
    case EvTick
    with sel obtain r where r: "Tick (nr n1) = Inr r" "n' = n1\<lparr>nr := r\<rparr>"
      by (auto simp: node_select_def with_raft_Inr elim!: and_then_InrE)
    have "unat (cur_term (nr n1)) + 1 < 2 ^ 64" using ev1(1) EvTick by (simp add: event_ok_def)
    moreover have "vote_inv (reached N i) (net_from N i \<union> own_msgs n1) (nr n1)" using inv1 by (simp add: sv_inv_def)
    ultimately show ?thesis using vote_inv_Tick [OF r(1)] sv_inv_raft [OF inv1] r(2) by blast
  qed (use sel ev1 inv1 in \<open>auto simp: node_select_def with_raft_Inr event_ok_def stale_event_def Propose_def Campaign_def
      ReadIndex_def vote_msg_def intro!: sv_inv_Step intro: local_event\<close>)
qed

lemma sv_inv_take:
  assumes "sv_inv V N i n Idle" "readyc n"
  shows "sv_inv V N i (on_ready n) (Taken (rd n))"
proof -
  note v = assms(1) [unfolded sv_inv_def]
  have "vote_inv (reached N i) (net_from N i \<union> own_msgs (on_ready n)) (nr (on_ready n))"
  proof (rule vote_inv_cong)
    show "vote_inv (reached N i) (net_from N i \<union> own_msgs n) (nr n)" using v by blast
    show "promises (net_from N i \<union> own_msgs (on_ready n)) (nr (on_ready n)) \<subseteq> promises (net_from N i \<union> own_msgs n) (nr n)"
      by (auto simp: on_ready_def own_msgs_def promises_def)
  qed (simp_all add: on_ready_def)
  with v assms(2) show ?thesis by (simp add: sv_inv_def on_ready_def remembered_def)
qed

lemma storage_truncateAndAppend_hs: "storage_truncateAndAppend s es = Inr (t, e) \<Longrightarrow> hs t = hs s"
  by (auto simp: storage_truncateAndAppend_def Let_def elim!: and_then_InrE split: if_split_asm)

lemma Save_hs:
  assumes "Save io cio s es hard = Inr (t, e)"
  shows "(e = None \<longrightarrow> hs t = effective_hard s hard) \<and> (hs t = hs s \<or> hs t = effective_hard s hard)"
proof (cases "es = [] \<and> IsEmptyHardState hard")
  case True
  with assms show ?thesis by (auto simp: Save_def effective_hard_def split: option.split)
next
  case False
  with assms show ?thesis
    by (auto simp: Save_def Let_def effective_hard_def [symmetric] dest!: storage_truncateAndAppend_hs
        split: prod.split_asm if_split_asm)
qed

lemma handleBatch_hs:
  assumes "handleBatch io cio taken s h rdy = Inr (t, h', e)"
  shows "(e = None \<longrightarrow> hs t = saved_hard (hs s) rdy) \<and> hs t \<in> {hs s, saved_hard (hs s) rdy}"
proof -
  have "effective_hard s (rdHardState rdy) = saved_hard (hs s) rdy"
    by (auto simp: effective_hard_def saved_hard_def IsEmptyHardState_def split: option.split)
  with assms show ?thesis
    by (auto simp: handleBatch_def Let_def saved_hard_def elim!: and_then_InrE dest!: Save_hs split: if_split_asm)
qed

lemma nonempty_hard: "\<not> IsEmptyHardState h \<Longrightarrow> h = Some (the h)"
  by (cases h) (simp_all add: IsEmptyHardState_def)

lemma vote_inv_rlog: "vote_inv D S r \<Longrightarrow> vote_inv D S (r\<lparr>rlog := l\<rparr>)"
  by (erule vote_inv_cong) (simp_all add: promises_def)

lemma sv_inv_storage:
  assumes "sv_inv V N i n ph" "hs s = node_hs n"
  shows "sv_inv V N i (n\<lparr>nr := (nr n)\<lparr>rlog := (rlog (nr n))\<lparr>storage := s\<rparr>\<rparr>\<rparr>) ph"
proof (rule sv_inv_raft [OF assms(1)])
  show "vote_inv (reached N i) (net_from N i \<union> own_msgs n) ((nr n)\<lparr>rlog := (rlog (nr n))\<lparr>storage := s\<rparr>\<rparr>)"
    using assms(1) by (intro vote_inv_rlog) (simp add: sv_inv_def)
qed (simp add: same_core_def assms(2))

lemma ready_promises:
  assumes "sv_inv V N i n (Taken rdy)" "m \<in> set (rdMessages rdy)" "vote_msg m"
  shows "mFrom m = i"
proof -
  have "m \<in> promises (net_from N i \<union> own_msgs n) (nr n)"
    using assms by (auto simp: sv_inv_def promises_def own_msgs_def)
  then show ?thesis using vote_inv_promise(1) assms(1) by (metis sv_inv_def)
qed

lemma sv_inv_batch:
  assumes inv: "sv_inv V N i n (Taken rdy)"
    and hb: "handleBatch io cio taken (storage (rlog (nr n))) h rdy = Inr (s, h', e)"
    and pos: "\<And>m. m \<in> N \<Longrightarrow> vote_msg m \<Longrightarrow> mFrom m \<noteq> None_id"
  shows "sv_inv V (if e = None then N \<union> set (rdMessages rdy) else N) i
    (n\<lparr>nr := (nr n)\<lparr>rlog := (rlog (nr n))\<lparr>storage := s\<rparr>\<rparr>\<rparr>) (if e = None then Done rdy else Stopped rdy)"
proof -
  let ?r = "(nr n)\<lparr>rlog := (rlog (nr n))\<lparr>storage := s\<rparr>\<rparr>"
  let ?N = "if e = None then N \<union> set (rdMessages rdy) else N"
  note v = inv [unfolded sv_inv_def]
  note hs = handleBatch_hs [OF hb]
  have p: "advancec n" "\<not> readyc n" "rd n = rdy" "ready_kept (node_hs n) rdy N i" "remembered n" using v by auto
  have i: "i \<noteq> None_id" using v by (auto simp: vote_inv_def election_ok_def)
  have "vote_inv (reached N i) (net_from N i \<union> own_msgs n) ?r"
    using v by (intro vote_inv_rlog) simp
  then have "vote_inv (reached ?N i) (net_from ?N i \<union> own_msgs n) ?r"
  proof (rule vote_inv_mono)
    show "mFrom m \<noteq> None_id" if "reached ?N i m" "mType m = MsgVote" for m
      using that pos [of m] i ready_promises [OF inv, of m] by (auto simp: reached_def vote_msg_def split: if_split_asm)
    show "promises (net_from ?N i \<union> own_msgs n) ?r \<subseteq> promises (net_from N i \<union> own_msgs n) ?r"
      using p(3) by (auto simp: promises_def net_from_def own_msgs_def)
  qed (auto simp: reached_def)
  moreover have "hard_kept ?N i (hs s)"
    using hs v p(4) by (auto simp: ready_kept_def hard_kept_def net_from_def)
  moreover have "ready_kept (hs s) rdy N i"
    using hs p(4) by (auto simp: ready_kept_def saved_hard_def split: if_split_asm)
  ultimately show ?thesis
    using v p hs nonempty_hard [of "rdHardState rdy"]
    by (auto simp: sv_inv_def own_msgs_def remembered_def saved_hard_def split: if_split_asm)
qed

lemma fold_Step_inv:
  assumes "fold_then (\<lambda>m r. and_then (Step r m) (\<lambda>(r, _). Inr r)) ms r = Inr r'" "steps_room r ms" "\<not> stale_steps r ms"
    and "\<And>m. m \<in> set ms \<Longrightarrow> vote_msg m \<Longrightarrow> D m" "vote_inv D S r"
  shows "vote_inv D S r' \<and> same_core r r'"
  using assms
proof (induction ms arbitrary: r)
  case Nil
  then show ?case by (simp add: same_core_def)
next
  case (Cons m ms)
  then obtain r1 e where st: "Step r m = Inr (r1, e)"
    and rest: "fold_then (\<lambda>m r. and_then (Step r m) (\<lambda>(r, _). Inr r)) ms r1 = Inr r'"
    by (auto elim!: and_then_InrE)
  have 1: "vote_inv D S r1 \<and> same_core r r1"
    using st by (rule vote_inv_Step) (use Cons.prems in simp_all)
  moreover have "vote_inv D S r' \<and> same_core r1 r'"
    using rest by (rule Cons.IH) (use Cons.prems st 1 in simp_all)
  ultimately show ?case by (simp add: same_core_def)
qed

lemma Advance_cases:
  assumes "Advance r rdy = Inr r'"
  obtains l where "r' = r\<lparr>rlog := l, messages := [], readStates := []\<rparr>" "storage l = storage (rlog r)"
proof -
  obtain l where l: "(if rdEntries rdy \<noteq> [] then stableTo (rlog r) (eIndex (last (rdEntries rdy))) (eTerm (last (rdEntries rdy)))
      else Inr (rlog r)) = Inr l"
    and r': "r' = r\<lparr>rlog := (if rdCommittedEntries rdy \<noteq> [] then appliedTo l (eIndex (last (rdCommittedEntries rdy))) else l),
      messages := [], readStates := []\<rparr>"
    using assms by (auto simp: Advance_def Let_def elim!: and_then_InrE)
  from l have "storage l = storage (rlog r)"
    by (auto simp: stableTo_def elim!: and_then_InrE split: if_split_asm)
  then show ?thesis by (intro that [OF r']) (auto simp: appliedTo_def)
qed

lemma sv_inv_advance:
  assumes inv: "sv_inv V N i n (Done rdy)" and ok: "advance_ok n" "\<not> stale_advance n" and it: "iterate n EvAdvance = Inr (Some (n', e))"
  shows "sv_inv V N i n' Idle"
proof -
  note v = inv [unfolded sv_inv_def]
  let ?S = "net_from N i \<union> own_msgs n"
  let ?n = "if \<not> IsEmptyHardState (rdHardState (rd n)) then n\<lparr>prevHard := rdHardState (rd n)\<rparr> else n"
  have n: "node_top n = Inr n" using v by (simp add: node_top_def)
  then obtain r1 r2 where adv: "Advance (nr n) (rd n) = Inr r1"
    and fold: "fold_then (\<lambda>m r. and_then (Step r m) (\<lambda>(r, _). Inr r)) (stepsOnAdvance n) r1 = Inr r2"
    and n': "n' = ?n\<lparr>nr := r2, stepsOnAdvance := [], rd := empty_Ready, advancec := False\<rparr>"
    using it by (auto simp: iterate_def node_select_def on_advance_def Let_def elim!: and_then_InrE split: if_split_asm)
  obtain l where l: "r1 = (nr n)\<lparr>rlog := l, messages := [], readStates := []\<rparr>" "storage l = storage (rlog (nr n))"
    using adv by (rule Advance_cases)
  have v1: "vote_inv (reached N i) ?S r1"
  proof (rule vote_inv_cong)
    show "vote_inv (reached N i) ?S (nr n)" using v by blast
    show "promises ?S r1 \<subseteq> promises ?S (nr n)" by (auto simp: l(1) promises_def)
  qed (simp_all add: l(1))
  have "vote_inv (reached N i) ?S r2 \<and> same_core r1 r2"
    using fold
  proof (rule fold_Step_inv)
    show "steps_room r1 (stepsOnAdvance n)" "\<not> stale_steps r1 (stepsOnAdvance n)"
      using ok adv by (simp_all add: advance_ok_def stale_advance_def)
    show "reached N i m" if "m \<in> set (stepsOnAdvance n)" "vote_msg m" for m
      using vote_inv_promise(1) [OF v1, of m] that v by (auto simp: promises_def own_msgs_def reached_def l(1))
  qed (rule v1)
  then have "vote_inv (reached N i) ?S r2" "same_core (nr n) r2" by (simp_all add: same_core_def l)
  moreover from this(1) have "vote_inv (reached N i) (net_from N i \<union> own_msgs n') r2"
  proof (rule vote_inv_cong)
    show "promises (net_from N i \<union> own_msgs n') r2 \<subseteq> promises ?S r2"
      by (auto simp: n' own_msgs_def promises_def empty_Ready_def)
  qed simp_all
  ultimately show ?thesis
    using v nonempty_hard [of "rdHardState (rd n)"]
    by (auto simp: sv_inv_def same_core_def n' remembered_def split: if_split_asm)
qed

lemma sv_inv_new:
  assumes st: "setupNode cfg rnd io = Inr n" "cfgID cfg = i" "insert i (set (cfgPeers cfg)) = set V"
    "cfgStorage cfg = Some u" "i \<noteq> None_id"
    and N: "\<And>m. m \<in> N \<Longrightarrow> vote_msg m \<Longrightarrow> mFrom m \<noteq> None_id" "hard_kept N i (hs u)" "consistent (net_from N i)"
    "\<And>m. m \<in> net_from N i \<Longrightarrow> vote_target m \<noteq> None_id \<and> asked (reached N i) m"
  shows "sv_inv V N i n Idle"
proof -
  obtain r where r: "newRaft cfg rnd io = Inr r"
    and n: "n = \<lparr>nr = r, prevHard = None, stepsOnAdvance = [], rd = empty_Ready, readyc = False, advancec = False\<rparr>"
    using st(1) by (auto simp: setupNode_def elim!: and_then_InrE)
  from r show ?thesis
  proof (cases rule: newRaft_cases)
    case (1 s)
    have s: "s = u" "storage (rlog r) = u" using 1 st(4) by (simp_all add: newRaftLog_def Let_def)
    have t: "tracker_ok (trk r)" "set (Voters (trk r)) = set V"
      using initial_config 1 st(2,3) by (auto simp: buildMajorityConfig_keys)
    have "promises (net_from N i \<union> own_msgs n) r = net_from N i"
      using 1 by (auto simp: promises_def n own_msgs_def empty_Ready_def net_from_def)
    then have "promises_ok (reached N i) (net_from N i \<union> own_msgs n) r"
      using 1 st(2,5) s N by (auto simp: promises_ok_def reached_def hard_kept_def InitialState_def net_from_def vote_msg_def)
    then have "vote_inv (reached N i) (net_from N i \<union> own_msgs n) r"
      using 1 t st(2,5) by (simp add: vote_inv_def election_ok_def)
    then show ?thesis using 1 t s st(2) N(2) by (simp add: sv_inv_def n remembered_def)
  qed
qed

section \<open>The invariant of the cluster\<close>

definition cluster_inv :: "u64 list \<Rightarrow> cluster \<Rightarrow> bool" where
  "cluster_inv V C \<longleftrightarrow> None_id \<notin> set V \<and> (\<forall>m \<in> cnet C. vote_msg m \<longrightarrow> mFrom m \<in> set V)
     \<and> (\<forall>i \<in> set V. sv_inv V (cnet C) i (sv_node (servers C i)) (sv_phase (servers C i)))
     \<and> (\<forall>(t, c) \<in> elected C. c \<in> set V \<and> is_majority V (insert c (granted_by (reached (cnet C) c) t)))"

lemma sv_inv_leader:
  assumes "sv_inv V N i n ph" "state (nr n) = Leader"
  shows "is_majority V (insert i (granted_by (reached N i) (cur_term (nr n))))"
proof -
  have "is_majority (Voters (trk (nr n))) = is_majority V"
    using assms(1) by (simp add: is_majority_def fun_eq_iff sv_inv_def)
  with assms show ?thesis by (auto simp: sv_inv_def vote_inv_def election_ok_def)
qed

lemma cluster_inv_put:
  assumes inv: "cluster_inv V C" and i: "i \<in> set V"
    and sv: "sv_inv V (cnet C \<union> X) i (sv_node sv) (sv_phase sv)"
    and X: "\<And>m. m \<in> X \<Longrightarrow> vote_msg m \<Longrightarrow> mFrom m = i"
  shows "cluster_inv V (put_server C i sv X)"
proof -
  note c = inv [unfolded cluster_inv_def]
  have "sv_inv V (cnet C \<union> X) j (sv_node (servers C j)) (sv_phase (servers C j))" if "j \<in> set V" "j \<noteq> i" for j
  proof (rule sv_inv_net)
    show "sv_inv V (cnet C) j (sv_node (servers C j)) (sv_phase (servers C j))" using c that(1) by blast
    show "net_from (cnet C \<union> X) j = net_from (cnet C) j" using X that(2) by (auto simp: net_from_def)
    show "mFrom m \<noteq> None_id" if "m \<in> cnet C \<union> X" "vote_msg m" for m
      using that c i X by fastforce
  qed simp
  moreover have "is_majority V (insert d (granted_by (reached (cnet C \<union> X) d) t))"
    if "is_majority V (insert d (granted_by (reached (cnet C) d) t))" for d t
    using that by (rule is_majority_mono) (auto simp: granted_by_def reached_def)
  moreover have "mFrom m \<in> set V" if "m \<in> cnet C \<union> X" "vote_msg m" for m using that c i X by fastforce
  ultimately show ?thesis
    using c i sv sv_inv_leader [OF sv]
    by (auto simp: cluster_inv_def put_server_def)
qed

lemma sv_inv_saving:
  assumes "sv_inv V N i n ph" "h \<in> saving ph (node_hs n)"
  shows "hard_kept N i h"
  using assms by (cases ph) (auto simp: sv_inv_def saving_def ready_kept_def hard_kept_def net_from_def)

lemma sv_inv_net_promises:
  assumes "sv_inv V N i n ph"
  shows "consistent (net_from N i)"
    "\<And>m. m \<in> net_from N i \<Longrightarrow> vote_target m \<noteq> None_id \<and> asked (reached N i) m"
proof -
  have v: "vote_inv (reached N i) (net_from N i \<union> own_msgs n) (nr n)" using assms by (simp add: sv_inv_def)
  have sub: "net_from N i \<subseteq> promises (net_from N i \<union> own_msgs n) (nr n)" by (auto simp: promises_def net_from_def)
  then show "consistent (net_from N i)"
    using v unfolding vote_inv_def promises_ok_def consistent_def by blast
  show "vote_target m \<noteq> None_id \<and> asked (reached N i) m" if "m \<in> net_from N i" for m
    using vote_inv_promise(2,3) [OF v] sub that by blast
qed

lemma MaybeCompact_hs: "MaybeCompact io cio s thru = Inr (t, e) \<Longrightarrow> hs t = hs s"
  by (auto simp: MaybeCompact_def compactLocked_def deleteOldSegments_def persistSnapshotMeta_def Let_def
      elim!: and_then_InrE split: if_split_asm sum.split_asm prod.split_asm option.split_asm)

lemma note_stale_simps [simp]:
  "cluster_inv V (note_stale b C) = cluster_inv V C" "cnet (note_stale b C) = cnet C"
  "stale_seen (note_stale b C) \<longleftrightarrow> stale_seen C \<or> b" "stale_seen (put_server C i sv N) = stale_seen C"
  by (simp_all add: note_stale_def cluster_inv_def put_server_def)

lemma cluster_inv_step:
  assumes "cluster_step V C C'" "cluster_inv V C" "\<not> stale_seen C'"
  shows "cluster_inv V C'"
  using assms
proof (cases rule: cluster_step.cases)
  case (step_event i sv ev n e)
  from assms(2) step_event have "sv_inv V (cnet C) i (sv_node sv) (sv_phase sv)" by (simp add: cluster_inv_def)
  with step_event assms(2,3) show ?thesis by (auto intro!: cluster_inv_put intro: sv_inv_event)
next
  case (step_take i sv n h n' rdy)
  from assms(2) step_take have "sv_inv V (cnet C) i (sv_node sv) Idle" by (auto simp: cluster_inv_def)
  with step_take assms(2) show ?thesis
    by (auto intro!: cluster_inv_put sv_inv_take simp: host_take_def dest: sv_inv_top)
next
  case (step_batch i sv rdy io cio taken s h0 e h n)
  from assms(2) step_batch have inv: "sv_inv V (cnet C) i (sv_node sv) (Taken rdy)" by (auto simp: cluster_inv_def)
  have n: "n = (sv_node sv)\<lparr>nr := (sv_raft sv)\<lparr>rlog := (rlog (sv_raft sv))\<lparr>storage := s\<rparr>\<rparr>\<rparr>"
    using step_batch(5,6) by (auto simp: host_batch_def Let_def)
  have "sv_inv V (if e = None then cnet C \<union> set (rdMessages rdy) else cnet C) i n (if e = None then Done rdy else Stopped rdy)"
    unfolding n using inv step_batch(5)
    by (rule sv_inv_batch) (use assms(2) in \<open>auto simp: cluster_inv_def\<close>)
  with step_batch assms(2) show ?thesis
    by (auto intro!: cluster_inv_put intro: ready_promises [OF inv] split: if_split_asm)
next
  case (step_advance i sv rdy n e)
  from assms(2) step_advance have "sv_inv V (cnet C) i (sv_node sv) (Done rdy)" by (auto simp: cluster_inv_def)
  with step_advance assms(2,3) show ?thesis by (auto intro!: cluster_inv_put intro: sv_inv_advance)
next
  case (step_compact i sv io cio thru s e)
  from assms(2) step_compact have "sv_inv V (cnet C) i (sv_node sv) (sv_phase sv)" by (simp add: cluster_inv_def)
  with step_compact assms(2) MaybeCompact_hs show ?thesis by (auto intro!: cluster_inv_put sv_inv_storage)
next
  case (step_crash i sv u cfg rnd io n h)
  from assms(2) step_crash have inv: "sv_inv V (cnet C) i (sv_node sv) (sv_phase sv)" by (simp add: cluster_inv_def)
  have "sv_inv V (cnet C) i n Idle"
    using step_crash(5-8)
    by (rule sv_inv_new)
      (use assms(2) step_crash(2) sv_inv_net_promises [OF inv] sv_inv_saving [OF inv step_crash(4)] in
        \<open>auto simp: cluster_inv_def\<close>)
  with step_crash assms(2) show ?thesis by (auto intro!: cluster_inv_put)
qed

lemma start_server:
  assumes "cluster_start V C" "i \<in> set V"
  obtains cfg rnd io where "setupNode cfg rnd io = Inr (sv_node (servers C i))" "cfgID cfg = i"
      "insert i (set (cfgPeers cfg)) = set V" "sv_phase (servers C i) = Idle" "i \<noteq> None_id"
proof -
  have "sv_phase (servers C i) = Idle \<and> (\<exists>cfg rnd io. setupNode cfg rnd io = Inr (sv_node (servers C i))
               \<and> cfgID cfg = i \<and> insert i (set (cfgPeers cfg)) = set V)"
    using assms by (auto simp only: cluster_start_def)
  moreover have "i \<noteq> None_id" using assms by (auto simp only: cluster_start_def)
  ultimately show ?thesis using that by (elim conjE exE)
qed

lemma cluster_inv_start:
  assumes "cluster_start V C"
  shows "cluster_inv V C"
proof -
  have "sv_inv V {} i (sv_node (servers C i)) (sv_phase (servers C i))" if i: "i \<in> set V" for i
    using assms i
  proof (rule start_server)
    fix cfg rnd io assume cfg: "setupNode cfg rnd io = Inr (sv_node (servers C i))" "cfgID cfg = i"
      "insert i (set (cfgPeers cfg)) = set V" and ph: "sv_phase (servers C i) = Idle" and 0: "i \<noteq> None_id"
    obtain r where "newRaft cfg rnd io = Inr r" using cfg(1) by (auto simp: setupNode_def elim!: and_then_InrE)
    then obtain u where u: "cfgStorage cfg = Some u" by (rule newRaft_cases)
    show ?thesis
      unfolding ph by (rule sv_inv_new [OF cfg u 0]) (simp_all add: hard_kept_def net_from_def consistent_def)
  qed
  moreover have "cnet C = {}" "elected C = {}" "None_id \<notin> set V" using assms by (auto simp only: cluster_start_def)
  ultimately show ?thesis by (simp add: cluster_inv_def)
qed

lemma stale_stays: "cluster_step V C C' \<Longrightarrow> stale_seen C \<Longrightarrow> stale_seen C'"
  by (induction rule: cluster_step.induct) simp_all

lemma cluster_run_inv: "cluster_run V C \<Longrightarrow> \<not> stale_seen C \<Longrightarrow> cluster_inv V C"
  by (induction rule: cluster_run.induct) (auto intro: cluster_inv_start cluster_inv_step dest: stale_stays)

section \<open>Election safety\<close>

lemma majority_of_one:
  assumes "is_majority V {c}" "d \<in> set V" "c \<in> set V"
  shows "d = c"
proof (rule ccontr)
  assume "d \<noteq> c"
  then have "card {c, d} \<le> card (set V)" using assms by (intro card_mono) auto
  with \<open>d \<noteq> c\<close> assms show False by (simp add: is_majority_def)
qed

lemma one_promise_per_term:
  assumes "cluster_inv V C" "m \<in> cnet C" "m' \<in> cnet C" "vote_msg m" "vote_msg m'" "mFrom m = mFrom m'" "mTerm m = mTerm m'"
  shows "vote_target m = vote_target m'"
proof -
  have "mFrom m \<in> set V" using assms by (simp add: cluster_inv_def)
  then have "consistent (net_from (cnet C) (mFrom m))"
    using assms(1) sv_inv_net_promises(1) unfolding cluster_inv_def by blast
  moreover have "m \<in> net_from (cnet C) (mFrom m)" "m' \<in> net_from (cnet C) (mFrom m)"
    using assms(2-6) by (simp_all add: net_from_def)
  ultimately show ?thesis using assms(7) unfolding consistent_def by blast
qed

text \<open>A leader holds a quorum; a member other than itself has granted it the vote, and then the
  leader had sent its request.\<close>

lemma elected_evidence:
  assumes "cluster_inv V C" "(t, c) \<in> elected C"
  shows "c \<in> set V" "is_majority V (insert c (granted_by (reached (cnet C) c) t))"
  using assms by (auto simp: cluster_inv_def)

lemma grant_was_asked:
  assumes "cluster_inv V C" "n \<in> granted_by (reached (cnet C) c) t" "n \<noteq> c"
  obtains g q where "g \<in> cnet C" "vote_msg g" "mFrom g = n" "mTerm g = t" "vote_target g = c"
    "q \<in> cnet C" "vote_msg q" "mFrom q = c" "mTerm q = t" "vote_target q = c"
proof -
  obtain g where g: "g \<in> cnet C" "mTo g = c" "mType g = MsgVoteResp" "\<not> mReject g" "mTerm g = t" "mFrom g = n"
    using assms(2,3) by (auto simp: granted_by_def reached_def)
  then have vg: "vote_msg g" "vote_target g = c" by (simp_all add: vote_msg_def vote_target_def)
  then have "n \<in> set V" using assms(1) g by (auto simp: cluster_inv_def)
  then have "sv_inv V (cnet C) n (sv_node (servers C n)) (sv_phase (servers C n))"
    using assms(1) by (simp add: cluster_inv_def)
  from sv_inv_net_promises(2) [OF this, of g] have "asked (reached (cnet C) n) g"
    using g vg by (simp add: net_from_def)
  then obtain q where q: "reached (cnet C) n q" "mType q = MsgVote" "mTerm q = t" "mFrom q = c"
    using g vg assms(3) by (auto simp: asked_def)
  then have "q \<in> cnet C" using assms(3) by (auto simp: reached_def)
  with q g vg that show ?thesis by (simp add: vote_msg_def vote_target_def)
qed

lemma one_leader_aux:
  assumes inv: "cluster_inv V C" and e: "(t, c) \<in> elected C" "(t, d) \<in> elected C"
    and g: "c \<in> granted_by (reached (cnet C) d) t" "c \<noteq> d"
  shows False
proof (cases "\<exists>n. n \<in> granted_by (reached (cnet C) c) t \<and> n \<noteq> c")
  case True
  then obtain n where n: "n \<in> granted_by (reached (cnet C) c) t" "n \<noteq> c" by blast
  obtain g q where "g \<in> cnet C" "vote_msg g" "mFrom g = c" "mTerm g = t" "vote_target g = d"
    using grant_was_asked [OF inv g] by metis
  moreover obtain q where "q \<in> cnet C" "vote_msg q" "mFrom q = c" "mTerm q = t" "vote_target q = c"
    using grant_was_asked [OF inv n] by metis
  ultimately show False using one_promise_per_term [OF inv, of g q] \<open>c \<noteq> d\<close> by simp
next
  case False
  then have "is_majority V {c}"
    using elected_evidence(2) [OF inv e(1)] by (elim is_majority_mono) auto
  with majority_of_one elected_evidence(1) [OF inv] e \<open>c \<noteq> d\<close> show False by blast
qed


section \<open>Runs of three nodes\<close>

text \<open>
  Steps of a cluster of the nodes 1, 2 and 3 as a function, to follow a run: an event, a \<open>Ready\<close> taken, saved and
  sent, \<open>Advance\<close>, and a crash with a restart from what is on disk. Nothing fails here, and terms stay small.
\<close>

definition trio_ids :: "u64 list" where
  "trio_ids = [1, 2, 3]"

datatype action = ActEvent u64 node_event | ActTake u64 | ActBatch u64 | ActAdvance u64 | ActCrash u64

fun steps_small :: "Raft \<Rightarrow> Message list \<Rightarrow> bool" where
  "steps_small r [] \<longleftrightarrow> True"
| "steps_small r (m # ms) \<longleftrightarrow> cur_term r < 1000 \<and> mTerm m < 1000
     \<and> (case Step r m of Inl _ \<Rightarrow> True | Inr (r', _) \<Rightarrow> steps_small r' ms)"

definition event_small :: "Message set \<Rightarrow> u64 \<Rightarrow> Raft \<Rightarrow> node_event \<Rightarrow> bool" where
  "event_small N i r ev \<longleftrightarrow> cur_term r < 1000
     \<and> (case ev of EvStep m \<Rightarrow> m \<in> N \<and> mTo m = i \<and> \<not> IsLocalMsg (mType m) \<and> mTerm m < 1000 | EvCampaign \<Rightarrow> True | _ \<Rightarrow> False)"

definition trio_config :: "u64 \<Rightarrow> disk \<Rightarrow> Config" where
  "trio_config i d = \<lparr>cfgID = i, cfgPeers = remove1 i trio_ids,
     cfgStorage = Some (projr (snd (NewDurableStorageWithOptions good_io d 0 0))), cfgApplied = 0, cfgElectionTick = 10, cfgHeartbeatTick = 1\<rparr>"

fun act :: "action \<Rightarrow> cluster \<Rightarrow> cluster option" where
  "act (ActEvent i ev) C =
     (let sv = servers C i in
      if i \<in> set trio_ids \<and> event_small (cnet C) i (sv_raft sv) ev
      then (case iterate (sv_node sv) ev of
              Inr (Some (n, e)) \<Rightarrow> Some (put_server (note_stale (stale_event (sv_raft sv) ev) C) i (sv\<lparr>sv_node := n\<rparr>) {})
            | _ \<Rightarrow> None)
      else None)"
| "act (ActTake i) C =
     (let sv = servers C i in
      case node_top (sv_node sv) of
        Inl _ \<Rightarrow> None
      | Inr n \<Rightarrow>
          if i \<in> set trio_ids \<and> sv_phase sv = Idle \<and> readyc n
          then (case host_take (sv_host sv) n of
                  (h, n', rdy) \<Rightarrow> Some (put_server C i \<lparr>sv_node = n', sv_host = h, sv_phase = Taken rdy\<rparr> {}))
          else None)"
| "act (ActBatch i) C =
     (let sv = servers C i in
      if i \<notin> set trio_ids then None
      else
        case sv_phase sv of
        Taken rdy \<Rightarrow>
          (case handleBatch good_io good_io None (storage (rlog (sv_raft sv))) (sv_host sv) rdy of
             Inl _ \<Rightarrow> None
           | Inr (s, h0, e) \<Rightarrow>
               (case host_batch good_io good_io None (sv_host sv) (sv_node sv) rdy of
                  Inl _ \<Rightarrow> None
                | Inr (h, n) \<Rightarrow> Some (put_server C i
                    \<lparr>sv_node = n, sv_host = h, sv_phase = (if e = None then Done rdy else Stopped rdy)\<rparr>
                    (if e = None then set (rdMessages rdy) else {}))))
      | _ \<Rightarrow> None)"
| "act (ActAdvance i) C =
     (let sv = servers C i in
      if i \<notin> set trio_ids then None
      else
        case sv_phase sv of
        Done rdy \<Rightarrow>
          (case iterate (sv_node sv) EvAdvance of
             Inr (Some (n, e)) \<Rightarrow>
               if (case Advance (sv_raft sv) (rd (sv_node sv)) of
                     Inl _ \<Rightarrow> False | Inr r \<Rightarrow> steps_small r (stepsOnAdvance (sv_node sv)))
               then Some (put_server (note_stale (stale_advance (sv_node sv)) C) i (sv\<lparr>sv_node := n, sv_phase := Idle\<rparr>) {})
               else None
           | _ \<Rightarrow> None)
      | _ \<Rightarrow> None)"
| "act (ActCrash i) C =
     (let sv = servers C i; s = storage (rlog (sv_raft sv)); cfg = trio_config i (disk s) in
      if i \<in> set trio_ids \<and> hs (the (cfgStorage cfg)) = hs s
      then (case setupNode cfg (\<lambda>_. 3) good_io of
              Inl _ \<Rightarrow> None
            | Inr n \<Rightarrow> Some (put_server C i \<lparr>sv_node = n, sv_host = sv_host sv, sv_phase = Idle\<rparr> {}))
      else None)"

fun acts :: "action list \<Rightarrow> cluster \<Rightarrow> cluster option" where
  "acts [] C = Some C"
| "acts (a # as) C = (case act a C of None \<Rightarrow> None | Some C' \<Rightarrow> acts as C')"

lemma small_room: "cur_term r < 1000 \<Longrightarrow> unat (cur_term r) + 1 < 2 ^ 64" "cur_term r < 1000 \<Longrightarrow> mTerm m < 1000 \<Longrightarrow> term_room r m"
  by (simp_all add: word_less_nat_alt term_room_def)

lemma steps_small_room: "steps_small r ms \<Longrightarrow> steps_room r ms"
  by (induction r ms rule: steps_small.induct) (auto simp: small_room split: sum.splits)

lemma event_small_ok: "event_small N i r ev \<Longrightarrow> event_ok N i r ev"
  using small_room(1) [of r] by (auto simp: event_small_def event_ok_def small_room(2) split: node_event.splits)

lemma trio_config_ok: "i \<in> set trio_ids \<Longrightarrow> cfgID (trio_config i d) = i \<and> insert i (set (cfgPeers (trio_config i d))) = set trio_ids"
  by (auto simp: trio_config_def trio_ids_def)

lemma trio_config_storage: "cfgStorage (trio_config i d) = Some (the (cfgStorage (trio_config i d)))"
  by (simp add: trio_config_def)

lemma act_step:
  assumes "act a C = Some C'"
  shows "cluster_step trio_ids C C'"
proof (cases a)
  case (ActEvent i ev)
  then show ?thesis
    using assms event_small_ok
    by (auto simp: Let_def split: if_split_asm sum.split_asm option.split_asm intro!: step_event)
next
  case (ActTake i)
  then show ?thesis
    using assms by (auto simp: Let_def split: if_split_asm sum.split_asm prod.split_asm intro!: step_take)
next
  case (ActBatch i)
  then have i: "i \<in> set trio_ids" using assms by (auto simp: Let_def split: if_split_asm)
  obtain rdy s h0 e h n where "sv_phase (servers C i) = Taken rdy"
    "handleBatch good_io good_io None (storage (rlog (sv_raft (servers C i)))) (sv_host (servers C i)) rdy = Inr (s, h0, e)"
    "host_batch good_io good_io None (sv_host (servers C i)) (sv_node (servers C i)) rdy = Inr (h, n)"
    "C' = put_server C i \<lparr>sv_node = n, sv_host = h, sv_phase = (if e = None then Done rdy else Stopped rdy)\<rparr>
       (if e = None then set (rdMessages rdy) else {})"
    using assms ActBatch i by (auto simp: Let_def split: sum.split_asm phase.split_asm prod.split_asm)
  with step_batch [OF i refl] show ?thesis by (simp only:)
next
  case (ActAdvance i)
  then show ?thesis
    using assms
    by (auto simp: Let_def advance_ok_def steps_small_room split: if_split_asm sum.split_asm phase.split_asm option.split_asm
        intro!: step_advance)
next
  case (ActCrash i)
  then show ?thesis
    using assms trio_config_ok [of i] trio_config_storage
    by (auto simp: Let_def saving_def split: if_split_asm sum.split_asm phase.split intro!: step_crash)
qed

lemma acts_run: "acts as C = Some C' \<Longrightarrow> cluster_run trio_ids C \<Longrightarrow> cluster_run trio_ids C'"
  by (induction as arbitrary: C) (auto dest: act_step cluster_more split: option.split_asm)

definition trio :: cluster where
  "trio = \<lparr>servers = (\<lambda>i. \<lparr>sv_node = projr (setupNode (trio_config i []) (\<lambda>_. 3) good_io),
     sv_host = \<lparr>h_peers = [], h_lead = 0, h_outs = [], h_err = None\<rparr>, sv_phase = Idle\<rparr>), cnet = {}, elected = {}, stale_seen = False\<rparr>"

lemma trio_setup: "i \<in> set trio_ids \<Longrightarrow> \<not> isl (setupNode (trio_config i []) (\<lambda>_. 3) good_io)"
proof -
  have "\<not> isl (setupNode (trio_config 1 []) (\<lambda>_. 3) good_io)" "\<not> isl (setupNode (trio_config 2 []) (\<lambda>_. 3) good_io)"
    "\<not> isl (setupNode (trio_config 3 []) (\<lambda>_. 3) good_io)" by code_simp+
  then show "i \<in> set trio_ids \<Longrightarrow> \<not> isl (setupNode (trio_config i []) (\<lambda>_. 3) good_io)" by (auto simp: trio_ids_def)
qed

lemma trio_start: "cluster_run trio_ids trio"
proof (rule cluster_init)
  have "\<exists>cfg rnd io. setupNode cfg rnd io = Inr (sv_node (servers trio i)) \<and> cfgID cfg = i \<and> insert i (set (cfgPeers cfg)) = set trio_ids"
    if i: "i \<in> set trio_ids" for i
  proof (intro exI conjI)
    show "setupNode (trio_config i []) (\<lambda>_. 3) good_io = Inr (sv_node (servers trio i))"
      using trio_setup [OF i] by (simp add: trio_def)
  qed (use trio_config_ok [OF i] in simp_all)
  moreover have "None_id \<notin> set trio_ids" by (simp add: trio_ids_def)
  moreover have "cnet trio = {}" "elected trio = {}" "\<not> stale_seen trio" "sv_phase (servers trio i) = Idle" for i
    by (simp_all add: trio_def)
  ultimately show "cluster_start trio_ids trio" unfolding cluster_start_def by blast
qed

definition trio_msg :: "MessageType \<Rightarrow> u64 \<Rightarrow> u64 \<Rightarrow> u64 \<Rightarrow> Message" where
  "trio_msg ty from to t = (new_Message ty)\<lparr>mFrom := from, mTo := to, mTerm := t\<rparr>"

text \<open>Node 1 is elected in term 1 with the vote of node 2.\<close>

definition trio_election :: "action list" where
  "trio_election = [ActEvent 1 EvCampaign, ActTake 1, ActBatch 1, ActAdvance 1,
     ActEvent 2 (EvStep (trio_msg MsgPreVote 1 2 1)), ActTake 2, ActBatch 2, ActAdvance 2,
     ActEvent 1 (EvStep (trio_msg MsgPreVoteResp 2 1 1)), ActTake 1, ActBatch 1, ActAdvance 1,
     ActEvent 2 (EvStep (trio_msg MsgVote 1 2 1)), ActTake 2, ActBatch 2,
     ActEvent 1 (EvStep (trio_msg MsgVoteResp 2 1 1))]"

lemma trio_elects:
  "case acts trio_election trio of None \<Rightarrow> False | Some C \<Rightarrow> (1, 1) \<in> elected C \<and> \<not> stale_seen C"
  by code_simp


text \<open>Then node 2 is elected in term 2 with the vote of node 3; node 3 asks for pre-votes and
  gets the append that node 1 sent in term 1; node 1 crashes, restarts and campaigns.\<close>

definition trio_split :: "action list" where
  "trio_split = [ActTake 1, ActBatch 1, ActAdvance 2,
     ActEvent 2 EvCampaign, ActTake 2, ActBatch 2, ActAdvance 2,
     ActEvent 3 (EvStep (trio_msg MsgPreVote 2 3 2)), ActTake 3, ActBatch 3, ActAdvance 3,
     ActEvent 2 (EvStep (trio_msg MsgPreVoteResp 3 2 2)), ActTake 2, ActBatch 2,
     ActEvent 3 (EvStep (trio_msg MsgVote 2 3 2)), ActTake 3, ActBatch 3, ActAdvance 3,
     ActEvent 2 (EvStep (trio_msg MsgVoteResp 3 2 2)),
     ActEvent 3 EvCampaign,
     ActEvent 3 (EvStep ((trio_msg MsgApp 1 3 1)\<lparr>mEntries := [\<lparr>eIndex = 1, eTerm = 1, eData = []\<rparr>]\<rparr>)),
     ActTake 3, ActBatch 3, ActAdvance 3, ActCrash 1,
     ActEvent 1 EvCampaign, ActTake 1, ActBatch 1, ActAdvance 1,
     ActEvent 3 (EvStep ((trio_msg MsgPreVote 1 3 2)\<lparr>mIndex := 1, mLogTerm := 1\<rparr>)), ActTake 3, ActBatch 3, ActAdvance 3,
     ActEvent 1 (EvStep (trio_msg MsgPreVoteResp 3 1 2)), ActTake 1, ActBatch 1, ActAdvance 1,
     ActEvent 3 (EvStep ((trio_msg MsgVote 1 3 2)\<lparr>mIndex := 1, mLogTerm := 1\<rparr>)), ActTake 3, ActBatch 3,
     ActEvent 1 (EvStep (trio_msg MsgVoteResp 3 1 2))]"

lemma trio_splits:
  "case acts (trio_election @ trio_split) trio of None \<Rightarrow> False | Some C \<Rightarrow> (2, 1) \<in> elected C \<and> (2, 2) \<in> elected C"
  by code_simp


end
