(* ===== verification/Replication.thy ===== *)
theory Replication
  imports Raft_Total
begin

text \<open>
  What the operations of a node do to the replicated log: appends accepted and refused by a
  follower, proposals, the commit rule of a leader, snapshots, and a campaign without peers.
\<close>

section \<open>Appends at a follower\<close>

definition sent_resp :: "Raft \<Rightarrow> Message \<Rightarrow> Message" where
  "sent_resp r m = m\<lparr>mFrom := rid r, mTerm := cur_term r\<rparr>"

lemma send_AppResp:
  "mType m = MsgAppResp \<Longrightarrow> mFrom m = None_id \<Longrightarrow>
     send r m = Inr (r\<lparr>msgsAfterAppend := msgsAfterAppend r @ [sent_resp r m]\<rparr>)"
  by (simp add: send_def enqueue_def Let_def sent_resp_def)

lemma follower_append_step:
  assumes "mType m = MsgApp" "state r = Follower" "role_ok r" "mTerm m = cur_term r" 
  shows "Step r m = and_then (handleAppendEntries (r\<lparr>electionElapsed := 0, lead := mFrom m\<rparr>) m) step_ok"
  using assms
  by (simp add: Step_def step_term_def step_message_def call_step_def stepFollower_def role_ok_def)

text \<open>Whether the log, from the snapshot boundary to its last entry, has term \<open>t\<close> at index \<open>i\<close>.\<close>

definition holds_entry :: "raftLog \<Rightarrow> nat \<Rightarrow> u64 \<Rightarrow> bool" where
  "holds_entry l i t \<longleftrightarrow> log_base l \<le> i \<and> i \<le> log_base l + length (log_contents l)
     \<and> log_term (log_base l) (sTerm (snap (storage l))) (log_contents l) i = t"

lemma log_term_after:
  assumes sh: "log_shape l" and i: "log_base l + length (log_contents l) < unat i" "LastIndex (storage l) < i"
  shows "log_term_of l i = Inr (Inl ErrUnavailable)"
proof -
  have "maybeTerm (unstable l) i = Inr None"
    using i length_log_contents [OF sh] unat_offset_end(1) [OF sh] by (simp add: maybeTerm_def word_as_nat)
  moreover have "Term (storage l) i = Inr (Inl ErrUnavailable)"
    using log_shape_D(1) [OF sh] by (rule Term_after) (use i(2) LastIndex_ok [OF log_shape_D(1) [OF sh]] in \<open>simp add: word_as_nat\<close>)
  moreover have "i \<noteq> 0" using i by auto
  ultimately show ?thesis by (simp add: log_term_of_def)
qed

lemma matchTerm_holds:
  assumes "log_shape l" "holds_entry l (unat i) t"
  shows "matchTerm l i t = Inr True"
  using assms log_term_of_ok [OF assms(1), of i] by (simp add: matchTerm_def holds_entry_def)

lemma matchTerm_not_held:
  assumes sh: "log_shape l" and i: "\<not> holds_entry l (unat i) t" "i \<noteq> 0 \<or> t \<noteq> 0" "lastIndex l < i \<longrightarrow> LastIndex (storage l) < i"
  shows "matchTerm l i t = Inr False"
proof -
  consider "i = 0" | "0 < unat i" "unat i < log_base l" | "log_base l + length (log_contents l) < unat i"
    | "log_base l \<le> unat i" "unat i \<le> log_base l + length (log_contents l)"
    by (cases "i = 0"; cases "unat i < log_base l"; cases "log_base l + length (log_contents l) < unat i")
      (auto simp: word_eq_unat not_less)
  then show ?thesis
  proof cases
    case 1
    then show ?thesis using i(2) by (simp add: matchTerm_def log_term_of_def)
  next
    case 2
    then show ?thesis using log_term_before [OF sh] by (simp add: matchTerm_def)
  next
    case 3
    then show ?thesis using log_term_after [OF sh] i(3) lastIndex_ok [OF sh] by (simp add: matchTerm_def word_as_nat)
  next
    case 4
    then show ?thesis using log_term_of_ok [OF sh 4] i(1) by (simp add: matchTerm_def holds_entry_def)
  qed
qed

lemma append_accepted:
  assumes r: "raft_ok r" "state r = Follower" and m: "mType m = MsgApp" "mTerm m = cur_term r"
    and prev: "holds_entry (rlog r) (unat (mIndex m)) (mLogTerm m)"
    and es: "mEntries m \<noteq> [] \<longrightarrow> committed (rlog r) \<le> mIndex m \<and> contiguous_from (Suc (unat (mIndex m))) (mEntries m)
      \<and> Suc (unat (mIndex m)) + length (mEntries m) < 2 ^ 64"
  shows "\<exists>r'. Step r m = Inr (r', None) \<and> log_ok (rlog r')
    \<and> log_contents (rlog r') = (if mEntries m = [] then log_contents (rlog r)
         else take (unat (mIndex m) - log_base (rlog r)) (log_contents (rlog r)) @ mEntries m)
    \<and> storage (rlog r') = storage (rlog r)
    \<and> committed (rlog r') = max (committed (rlog r)) (min (mCommit m) (lastIndex (rlog r')))
    \<and> lead r' = mFrom m \<and> msgsAfterAppend r' = msgsAfterAppend r @ [sent_resp r (app_resp m)]"
proof -
  let ?r = "r\<lparr>electionElapsed := 0, lead := mFrom m\<rparr>"
  have sh: "log_shape (rlog r)" using raft_ok_D(1) [OF r(1)] by (simp add: log_ok_def)
  have match: "matchTerm (rlog r) (mIndex m) (mLogTerm m) = Inr True" using sh prev by (rule matchTerm_holds)
  have "mIndex m \<le> lastIndex (rlog r)" using prev lastIndex_ok [OF sh] by (simp add: holds_entry_def word_as_nat)
  with es have app: "app_ok (rlog r) m" by (simp add: app_ok_def)
  obtain l where l: "handleAppendEntries ?r m = send (?r\<lparr>rlog := l\<rparr>) (app_resp m)" "app_done ?r m l"
    using handleAppendEntries_match [of ?r m] app match raft_ok_D(1) [OF r(1)] by auto
  have "send (?r\<lparr>rlog := l\<rparr>) (app_resp m) =
      Inr (?r\<lparr>rlog := l, msgsAfterAppend := msgsAfterAppend r @ [sent_resp r (app_resp m)]\<rparr>)"
    by (subst send_AppResp) (simp_all add: app_resp_def sent_resp_def)
  with l show ?thesis
    by (simp add: follower_append_step [OF m(1) r(2) raft_ok_D(6) [OF r(1)] m(2)] app_done_def appended_msg_def)
qed

lemma append_below_commit:
  assumes r: "raft_ok r" "state r = Follower" and m: "mType m = MsgApp" "mTerm m = cur_term r"
    and prev: "holds_entry (rlog r) (unat (mIndex m)) (mLogTerm m)"
    and es: "mEntries m \<noteq> []" "contiguous_from (Suc (unat (mIndex m))) (mEntries m)" "mIndex m < committed (rlog r)"
  shows "Step r m = Inl PanicAppendBeforeCommitted"
proof -
  have "log_shape (rlog r)" using raft_ok_D(1) [OF r(1)] by (simp add: log_ok_def)
  then have match: "matchTerm (rlog r) (mIndex m) (mLogTerm m) = Inr True" using prev by (rule matchTerm_holds)
  have "unat (eIndex (hd (mEntries m))) = Suc (unat (mIndex m))" using es(1,2) by (cases "mEntries m") simp_all
  then have "eIndex (hd (mEntries m)) - 1 = mIndex m" by (simp add: word_eq_unat unat_minus_one unat_eq_zero [symmetric])
  then have "appendEntries (rlog r) (mEntries m) = Inl PanicAppendBeforeCommitted" using es(1,3) by (simp add: appendEntries_def)
  then show ?thesis
    using match es(1)
    by (simp add: follower_append_step [OF m(1) r(2) raft_ok_D(6) [OF r(1)] m(2)] handleAppendEntries_def append_message_def Let_def)
qed

text \<open>C4. A follower that receives an append of its term whose previous entry it holds, at the
  snapshot boundary or in its log, ends with its log up to that entry followed by the entries of the message,
  moves its commit index to the leader's but not beyond its own log, and acknowledges the last entry
  received; its storage is untouched. The entries are numbered from the previous one on and no index runs
  over. One case ends otherwise: when the message carries entries and its previous entry lies below the commit index,
  as a late or repeated append may, the node panics.\<close>
theorem follower_accepts_append:
  assumes "raft_ok r" "state r = Follower" "mType m = MsgApp" "mTerm m = cur_term r"
    and "holds_entry (rlog r) (unat (mIndex m)) (mLogTerm m)"
    and "contiguous_from (Suc (unat (mIndex m))) (mEntries m)" "Suc (unat (mIndex m)) + length (mEntries m) < 2 ^ 64"
  shows "if mEntries m = [] \<or> committed (rlog r) \<le> mIndex m
    then \<exists>r'. Step r m = Inr (r', None) \<and> log_ok (rlog r')
      \<and> log_contents (rlog r') = (if mEntries m = [] then log_contents (rlog r)
           else take (unat (mIndex m) - log_base (rlog r)) (log_contents (rlog r)) @ mEntries m)
      \<and> storage (rlog r') = storage (rlog r)
      \<and> committed (rlog r') = max (committed (rlog r)) (min (mCommit m) (lastIndex (rlog r')))
      \<and> lead r' = mFrom m \<and> msgsAfterAppend r' = msgsAfterAppend r @ [sent_resp r (app_resp m)]
    else Step r m = Inl PanicAppendBeforeCommitted"
proof (cases "mEntries m = [] \<or> committed (rlog r) \<le> mIndex m")
  case True
  then have "mEntries m \<noteq> [] \<longrightarrow> committed (rlog r) \<le> mIndex m \<and> contiguous_from (Suc (unat (mIndex m))) (mEntries m)
      \<and> Suc (unat (mIndex m)) + length (mEntries m) < 2 ^ 64" using assms(6,7) by blast
  from append_accepted [OF assms(1-5) this] True show ?thesis by (simp only: if_True)
next
  case False
  then show ?thesis using append_below_commit [OF assms(1-5) _ assms(6)] by (simp add: not_le)
qed

text \<open>C13. A follower whose log has no entry at the previous index of an append, or one of another
  term there, changes nothing in its log and answers with a rejection that names the index and its own snapshot
  boundary. Index 0 with term 0 stands before every log and never counts as missing. An index past
  the log is taken to lie past the stored entries too: where the end of the log has been cut off in memory
  only, the code still compares with the stored entry.\<close>
theorem follower_rejects_append:
  assumes r: "raft_ok r" "state r = Follower" and m: "mType m = MsgApp" "mTerm m = cur_term r"
    and prev: "\<not> holds_entry (rlog r) (unat (mIndex m)) (mLogTerm m)" "mIndex m \<noteq> 0 \<or> mLogTerm m \<noteq> 0"
      "lastIndex (rlog r) < mIndex m \<longrightarrow> LastIndex (storage (rlog r)) < mIndex m"
  shows "\<exists>r'. Step r m = Inr (r', None) \<and> rlog r' = rlog r
    \<and> msgsAfterAppend r' = msgsAfterAppend r @ [sent_resp r ((new_Message MsgAppResp)\<lparr>mTo := mFrom m,
        mReject := True, mIndex := mIndex m, mRejectHint := sIndex (snap (storage (rlog r)))\<rparr>)]"
proof -
  let ?r = "r\<lparr>electionElapsed := 0, lead := mFrom m\<rparr>"
  let ?m = "(new_Message MsgAppResp)\<lparr>mTo := mFrom m, mReject := True, mIndex := mIndex m,
    mRejectHint := sIndex (snap (storage (rlog r)))\<rparr>"
  have "log_shape (rlog r)" using raft_ok_D(1) [OF r(1)] by (simp add: log_ok_def)
  then have "matchTerm (rlog r) (mIndex m) (mLogTerm m) = Inr False" using prev by (rule matchTerm_not_held)
  then have "handleAppendEntries ?r m = send ?r ?m"
    by (simp add: handleAppendEntries_def Let_def Snapshot_def)
  also have "\<dots> = Inr (?r\<lparr>msgsAfterAppend := msgsAfterAppend r @ [sent_resp r ?m]\<rparr>)"
    by (subst send_AppResp) (simp_all add: sent_resp_def)
  finally show ?thesis
    by (simp add: follower_append_step [OF m(1) r(2) raft_ok_D(6) [OF r(1)] m(2)])
qed

definition sample_append :: "u64 \<Rightarrow> u64 \<Rightarrow> Message" where
  "sample_append prev lt = (new_Message MsgApp)\<lparr>mFrom := 2, mTo := 1, mTerm := 1, mIndex := prev, mLogTerm := lt,
     mCommit := 1, mEntries := [\<lparr>eIndex = prev + 1, eTerm = 1, eData = [42]\<rparr>]\<rparr>"

lemma sample_voter_ok: "raft_ok sample_voter" "rlog sample_voter = rlog sample_node"
  "state sample_voter = Follower" "cur_term sample_voter = 1"
proof -
  have "raft_ok (becomeFollower sample_node 1 2)" using sample_raft_ok(1) by (rule raft_ok_becomeFollower)
  then show "raft_ok sample_voter" unfolding sample_voter_def by (rule raft_ok_cong) simp_all
qed (simp_all add: sample_voter_def)

lemma sample_base: "log_base (rlog sample_node) = 0" "committed (rlog sample_node) = 0" "lastIndex (rlog sample_node) = 0"
  by (simp_all add: sample_node_def newRaftLog_def Let_def sample_storage_def empty_SnapshotMeta_def FirstIndex_def
      lastIndex_def maybeLastIndex_def LastIndex_def)

lemma sample_held: "holds_entry (rlog sample_voter) 0 0" "\<not> holds_entry (rlog sample_voter) 5 1"
  "LastIndex (storage (rlog sample_voter)) = 0"
  unfolding sample_voter_ok(2)
  by (simp_all add: holds_entry_def log_term_def log_contents_def sample_node_def newRaftLog_def Let_def sample_storage_def empty_SnapshotMeta_def FirstIndex_def LastIndex_def)

theorem follower_accepts_append_witness:
  "\<exists>r'. Step sample_voter (sample_append 0 0) = Inr (r', None)
     \<and> log_contents (rlog r') = [\<lparr>eIndex = 1, eTerm = 1, eData = [42]\<rparr>] \<and> committed (rlog r') = 1"
proof -
  have es: "committed (rlog sample_voter) = 0" "contiguous_from (Suc 0) (mEntries (sample_append 0 0))" "length (mEntries (sample_append 0 0)) = 1"
    using sample_base sample_voter_ok(2) by (simp_all add: sample_append_def)
  from follower_accepts_append [OF sample_voter_ok(1,3), of "sample_append 0 0"] sample_voter_ok(4) sample_held(1) es obtain r' where
    r': "Step sample_voter (sample_append 0 0) = Inr (r', None)" "log_ok (rlog r')"
      "log_contents (rlog r') = [\<lparr>eIndex = 1, eTerm = 1, eData = [42]\<rparr>]"
      "storage (rlog r') = storage (rlog sample_voter)"
      "committed (rlog r') = max (committed (rlog sample_voter)) (min 1 (lastIndex (rlog r')))"
    by (auto simp: sample_append_def)
  have "unat (lastIndex (rlog r')) = 1"
    using lastIndex_ok [of "rlog r'"] r'(2-4) sample_base(1) sample_voter_ok(2) by (simp add: log_ok_def)
  then have "lastIndex (rlog r') = 1" by (simp add: word_eq_unat)
  with r' sample_base(2) sample_voter_ok(2) show ?thesis by (intro exI [of _ r']) simp
qed

theorem follower_rejects_append_witness:
  "\<exists>r'. Step sample_voter (sample_append 5 1) = Inr (r', None) \<and> rlog r' = rlog sample_voter"
  using follower_rejects_append [OF sample_voter_ok(1,3), of "sample_append 5 1"] sample_voter_ok(4) sample_held(2,3)
  by (auto simp: sample_append_def)

section \<open>Proposals\<close>

definition proposal :: "bytes \<Rightarrow> Message" where
  "proposal data = (new_Message MsgProp)\<lparr>mEntries := [\<lparr>eIndex = 0, eTerm = 0, eData = data\<rparr>]\<rparr>"

lemma Propose_eq: "Propose r data = call_step r (proposal data)"
  by (simp add: Propose_def Step_def step_term_def step_message_def proposal_def)

text \<open>C12. The outcome of a proposal. A leader appends it to its log in its own term, unless it is
  handing over leadership; then, and at a candidate or a follower that knows no leader, the
  proposal is refused and nothing changes. A follower forwards it to the leader it knows.\<close>
theorem Propose_outcomes:
  assumes "raft_ok r" "log_room (rlog r)"
  shows "(state r = Leader \<and> leadTransferee r = None_id \<longrightarrow> (\<exists>r'. Propose r data = Inr (r', None) \<and> raft_ok r'
        \<and> log_contents (rlog r') = log_contents (rlog r)
            @ [\<lparr>eIndex = lastIndex (rlog r) + 1, eTerm = cur_term r, eData = data\<rparr>]
        \<and> committed (rlog r') = committed (rlog r)))
    \<and> (state r = Leader \<and> leadTransferee r \<noteq> None_id \<or> state r = PreCandidate \<or> state r = Candidate
        \<or> state r = Follower \<and> lead r = None_id \<longrightarrow> Propose r data = Inr (r, Some ErrProposalDropped))
    \<and> (state r = Follower \<and> lead r \<noteq> None_id \<longrightarrow>
        Propose r data = Inr (r\<lparr>messages := messages r @ [(proposal data)\<lparr>mFrom := rid r, mTo := lead r\<rparr>]\<rparr>, None))"
proof -
  note role = raft_ok_D(6) [OF assms(1), unfolded role_ok_def]
  have "\<exists>r'. Propose r data = Inr (r', None) \<and> raft_ok r'
        \<and> log_contents (rlog r') = log_contents (rlog r)
            @ [\<lparr>eIndex = lastIndex (rlog r) + 1, eTerm = cur_term r, eData = data\<rparr>]
        \<and> committed (rlog r') = committed (rlog r)" if l: "state r = Leader" "leadTransferee r = None_id"
  proof -
    obtain r1 where r1: "appendEntry r data = Inr r1" "appended_own r data r1"
      using appendEntry_total [OF raft_ok_D(1) [OF assms(1)] assms(2), of data] by (auto simp: yields_def)
    then have ok: "raft_ok r1" using appended_own_ok assms(1) by blast
    obtain r2 where r2: "bcastAppend r1 = Inr r2" "outputs r1 r2"
      using bcastAppend_total [OF raft_ok_D(2) [OF ok]] by (auto simp: yields_def)
    have "Propose r data = Inr (r2, None)"
      using l role r1(1) r2(1) by (simp add: Propose_eq call_step_def stepLeader_def proposal_def leader_MsgProp_def)
    with r1(2) r2(2) ok raft_ok_outputs show ?thesis
      by (auto simp: appended_own_def outputs_sel(4) [OF r2(2)])
  qed
  moreover have "Propose r data = Inr (r, Some ErrProposalDropped)"
    if "state r = Leader \<and> leadTransferee r \<noteq> None_id \<or> state r = PreCandidate \<or> state r = Candidate
        \<or> state r = Follower \<and> lead r = None_id"
    using that role
    by (auto simp: Propose_eq call_step_def stepLeader_def stepCandidate_def stepFollower_def proposal_def
        leader_MsgProp_def Let_def)
  moreover have "Propose r data = Inr (r\<lparr>messages := messages r @ [(proposal data)\<lparr>mFrom := rid r, mTo := lead r\<rparr>]\<rparr>, None)"
    if "state r = Follower" "lead r \<noteq> None_id"
    using that role
    by (simp add: Propose_eq call_step_def stepFollower_def proposal_def send_def enqueue_def Let_def)
  ultimately show ?thesis by blast
qed

theorem Propose_outcomes_witness:
  "Propose sample_voter [7] = Inr (sample_voter\<lparr>messages := [(proposal [7])\<lparr>mFrom := 1, mTo := 2\<rparr>]\<rparr>, None)"
proof -
  have f: "lead sample_voter = 2" "messages sample_voter = []" "rid sample_voter = 1" "log_room (rlog sample_voter)"
    using sample_raft_ok(2) sample_voter_ok(2) by (simp_all add: sample_voter_def) (simp_all add: sample_node_def)
  show ?thesis using Propose_outcomes [OF sample_voter_ok(1) f(4), of "[7]"] f sample_voter_ok(3) by simp
qed

section \<open>The commit rule\<close>

lemma appResp_finish_commit:
  assumes "appResp_finish r m prs = Inr (r', e)"
  obtains s c adv where "outputs r s" "maybeCommit s (Committed (trk s)) = Inr (c, adv)"
    "rlog r' = rlog c" "trk r' = trk c" "cur_term r' = cur_term c"
proof -
  obtain s c adv where s: "(if mFrom m = leadTransferee r \<and> MatchIndex prs = lastIndex (rlog r)
      then sendTimeoutNow r (mFrom m) else Inr r) = Inr s"
    "maybeCommit s (Committed (trk s)) = Inr (c, adv)"
    "(if adv then drainPendingReadIndexRequests c else Inr c) = Inr r'"
    using assms by (auto simp: appResp_finish_def elim!: and_then_InrE)
  have "outputs r s" using s(1) by (auto intro: outputs_sendTimeoutNow split: if_split_asm)
  moreover have "rlog r' = rlog c \<and> trk r' = trk c \<and> cur_term r' = cur_term c"
  proof (cases "adv \<and> pendingReadIndexRequests c \<noteq> []")
    case True
    with s(3) have "outputs (c\<lparr>pendingReadIndexRequests := []\<rparr>) r'"
      by (auto simp: drainPendingReadIndexRequests_def elim!: outputs_fold_then [rotated] intro: outputs_respondReadIndexReq)
    then show ?thesis by (auto dest: outputsD)
  next
    case False
    with s(3) show ?thesis by (auto simp: drainPendingReadIndexRequests_def split: if_split_asm)
  qed
  ultimately show ?thesis using that s(2) by blast
qed

text \<open>C3. A leader advances its commit index only to an index that a majority of the voters have
  acknowledged and whose entry it created in its own term.\<close>
theorem leader_commit_rule:
  assumes ok: "raft_ok r" and l: "state r = Leader" and m: "mType m = MsgAppResp" "mTerm m \<le> cur_term r"
    and st: "Step r m = Inr (r', e)" and adv: "committed (rlog r) < committed (rlog r')"
  shows "is_majority (Voters (trk r')) {n. committed (rlog r') \<le> match_of (trk r') n}
    \<and> log_term (log_base (rlog r')) (sTerm (snap (storage (rlog r')))) (log_contents (rlog r'))
        (unat (committed (rlog r'))) = cur_term r"
proof -
  have "step_fn r = stepFunc_Leader" using raft_ok_D(6) [OF ok] l by (simp add: role_ok_def)
  then have "leader_MsgAppResp r m = Inr (r', e)"
    using st m l by (auto simp: Step_def step_term_def step_message_def call_step_def stepLeader_def split: if_split_asm)
  then obtain prs r1 q where p: "Progress_of (trk r) (mFrom m) = Some prs" "outputs r r1"
    and f: "appResp_finish (r1\<lparr>trk := set_Progress (trk r1) (mFrom m) q\<rparr>) m q = Inr (r', e)"
    using adv by (auto simp: leader_MsgAppResp_def elim!: and_then_InrE dest!: appResp_progress_outputs split: option.split_asm)
  obtain s c b where s: "outputs (r1\<lparr>trk := set_Progress (trk r1) (mFrom m) q\<rparr>) s"
    "maybeCommit s (Committed (trk s)) = Inr (c, b)" "rlog r' = rlog c" "trk r' = trk c"
    using appResp_finish_commit [OF f] by metis
  have s': "rlog s = rlog r" "cur_term s = cur_term r" "trk s = set_Progress (trk r) (mFrom m) q"
    using outputsD [OF s(1)] outputsD [OF p(2)] by simp_all
  let ?i = "Committed (trk s)"
  have c: "committed (rlog r) < ?i" "matchTerm (rlog r) ?i (cur_term r) = Inr True"
    "commitTo (rlog r) ?i = Inr (rlog c)" "trk c = trk s"
    using s(2,3) s' adv by (auto simp: maybeCommit_def elim!: and_then_InrE split: if_split_asm)
  note co = commitTo_ok [OF raft_ok_D(1) [OF ok] c(3)]
  have com: "committed (rlog c) = ?i" "log_contents (rlog c) = log_contents (rlog r)" "storage (rlog c) = storage (rlog r)"
    using co c(1) by (auto simp: log_contents_def)
  have "tracker_ok (trk s)"
    using same_config_ok [OF same_config_set_Progress [OF p(1), of q]] raft_ok_D(3) [OF ok] s'(3) by simp
  then have "is_majority (Voters (trk s)) {n. ?i \<le> match_of (trk s) n}" by (rule Committed_quorum)
  moreover have "log_term_of (rlog r) ?i = Inr (Inr (log_term (log_base (rlog r)) (sTerm (snap (storage (rlog r))))
      (log_contents (rlog r)) (unat ?i)))"
  proof (rule log_term_of_ok [OF raft_ok_D(2) [OF ok]])
    show "log_base (rlog r) \<le> unat ?i" using log_ok_D(4) [OF raft_ok_D(1) [OF ok]] c(1) by (simp add: word_less_unat)
    show "unat ?i \<le> log_base (rlog r) + length (log_contents (rlog r))"
      using log_ok_D(5) [OF conjunct1 [OF co]] com by simp
  qed
  then have "log_term (log_base (rlog r)) (sTerm (snap (storage (rlog r)))) (log_contents (rlog r)) (unat ?i) = cur_term r"
    using c(2) by (simp add: matchTerm_def)
  ultimately show ?thesis using com c(4) s(3,4) by simp
qed

text \<open>Node 1 as leader of term 1 with one entry that only itself has acknowledged.\<close>

definition sample_leader :: Raft where
  "sample_leader = sample_node\<lparr>cur_term := 1, votedFor := 1, lead := 1, state := Leader, step_fn := stepFunc_Leader,
     tick_fn := tickFunc_Heartbeat,
     rlog := (rlog sample_node)\<lparr>unstable := \<lparr>uentries = [\<lparr>eIndex = 1, eTerm = 1, eData = []\<rparr>], offset = 1\<rparr>\<rparr>,
     trk := (trk sample_node)\<lparr>progress := [(1, \<lparr>MatchIndex = 1, NextIndex = 2, RecentActive = True\<rparr>),
        (2, \<lparr>MatchIndex = 0, NextIndex = 1, RecentActive = False\<rparr>),
        (3, \<lparr>MatchIndex = 0, NextIndex = 1, RecentActive = False\<rparr>)]\<rparr>\<rparr>"

definition sample_ack :: Message where
  "sample_ack = (new_Message MsgAppResp)\<lparr>mFrom := 2, mTo := 1, mTerm := 1, mIndex := 1\<rparr>"

lemma sample_leader_ok: "raft_ok sample_leader" "state sample_leader = Leader" "cur_term sample_leader = 1"
proof -
  have "log_ok (rlog sample_leader)"
    by (simp add: sample_leader_def sample_node_def newRaftLog_def Let_def sample_storage_def empty_SnapshotMeta_def
        log_ok_def log_shape_def storage_ok_def log_well_def log_contents_def FirstIndex_def)
  moreover have "lastIndex (rlog sample_leader) = 1"
    by (simp add: sample_leader_def lastIndex_def maybeLastIndex_def)
  moreover have "tracker_ok (trk sample_leader)" by (simp add: sample_leader_def sample_node_def tracker_ok_def)
  ultimately show "raft_ok sample_leader"
    by (simp add: raft_ok_def acked_ok_def Progress_of_def)
      (auto simp: sample_leader_def sample_node_def role_ok_def split: if_split_asm)
qed (simp_all add: sample_leader_def)

lemma sample_commit:
  "\<exists>r'. Step sample_leader sample_ack = Inr (r', None) \<and> committed (rlog r') = 1"
proof -
  let ?p = "[(1, \<lparr>MatchIndex = 1, NextIndex = 2, RecentActive = True\<rparr>), (2, \<lparr>MatchIndex = 1, NextIndex = 2, RecentActive = True\<rparr>),
    (3, \<lparr>MatchIndex = 0, NextIndex = 1, RecentActive = False\<rparr>)] :: (u64 \<times> Progress) list"
  let ?r = "sample_leader\<lparr>trk := (trk sample_leader)\<lparr>progress := ?p\<rparr>\<rparr>"
  have trk: "set_Progress (trk sample_leader) 2 \<lparr>MatchIndex = 1, NextIndex = 2, RecentActive = True\<rparr> =
      (trk sample_leader)\<lparr>progress := ?p\<rparr>"
    by (simp add: set_Progress_def sample_leader_def)
  have c: "Committed ((trk sample_leader)\<lparr>progress := ?p\<rparr>) = 1"
    by (simp add: Committed_def MajorityConfig_CommittedIndex_def Let_def AckedIndex_def sample_leader_def sample_node_def insort_key.simps)
  have prog: "Progress_of (trk sample_leader) 2 = Some \<lparr>MatchIndex = 0, NextIndex = 1, RecentActive = False\<rparr>"
    by (simp add: Progress_of_def sample_leader_def)
  have fields: "committed (rlog sample_leader) = 0" "leadTransferee sample_leader = 0" "step_fn sample_leader = stepFunc_Leader"
    "pendingReadIndexRequests sample_leader = []" "lastIndex (rlog sample_leader) = 1"
    "matchTerm (rlog sample_leader) 1 1 = Inr True"
    by (simp_all add: sample_leader_def sample_base(2) matchTerm_def log_term_of_def maybeTerm_def nth_go_def
        lastIndex_def maybeLastIndex_def word_le_unat) (simp_all add: sample_node_def)
  have "leader_MsgAppResp sample_leader sample_ack = appResp_finish ?r sample_ack \<lparr>MatchIndex = 1, NextIndex = 2, RecentActive = True\<rparr>"
    by (simp add: leader_MsgAppResp_def sample_ack_def prog sample_leader_ok(3) appResp_progress_def trk)
  moreover have "appResp_finish ?r sample_ack q = Inr (?r\<lparr>rlog := (rlog sample_leader)\<lparr>committed := 1\<rparr>\<rparr>, None)" for q
    by (simp add: appResp_finish_def maybeCommit_def c fields sample_leader_ok(3) commitTo_def sample_ack_def
        drainPendingReadIndexRequests_def)
  moreover have "mType sample_ack = MsgAppResp" "mTerm sample_ack = 1" by (simp_all add: sample_ack_def)
  ultimately have "Step sample_leader sample_ack = Inr (?r\<lparr>rlog := (rlog sample_leader)\<lparr>committed := 1\<rparr>\<rparr>, None)"
    by (simp add: Step_def step_term_def step_message_def call_step_def stepLeader_def sample_leader_ok(3) fields)
  then show ?thesis by simp
qed

theorem leader_commit_rule_witness:
  "\<exists>r'. Step sample_leader sample_ack = Inr (r', None) \<and> committed (rlog r') = 1
     \<and> is_majority (Voters (trk r')) {n. 1 \<le> match_of (trk r') n}"
proof -
  obtain r' where r': "Step sample_leader sample_ack = Inr (r', None)" "committed (rlog r') = 1"
    using sample_commit by blast
  have "committed (rlog sample_leader) < committed (rlog r')"
    using r'(2) sample_base(2) by (simp add: sample_leader_def)
  with leader_commit_rule [OF sample_leader_ok(1,2) _ _ r'(1)] r' sample_leader_ok(3) show ?thesis
    by (auto simp: sample_ack_def)
qed

end
