(* ===== verification/Engine_WAL.thy ===== *)
theory Engine_WAL
  imports Prelude
begin

text \<open>
  \<open>engine/wal.go\<close>: the index and value files of a shard of the key-value engine. Index records are
  encoded in place; reading them back stops at a torn tail and cuts it off. The lemmas describe
  what \<open>readIndex\<close> makes of a file of records cut anywhere.
\<close>

section \<open>Files\<close>

text \<open>
  A file is its content. Reads fail with an I/O error from position \<open>bad\<close> on, if there is one.
  A write that fails leaves the first \<open>k\<close> bytes behind.
\<close>

datatype engine_error =
    EngCorruption
  | EngTruncate
  | EngInvalidRead
  | EngEOF
  | EngIO
  | EngClosed
  | EngCancelled
  | EngPolicy

datatype file_read = FileData bytes | FileEOF | FileUnexpectedEOF | FileErr

definition file_ReadFull :: "nat option \<Rightarrow> bytes \<Rightarrow> nat \<Rightarrow> nat \<Rightarrow> file_read" where
  "file_ReadFull bad b pos n =
     (if (case bad of None \<Rightarrow> False | Some p \<Rightarrow> p < pos + n) then FileErr
      else if n = 0 then FileData []
      else if length b \<le> pos then FileEOF
      else if length b < pos + n then FileUnexpectedEOF
      else FileData (take n (drop pos b)))"

definition file_append :: "nat option \<Rightarrow> bytes \<Rightarrow> bytes \<Rightarrow> bool \<times> bytes" where
  "file_append fails b data =
     (case fails of None \<Rightarrow> (True, b @ data) | Some k \<Rightarrow> (False, b @ take k data))"

section \<open>wal.go\<close>

definition walIndexHeaderBytes :: nat where "walIndexHeaderBytes = 16"

record indexEntry =
  ieKey :: bytes
  ieValueSize :: nat
  ieValueOffset :: int

text \<open>The two files of a shard; \<open>vpos\<close> is the position of the value file's handle.\<close>

record engine_wal =
  indexFile :: bytes
  valueFile :: bytes
  vpos :: nat
  indexOpen :: bool
  valueOpen :: bool

definition newWAL_engine :: "bytes \<Rightarrow> bytes \<Rightarrow> engine_wal" where
  "newWAL_engine idx val = \<lparr>indexFile = idx, valueFile = val, vpos = 0, indexOpen = True, valueOpen = True\<rparr>"

definition wal_close :: "engine_wal \<Rightarrow> engine_wal" where
  "wal_close w = w\<lparr>indexOpen := False, valueOpen := False\<rparr>"

definition walIndexLen :: "nat \<Rightarrow> nat" where
  "walIndexLen klen = walIndexHeaderBytes + klen"

definition encodeInto :: "bytes \<Rightarrow> bytes \<Rightarrow> nat \<Rightarrow> int \<Rightarrow> bytes \<times> nat" where
  "encodeInto dst key vsize voffset =
     (let klen = length key;
          total = walIndexLen klen;
          dst = put_bytes dst 0 (PutUint32 (word_of_nat klen));
          dst = put_bytes dst 4 (PutUint32 (word_of_nat vsize));
          dst = put_bytes dst 8 (PutUint64 (word_of_int voffset));
          dst = put_bytes dst walIndexHeaderBytes key
      in (dst, total))"

text \<open>
  \<open>readIndex\<close>: the reading position is \<open>pos\<close>, \<open>position\<close> is the variable of that name, a sum of
  32-bit additions. A torn record truncates the file there; \<open>trunc_ok\<close> tells whether that works.
\<close>

definition corrupt_tail :: "bool \<Rightarrow> bytes \<Rightarrow> nat \<Rightarrow> 's \<Rightarrow> engine_error list \<times> bytes \<times> 's" where
  "corrupt_tail trunc_ok b position s =
     (if trunc_ok then ([EngCorruption], take position b, s) else ([EngCorruption, EngIO], b, s))"

function readIndex_loop ::
  "nat option \<Rightarrow> bool \<Rightarrow> (indexEntry \<Rightarrow> 's \<Rightarrow> engine_error + 's) \<Rightarrow> bytes \<Rightarrow> nat \<Rightarrow> nat \<Rightarrow> 's
     \<Rightarrow> engine_error list \<times> bytes \<times> 's" where
  "readIndex_loop bad trunc_ok handler b pos position s =
     (case file_ReadFull bad b pos walIndexHeaderBytes of
        FileUnexpectedEOF \<Rightarrow> corrupt_tail trunc_ok b position s
      | FileEOF \<Rightarrow> ([], b, s)
      | FileErr \<Rightarrow> ([EngIO], b, s)
      | FileData header \<Rightarrow>
          (let klen = Uint32 (take 4 header);
               vlen = Uint32 (take 4 (drop 4 header));
               offset = Uint64 (take 8 (drop 8 header))
           in case file_ReadFull bad b (pos + 16) (unat klen) of
                FileUnexpectedEOF \<Rightarrow> corrupt_tail trunc_ok b position s
              | FileEOF \<Rightarrow> corrupt_tail trunc_ok b position s
              | FileErr \<Rightarrow> ([EngIO], b, s)
              | FileData buf \<Rightarrow>
                  (case handler \<lparr>ieKey = buf, ieValueSize = unat vlen, ieValueOffset = sint offset\<rparr> s of
                     Inl e \<Rightarrow> ([e], b, s)
                   | Inr s \<Rightarrow>
                       readIndex_loop bad trunc_ok handler b (pos + 16 + unat klen)
                         (position + unat (16 + klen)) s)))"
  by pat_completeness auto
termination
  by (relation "measure (\<lambda>(bad, t, h, b, pos, position, s). length b - pos)")
    (auto simp: file_ReadFull_def walIndexHeaderBytes_def split: if_split_asm)

declare readIndex_loop.simps [simp del]

definition readIndex ::
  "nat option \<Rightarrow> bool \<Rightarrow> (indexEntry \<Rightarrow> 's \<Rightarrow> engine_error + 's) \<Rightarrow> bytes \<Rightarrow> 's \<Rightarrow> engine_error list \<times> bytes \<times> 's" where
  "readIndex bad trunc_ok handler b s = readIndex_loop bad trunc_ok handler b 0 0 s"

text \<open>\<open>readValue\<close> moves the handle only when the offset is positive.\<close>

definition readValue ::
  "nat option \<Rightarrow> bool \<Rightarrow> engine_wal \<Rightarrow> int \<Rightarrow> int \<Rightarrow> (engine_error list + bytes) \<times> engine_wal" where
  "readValue bad trunc_ok w offset sz =
     (if offset < 0 \<or> sz \<le> 0 then (Inl [EngInvalidRead], w)
      else if \<not> valueOpen w then (Inl [EngIO], w)
      else
        (let pos = (if offset > 0 then nat offset else vpos w) in
         case file_ReadFull bad (valueFile w) pos (nat sz) of
           FileUnexpectedEOF \<Rightarrow>
             if trunc_ok then (Inl [EngCorruption], w\<lparr>valueFile := take (nat offset) (valueFile w), vpos := length (valueFile w)\<rparr>)
             else (Inl [EngCorruption, EngTruncate, EngIO], w\<lparr>vpos := length (valueFile w)\<rparr>)
         | FileEOF \<Rightarrow> (Inl [EngEOF], w\<lparr>vpos := pos\<rparr>)
         | FileErr \<Rightarrow> (Inl [EngIO], w\<lparr>vpos := pos\<rparr>)
         | FileData buf \<Rightarrow> (Inr buf, w\<lparr>vpos := pos + nat sz\<rparr>)))"

text \<open>Both files are opened for appending: a write goes to the end and leaves the handle there.\<close>

definition writeIndex :: "nat option \<Rightarrow> bool \<Rightarrow> engine_wal \<Rightarrow> bytes \<Rightarrow> engine_error option \<times> engine_wal" where
  "writeIndex fails sync_ok w data =
     (if \<not> indexOpen w then (Some EngIO, w)
      else case file_append fails (indexFile w) data of
        (ok, b) \<Rightarrow>
          (let w = w\<lparr>indexFile := b\<rparr> in
           if \<not> ok then (Some EngIO, w) else if \<not> sync_ok then (Some EngIO, w) else (None, w)))"

definition writeValue :: "nat option \<Rightarrow> bool \<Rightarrow> engine_wal \<Rightarrow> bytes \<Rightarrow> engine_error option \<times> engine_wal" where
  "writeValue fails sync_ok w data =
     (if \<not> valueOpen w then (Some EngIO, w)
      else case file_append fails (valueFile w) data of
        (ok, b) \<Rightarrow>
          (let w = w\<lparr>valueFile := b, vpos := length b\<rparr> in
           if \<not> ok then (Some EngIO, w) else if \<not> sync_ok then (Some EngIO, w) else (None, w)))"

section \<open>Index records\<close>

definition index_bytes :: "indexEntry \<Rightarrow> bytes" where
  "index_bytes e = PutUint32 (word_of_nat (length (ieKey e))) @ PutUint32 (word_of_nat (ieValueSize e))
     @ PutUint64 (word_of_int (ieValueOffset e)) @ ieKey e"

definition index_ok :: "indexEntry \<Rightarrow> bool" where
  "index_ok e \<longleftrightarrow> length (ieKey e) + 16 < 2 ^ 32 \<and> ieValueSize e < 2 ^ 32 \<and> 0 \<le> ieValueOffset e \<and> ieValueOffset e < 2 ^ 63"

lemma length_index_bytes [simp]: "length (index_bytes e) = 16 + length (ieKey e)"
  by (simp add: index_bytes_def)

lemma encodeInto_eq:
  assumes "length dst = 16 + length key + n"
  shows "encodeInto dst key vsize voffset =
    (index_bytes \<lparr>ieKey = key, ieValueSize = vsize, ieValueOffset = voffset\<rparr> @ drop (16 + length key) dst, 16 + length key)"
proof -
  let ?a = "PutUint32 (word_of_nat (length key))" and ?b = "PutUint32 (word_of_nat vsize)" and ?c = "PutUint64 (word_of_int voffset)"
  define z1 z2 z3 z4 z5 where zs: "z1 = take 4 dst" "z2 = take 4 (drop 4 dst)" "z3 = take 8 (drop 8 dst)"
    "z4 = take (length key) (drop 16 dst)" "z5 = drop (16 + length key) dst"
  have "dst = z1 @ z2 @ z3 @ z4 @ z5"
    using append_take_drop_id [of 4 dst] append_take_drop_id [of 4 "drop 4 dst"] append_take_drop_id [of 8 "drop 8 dst"]
      append_take_drop_id [of "length key" "drop 16 dst"] by (simp add: zs add.commute)
  moreover have "length z1 = 4" "length z2 = 4" "length z3 = 8" "length z4 = length key" using assms by (simp_all add: zs)
  ultimately have z: "dst = z1 @ z2 @ z3 @ z4 @ z5" "length z1 = 4" "length z2 = 4" "length z3 = 8" "length z4 = length key" .
  note put_bytes_prefix [of z1 ?a "z2 @ z3 @ z4 @ z5"] put_bytes_append [of ?a 4 z2 ?b "z3 @ z4 @ z5", simplified]
    put_bytes_append [of "?a @ ?b" 8 z3 ?c "z4 @ z5", simplified]
    put_bytes_append [of "?a @ ?b @ ?c" 16 z4 key z5, simplified]
  with z show ?thesis by (simp add: encodeInto_def Let_def walIndexLen_def walIndexHeaderBytes_def index_bytes_def)
qed

lemma index_header:
  assumes "index_ok e"
  shows "Uint32 (take 4 (take 16 (index_bytes e @ rest))) = word_of_nat (length (ieKey e))"
    "Uint32 (take 4 (drop 4 (take 16 (index_bytes e @ rest)))) = word_of_nat (ieValueSize e)"
    "Uint64 (take 8 (drop 8 (take 16 (index_bytes e @ rest)))) = word_of_int (ieValueOffset e)"
    "unat (word_of_nat (length (ieKey e)) :: u32) = length (ieKey e)" "unat (word_of_nat (ieValueSize e) :: u32) = ieValueSize e"
    "sint (word_of_int (ieValueOffset e) :: u64) = ieValueOffset e"
    "unat (16 + word_of_nat (length (ieKey e)) :: u32) = 16 + length (ieKey e)"
proof -
  show "sint (word_of_int (ieValueOffset e) :: u64) = ieValueOffset e"
    using assms by (simp add: index_ok_def signed_of_int signed_take_bit_int_eq_self)
  have "unat (16 + word_of_nat (length (ieKey e)) :: u32) = (16 + length (ieKey e)) mod 2 ^ 32"
    using unat_of_nat [of "16 + length (ieKey e)", where ?'a = 32] by simp
  then show "unat (16 + word_of_nat (length (ieKey e)) :: u32) = 16 + length (ieKey e)" using assms by (simp add: index_ok_def)
qed (use assms in \<open>simp_all add: index_bytes_def index_ok_def unat_of_nat take_take drop_take\<close>)

text \<open>One round of the loop on a whole record, and on a torn one.\<close>

lemma file_ReadFull_in:
  "length pre + n \<le> length (pre @ b) \<Longrightarrow> file_ReadFull None (pre @ b) (length pre) n = FileData (take n b)"
  by (auto simp: file_ReadFull_def)

lemma readIndex_whole:
  assumes "index_ok e" "length pre = pos"
  shows "readIndex_loop None t (\<lambda>e s. Inr (h e s)) (pre @ index_bytes e @ rest) pos position s =
    readIndex_loop None t (\<lambda>e s. Inr (h e s)) (pre @ index_bytes e @ rest) (pos + length (index_bytes e))
      (position + length (index_bytes e)) (h e s)"
proof -
  let ?b = "pre @ index_bytes e @ rest"
  define hdr where "hdr = take 16 (index_bytes e @ rest)"
  have 1: "file_ReadFull None ?b pos 16 = FileData hdr"
    using assms(2) file_ReadFull_in [of pre 16 "index_bytes e @ rest"] by (simp add: hdr_def)
  have k: "?b = (pre @ take 16 (index_bytes e)) @ ieKey e @ rest" by (simp add: index_bytes_def)
  have 2: "file_ReadFull None ?b (pos + 16) (length (ieKey e)) = FileData (ieKey e)"
    using assms(2) file_ReadFull_in [of "pre @ take 16 (index_bytes e)" "length (ieKey e)" "ieKey e @ rest"] unfolding k by simp
  have eq: "\<lparr>ieKey = ieKey e, ieValueSize = ieValueSize e, ieValueOffset = ieValueOffset e\<rparr> = e" by simp
  show ?thesis
    by (subst readIndex_loop.simps, simp add: walIndexHeaderBytes_def 1 2 Let_def index_header(1-3) [OF assms(1), of rest, folded hdr_def] index_header(4-7) [OF assms(1)] add.assoc, simp only: eq)
qed

lemma readIndex_torn:
  assumes "index_ok e" "length pre = pos" "0 < k" "k < length (index_bytes e)"
  shows "readIndex_loop None True (\<lambda>e s. Inr (h e s)) (pre @ take k (index_bytes e)) pos pos s = ([EngCorruption], pre, s)"
proof (cases "k < 16")
  case True
  then have "file_ReadFull None (pre @ take k (index_bytes e)) pos 16 = FileUnexpectedEOF"
    using assms by (auto simp: file_ReadFull_def index_bytes_def)
  then show ?thesis using assms by (subst readIndex_loop.simps) (simp add: walIndexHeaderBytes_def corrupt_tail_def)
next
  case False
  let ?b = "pre @ take k (index_bytes e)"
  have "take k (index_bytes e) = take 16 (index_bytes e) @ take (k - 16) (ieKey e)"
    using False by (simp add: index_bytes_def)
  define hdr where "hdr = take 16 (index_bytes e @ [])"
  have "min 16 k = 16" using False by simp
  then have 1: "file_ReadFull None ?b pos 16 = FileData hdr"
    using assms False file_ReadFull_in [of pre 16 "take k (index_bytes e)"] by (simp add: hdr_def take_take del: take_append)
  have 2: "file_ReadFull None ?b (pos + 16) (length (ieKey e)) \<in> {FileUnexpectedEOF, FileEOF}"
    using assms False by (auto simp: file_ReadFull_def)
  show ?thesis
    using 2 assms(2)
    by (subst readIndex_loop.simps)
      (auto simp: walIndexHeaderBytes_def 1 Let_def index_header(1-3) [OF assms(1), of "[]", folded hdr_def] index_header(4-7) [OF assms(1)] corrupt_tail_def)
qed

lemma readIndex_end: "length b \<le> pos \<Longrightarrow> readIndex_loop None t h b pos position s = ([], b, s)"
  by (subst readIndex_loop.simps) (simp add: file_ReadFull_def walIndexHeaderBytes_def)

text \<open>Reading an index file that was cut anywhere: the entries written completely are handled in
  order, and the file is cut back to them.\<close>

lemma readIndex_prefix:
  assumes "\<forall>e \<in> set es. index_ok e"
  shows "\<exists>ws. (\<exists>j. ws = take j es) \<and> (length (concat (map index_bytes es)) \<le> n \<longrightarrow> ws = es)
    \<and> readIndex_loop None True (\<lambda>e s. Inr (h e s)) (pre @ take n (concat (map index_bytes es))) (length pre) (length pre) s
      = (if take n (concat (map index_bytes es)) = concat (map index_bytes ws) then [] else [EngCorruption],
         pre @ concat (map index_bytes ws), fold h ws s)"
  using assms
proof (induction es arbitrary: pre n s)
  case Nil
  then show ?case by (simp add: readIndex_end)
next
  case (Cons e es)
  let ?l = "length (index_bytes e)"
  have e: "index_ok e" using Cons.prems by simp
  show ?case
  proof (cases "?l \<le> n")
    case True
    let ?t = "take (n - ?l) (concat (map index_bytes es))"
    have t: "take n (concat (map index_bytes (e # es))) = index_bytes e @ ?t" using True by simp
    obtain ws where ws: "\<exists>j. ws = take j es" "length (concat (map index_bytes es)) \<le> n - ?l \<longrightarrow> ws = es"
      "readIndex_loop None True (\<lambda>e s. Inr (h e s)) ((pre @ index_bytes e) @ ?t) (length (pre @ index_bytes e))
         (length (pre @ index_bytes e)) (h e s)
       = (if ?t = concat (map index_bytes ws) then [] else [EngCorruption], (pre @ index_bytes e) @ concat (map index_bytes ws),
          fold h ws (h e s))"
      using Cons.IH [of "n - ?l" "pre @ index_bytes e" "h e s"] Cons.prems by auto
    obtain j where "ws = take j es" using ws(1) by blast
    then have "e # ws = take (Suc j) (e # es)" by simp
    moreover have "length (concat (map index_bytes (e # es))) \<le> n \<longrightarrow> e # ws = e # es" using ws(2) True by auto
    moreover have "readIndex_loop None True (\<lambda>e s. Inr (h e s)) (pre @ index_bytes e @ ?t) (length pre) (length pre) s
       = (if ?t = concat (map index_bytes ws) then [] else [EngCorruption], pre @ concat (map index_bytes (e # ws)), fold h (e # ws) s)"
      using ws(3) by (simp add: readIndex_whole [OF e refl])
    ultimately show ?thesis
      unfolding t by (intro exI [of _ "e # ws"] conjI) (blast, simp, simp)
  next
    case False
    then have t: "take n (concat (map index_bytes (e # es))) = take n (index_bytes e)" by simp
    have "readIndex_loop None True (\<lambda>e s. Inr (h e s)) (pre @ take n (index_bytes e)) (length pre) (length pre) s
        = (if take n (index_bytes e) = [] then [] else [EngCorruption], pre, s)"
    proof (cases "n = 0")
      case True
      then show ?thesis by (simp add: readIndex_end)
    next
      case n: False
      moreover from this have "take n (index_bytes e) \<noteq> []" by (auto simp: index_bytes_def)
      ultimately show ?thesis using readIndex_torn [OF e refl, where k = n and pre = pre] False by simp
    qed
    with t False show ?thesis by (intro exI [of _ "[]"]) (auto intro: exI [of _ 0])
  qed
qed

end
