(* ===== verification/Engine_Shard.thy ===== *)
theory Engine_Shard
  imports Complex_Main Engine_WAL "HOL-Library.AList"
begin

text \<open>
  \<open>engine/shard.go\<close>, \<open>engine/group_committer.go\<close>, \<open>engine/compaction.go\<close>, \<open>engine/cleanup.go\<close> and
  \<open>engine/atomic_file.go\<close>: one shard of the key-value engine. Writes go to memory and to a request
  channel, the committer writes them to the two files in batches, compaction rewrites the index
  and cleanup both files. The last lemmas say what a flush leaves on disk whatever the disk does.
\<close>

section \<open>State\<close>

definition syncBatchSize :: nat where "syncBatchSize = 100"

record valueEntry =
  payload :: "bytes option"
  vsize :: nat
  voffset :: int

record writeRequest =
  wrKey :: bytes
  wrValue :: bytes
  wrResp :: "nat option" \<comment> \<open>the caller's channel; none for an asynchronous write\<close>

text \<open>What the disk does during one flush: how far the two writes get and whether the syncs work.\<close>

record flush_io =
  fValue :: "nat option"
  fValueSync :: bool
  fIndex :: "nat option"
  fIndexSync :: bool

definition good_flush :: flush_io where
  "good_flush = \<lparr>fValue = None, fValueSync = True, fIndex = None, fIndexSync = True\<rparr>"

text \<open>
  The Go map of a shard is an association list; \<open>tmp_index\<close> and \<open>tmp_value\<close> are the files with
  suffix \<open>.tmp\<close>. The request channel holds what has been sent and not yet received; a sender that
  waits for room has not sent. \<open>flush_env\<close> numbers the flushes to come, \<open>acks\<close> records the answers
  given to callers, \<open>panicked\<close> that the committer goroutine has panicked and closed \<open>fatalErrCh\<close>.
\<close>

record shard =
  sdata :: "(bytes \<times> valueEntry) list"
  swal :: engine_wal
  tmp_index :: bytes
  tmp_value :: bytes
  reqCh :: "writeRequest list"
  cbuf :: "writeRequest list"
  walIndexBuf :: bytes
  walValueBuf :: bytes
  stopCh :: bool
  keyBytesInRAM :: int
  numKeys :: int
  indexBytesOnDisk :: int
  valueOffset :: int
  lastCompacted :: "int option"
  acks :: "(nat \<times> engine_error option) list"
  panicked :: bool
  flush_env :: "nat \<Rightarrow> flush_io"
  flush_no :: nat

section \<open>shard.go\<close>

text \<open>The files of a shard, and a shard on existing files; \<open>stat_ok\<close> tells whether the size of the
  value file can be read.\<close>

record shard_files =
  fsIndex :: bytes
  fsValue :: bytes
  fsTmpIndex :: bytes
  fsTmpValue :: bytes

definition newShard :: "bool \<Rightarrow> (nat \<Rightarrow> flush_io) \<Rightarrow> shard_files \<Rightarrow> engine_error + shard" where
  "newShard stat_ok env f =
     (let s = \<lparr>sdata = [], swal = newWAL_engine (fsIndex f) (fsValue f), tmp_index = fsTmpIndex f, tmp_value = fsTmpValue f,
               reqCh = [], cbuf = [], walIndexBuf = [], walValueBuf = [], stopCh = False, keyBytesInRAM = 0, numKeys = 0,
               indexBytesOnDisk = 0, valueOffset = 0, lastCompacted = None, acks = [], panicked = False,
               flush_env = env, flush_no = 0\<rparr>
      in if \<not> stat_ok then Inl EngIO else Inr (s\<lparr>valueOffset := int (length (fsValue f))\<rparr>))"

definition files_of :: "shard \<Rightarrow> shard_files" where
  "files_of s = \<lparr>fsIndex = indexFile (swal s), fsValue = valueFile (swal s), fsTmpIndex = tmp_index s, fsTmpValue = tmp_value s\<rparr>"

definition replay_entry :: "indexEntry \<Rightarrow> (bytes \<times> valueEntry) list \<Rightarrow> (bytes \<times> valueEntry) list" where
  "replay_entry ie d = AList.update (ieKey ie) \<lparr>payload = None, vsize = ieValueSize ie, voffset = ieValueOffset ie\<rparr> d"

definition shard_replay :: "nat option \<Rightarrow> bool \<Rightarrow> shard \<Rightarrow> engine_error list \<times> shard" where
  "shard_replay bad trunc_ok s =
     (case readIndex bad trunc_ok (\<lambda>ie d. Inr (replay_entry ie d)) (indexFile (swal s)) (sdata s) of
        (errs, b, d) \<Rightarrow>
          (let s = s\<lparr>sdata := d, swal := (swal s)\<lparr>indexFile := b\<rparr>\<rparr> in
           if errs \<noteq> [] then (errs, s)
           else
             ([], s\<lparr>keyBytesInRAM := (\<Sum>k\<leftarrow>map fst d. int (length k)), numKeys := int (length d)\<rparr>)))"

definition getValue ::
  "nat option \<Rightarrow> bool \<Rightarrow> shard \<Rightarrow> bytes \<Rightarrow> valueEntry \<Rightarrow> (engine_error list + bytes) \<times> shard" where
  "getValue bad trunc_ok s key ve =
     (case payload ve of
        Some p \<Rightarrow> (Inr p, s)
      | None \<Rightarrow>
          if vsize ve = 0 then (Inr [], s\<lparr>sdata := AList.update key (ve\<lparr>payload := Some []\<rparr>) (sdata s)\<rparr>)
          else
            (case readValue bad trunc_ok (swal s) (voffset ve) (int (vsize ve)) of
               (Inl errs, w) \<Rightarrow> (Inl errs, s\<lparr>swal := w\<rparr>)
             | (Inr val, w) \<Rightarrow>
                 (Inr val, s\<lparr>swal := w, sdata := AList.update key (ve\<lparr>payload := Some val\<rparr>) (sdata s)\<rparr>)))"

definition shard_get :: "nat option \<Rightarrow> bool \<Rightarrow> shard \<Rightarrow> bytes \<Rightarrow> (engine_error list + bytes option) \<times> shard" where
  "shard_get bad trunc_ok s key =
     (case map_of (sdata s) key of
        None \<Rightarrow> (Inr None, s)
      | Some ve \<Rightarrow>
          (case getValue bad trunc_ok s key ve of
             (Inl errs, s) \<Rightarrow> (Inl errs, s)
           | (Inr val, s) \<Rightarrow> (Inr (Some val), s)))"

definition putInternal :: "shard \<Rightarrow> bytes \<Rightarrow> bytes \<Rightarrow> shard" where
  "putInternal s key val =
     (let s = (if map_of (sdata s) key = None
               then s\<lparr>keyBytesInRAM := keyBytesInRAM s + int (length key), numKeys := numKeys s + 1\<rparr> else s)
      in s\<lparr>sdata := AList.update key \<lparr>payload = Some val, vsize = length val, voffset = 0\<rparr> (sdata s)\<rparr>)"

text \<open>The first half of \<open>put\<close>; the caller then waits for its answer among \<open>acks\<close>. \<open>stop_first\<close> is the
  choice of the select when the shard is stopping.\<close>

definition shard_put :: "bool \<Rightarrow> bool \<Rightarrow> shard \<Rightarrow> bytes \<Rightarrow> bytes \<Rightarrow> nat \<Rightarrow> engine_error option \<times> shard" where
  "shard_put cancelled stop_first s key val resp =
     (if cancelled then (Some EngCancelled, s)
      else if stopCh s \<and> stop_first then (Some EngClosed, s)
      else (None, s\<lparr>reqCh := reqCh s @ [\<lparr>wrKey = key, wrValue = val, wrResp = Some resp\<rparr>]\<rparr>))"

definition putAsync :: "bool \<Rightarrow> shard \<Rightarrow> bytes \<Rightarrow> bytes \<Rightarrow> shard" where
  "putAsync stop_first s key val =
     (let s = putInternal s key val in
      if stopCh s \<and> stop_first then s
      else s\<lparr>reqCh := reqCh s @ [\<lparr>wrKey = key, wrValue = val, wrResp = None\<rparr>]\<rparr>)"

definition shard_clear :: "bool \<Rightarrow> bool \<Rightarrow> shard \<Rightarrow> engine_error option \<times> shard" where
  "shard_clear clear_ok open_ok s =
     (if \<not> clear_ok then (Some EngIO, s)
      else
        (let s = s\<lparr>keyBytesInRAM := 0, numKeys := 0, indexBytesOnDisk := 0, valueOffset := 0, sdata := []\<rparr> in
         if \<not> open_ok then (Some EngIO, s\<lparr>swal := wal_close (newWAL_engine [] [])\<rparr>)
         else (None, s\<lparr>swal := newWAL_engine [] []\<rparr>)))"

text \<open>\<open>forEach\<close> visits the keys in the order of the list.\<close>

fun forEach_loop ::
  "nat option \<Rightarrow> bool \<Rightarrow> (bytes \<Rightarrow> bytes \<Rightarrow> 'a \<Rightarrow> bool \<times> 'a) \<Rightarrow> (bytes \<times> valueEntry) list \<Rightarrow> 'a \<Rightarrow> shard
     \<Rightarrow> engine_error list \<times> 'a \<times> shard" where
  "forEach_loop bad t fn [] a s = ([], a, s)"
| "forEach_loop bad t fn ((k, ve) # kvs) a s =
     (case getValue bad t s k ve of
        (Inl errs, s) \<Rightarrow> (errs, a, s)
      | (Inr val, s) \<Rightarrow> (case fn k val a of (False, a) \<Rightarrow> ([], a, s) | (True, a) \<Rightarrow> forEach_loop bad t fn kvs a s))"

definition forEach where
  "forEach bad t fn a s = forEach_loop bad t fn (sdata s) a s"

section \<open>group_committer.go\<close>

definition reuse_buf :: "bytes \<Rightarrow> nat \<Rightarrow> bytes \<times> bytes" where
  "reuse_buf buf n = (if length buf < n then (make_bytes n, make_bytes n) else (take n buf, buf))"

fun encode_batch :: "writeRequest list \<Rightarrow> bytes \<Rightarrow> nat \<Rightarrow> bytes \<Rightarrow> nat \<Rightarrow> int \<Rightarrow> bytes \<times> bytes \<times> int" where
  "encode_batch [] idxBuf idxOff valBuf valOff fileOff = (idxBuf, valBuf, fileOff)"
| "encode_batch (r # rs) idxBuf idxOff valBuf valOff fileOff =
     (let (tail, idxSize) = encodeInto (drop idxOff idxBuf) (wrKey r) (length (wrValue r)) fileOff;
          idxBuf = take idxOff idxBuf @ tail;
          valBuf = put_bytes valBuf valOff (wrValue r)
      in encode_batch rs idxBuf (idxOff + idxSize) valBuf (valOff + length (wrValue r)) (fileOff + int (length (wrValue r))))"

definition ack_all :: "engine_error option \<Rightarrow> writeRequest list \<Rightarrow> (nat \<times> engine_error option) list" where
  "ack_all res batch = map (\<lambda>ch. (ch, res)) (List.map_filter wrResp batch)"

definition apply_sync :: "writeRequest \<Rightarrow> shard \<Rightarrow> shard" where
  "apply_sync r s =
     (case wrResp r of
        None \<Rightarrow> s
      | Some ch \<Rightarrow> (let s = putInternal s (wrKey r) (wrValue r) in s\<lparr>acks := acks s @ [(ch, None)]\<rparr>))"

definition flush :: "shard \<Rightarrow> writeRequest list \<Rightarrow> shard" where
  "flush s batch =
     (let io = flush_env s (flush_no s);
          s = s\<lparr>flush_no := flush_no s + 1\<rparr>;
          idxTotal = (\<Sum>r\<leftarrow>batch. walIndexLen (length (wrKey r)));
          valTotal = (\<Sum>r\<leftarrow>batch. length (wrValue r));
          (idxBuf, idxMem) = reuse_buf (walIndexBuf s) idxTotal;
          (valBuf, valMem) = reuse_buf (walValueBuf s) valTotal;
          (idxBuf, valBuf, valueFileOff) = encode_batch batch idxBuf 0 valBuf 0 (valueOffset s);
          s = s\<lparr>walIndexBuf := idxBuf @ drop idxTotal idxMem, walValueBuf := valBuf @ drop valTotal valMem\<rparr>
      in case writeValue (fValue io) (fValueSync io) (swal s) valBuf of
           (Some e, w) \<Rightarrow> s\<lparr>swal := w, acks := acks s @ ack_all (Some e) batch, panicked := True\<rparr>
         | (None, w) \<Rightarrow>
             (let s = s\<lparr>swal := w\<rparr> in
              case writeIndex (fIndex io) (fIndexSync io) (swal s) idxBuf of
                (Some e, w) \<Rightarrow> s\<lparr>swal := w, acks := acks s @ ack_all (Some e) batch, panicked := True\<rparr>
              | (None, w) \<Rightarrow>
                  (let s = s\<lparr>swal := w, indexBytesOnDisk := indexBytesOnDisk s + int (length idxBuf),
                             valueOffset := valueFileOff\<rparr>
                   in fold apply_sync batch s)))"

definition appendToBatch :: "writeRequest \<Rightarrow> shard \<Rightarrow> shard" where
  "appendToBatch r s =
     (if panicked s then s
      else
        (let s = s\<lparr>cbuf := cbuf s @ [r]\<rparr> in
         if length (cbuf s) \<ge> syncBatchSize
         then (let s' = flush s (cbuf s) in if panicked s' then s' else s'\<lparr>cbuf := []\<rparr>)
         else s))"

definition flushBuffered :: "shard \<Rightarrow> shard" where
  "flushBuffered s =
     (if panicked s then s
      else if cbuf s \<noteq> [] then (let s' = flush s (cbuf s) in if panicked s' then s' else s'\<lparr>cbuf := []\<rparr>)
      else s)"

definition drainReqCh :: "shard \<Rightarrow> shard" where
  "drainReqCh s = flushBuffered (fold appendToBatch (reqCh s) (s\<lparr>reqCh := []\<rparr>))"

section \<open>compaction.go\<close>

record compactionPolicy =
  CheckEvery :: int
  MinInterval :: int
  MaxInterval :: int
  AmpThreshold :: rat

definition minute :: int where "minute = 60000000000"

definition defaultCompactionPolicy :: compactionPolicy where
  "defaultCompactionPolicy = \<lparr>CheckEvery = minute, MinInterval = 10 * minute, MaxInterval = 24 * 60 * minute, AmpThreshold = 4\<rparr>"

definition isReasonable :: "compactionPolicy \<Rightarrow> bool" where
  "isReasonable p \<longleftrightarrow> CheckEvery p \<ge> minute \<and> MinInterval p \<ge> minute \<and> MaxInterval p \<ge> minute \<and> AmpThreshold p > 1
     \<and> CheckEvery p \<le> MinInterval p \<and> MinInterval p \<le> MaxInterval p"

definition newCompactionWorker :: "compactionPolicy \<Rightarrow> engine_error + compactionPolicy" where
  "newCompactionWorker policy = (if \<not> isReasonable policy then Inl EngPolicy else Inr policy)"

definition shouldCompact :: "compactionPolicy \<Rightarrow> int \<Rightarrow> shard \<Rightarrow> bool" where
  "shouldCompact policy now s =
     (let since = (case lastCompacted s of None \<Rightarrow> None | Some t0 \<Rightarrow> Some (now - t0)) in
      if (case since of None \<Rightarrow> False | Some d \<Rightarrow> d < MinInterval policy) then False
      else if indexBytesOnDisk s \<le> 0 then False
      else
        (let maxDue = (case since of None \<Rightarrow> False | Some d \<Rightarrow> d \<ge> MaxInterval policy) in
         if keyBytesInRAM s \<le> 0 \<or> numKeys s \<le> 0 then maxDue
         else
           (let expected = keyBytesInRAM s + numKeys s * int walIndexHeaderBytes;
                amp = (of_int (indexBytesOnDisk s) :: rat) / of_int expected
            in maxDue \<or> amp \<ge> AmpThreshold policy)))"

fun snapshot_loop :: "(bytes \<times> valueEntry) list \<Rightarrow> bytes \<Rightarrow> nat \<Rightarrow> bytes \<times> nat" where
  "snapshot_loop [] buf off = (buf, off)"
| "snapshot_loop ((k, v) # kvs) buf off =
     (let (tail, n) = encodeInto (drop off buf) k (vsize v) (voffset v)
      in snapshot_loop kvs (take off buf @ tail) (off + n))"

definition shard_snapshot :: "shard \<Rightarrow> bytes" where
  "shard_snapshot s =
     (let total = (\<Sum>k\<leftarrow>map fst (sdata s). walIndexLen (length k));
          (buf, off) = snapshot_loop (sdata s) (make_bytes total) 0
      in take off buf)"

text \<open>The steps of a compaction that can fail, on a system where rename replaces the target.\<close>

record compact_io =
  cSnapshot :: bool
  cClose :: bool
  cRename :: bool
  cReopen :: bool

definition reopenIndexFile :: "compact_io \<Rightarrow> shard \<Rightarrow> engine_error list \<times> shard" where
  "reopenIndexFile io s =
     (if \<not> cReopen io then ([EngIO], s)
      else ([], s\<lparr>swal := (swal s)\<lparr>indexOpen := True\<rparr>, indexBytesOnDisk := int (length (indexFile (swal s)))\<rparr>))"

definition doCompact :: "compact_io \<Rightarrow> shard \<Rightarrow> engine_error list \<times> shard" where
  "doCompact io s =
     (let indices = shard_snapshot s in
      if length indices = 0 then ([], s)
      else if \<not> cSnapshot io then ([EngIO], s)
      else
        (let s = s\<lparr>swal := (swal s)\<lparr>indexOpen := False\<rparr>\<rparr> in
         if \<not> cClose io then ([EngIO], s)
         else if \<not> cRename io then (case reopenIndexFile io s of (errs, s) \<Rightarrow> (EngIO # errs, s))
         else reopenIndexFile io (s\<lparr>swal := (swal s)\<lparr>indexFile := indices\<rparr>\<rparr>)))"

section \<open>cleanup.go\<close>

definition cleanupBufferSize :: nat where "cleanupBufferSize = 1048576"
definition cleanupFlushThreshold :: nat where "cleanupFlushThreshold = 524288"

text \<open>The state of the loop of \<open>writeCleanupData\<close>. \<open>clWrites\<close> is what happens to the writes to come: the
  bytes that reach the file before a failure; none fails once the list is used up.\<close>

record cleaning =
  clIndexFile :: bytes
  clValueFile :: bytes
  clIndexBuf :: bytes
  clValueBuf :: bytes
  clOffsets :: "(bytes \<times> int) list"
  clOffset :: int
  clWrites :: "nat option list"

datatype clean_fail = CleanPanic cleaning | CleanErr "engine_error list" cleaning

definition write_values :: "cleaning \<Rightarrow> clean_fail + cleaning" where
  "write_values c =
     (case file_append (case clWrites c of [] \<Rightarrow> None | w # _ \<Rightarrow> w) (clValueFile c) (clValueBuf c) of
        (ok, b) \<Rightarrow>
          (let c = c\<lparr>clWrites := tl (clWrites c), clValueFile := b\<rparr> in
           if \<not> ok then Inl (CleanErr [EngIO] c) else Inr (c\<lparr>clValueBuf := []\<rparr>)))"

definition write_indices :: "cleaning \<Rightarrow> clean_fail + cleaning" where
  "write_indices c =
     (case file_append (case clWrites c of [] \<Rightarrow> None | w # _ \<Rightarrow> w) (clIndexFile c) (clIndexBuf c) of
        (ok, b) \<Rightarrow>
          (let c = c\<lparr>clWrites := tl (clWrites c), clIndexFile := b\<rparr> in
           if \<not> ok then Inl (CleanErr [EngIO] c) else Inr (c\<lparr>clIndexBuf := []\<rparr>)))"

definition clean_value :: "bytes \<Rightarrow> cleaning \<Rightarrow> clean_fail + cleaning" where
  "clean_value val c =
     (if length val > 0 then
        (let c = c\<lparr>clValueBuf := clValueBuf c @ val\<rparr> in
         if length (clValueBuf c) \<ge> cleanupFlushThreshold then write_values c else Inr c)
      else Inr c)"

text \<open>Extending the index buffer beyond its capacity panics.\<close>

definition clean_index :: "bytes \<Rightarrow> bytes \<Rightarrow> cleaning \<Rightarrow> clean_fail + cleaning" where
  "clean_index key val c =
     (let c = c\<lparr>clOffsets := AList.update key (clOffset c) (clOffsets c)\<rparr>;
          entrySize = walIndexLen (length key)
      in and_then (if cleanupBufferSize - length (clIndexBuf c) < entrySize then write_indices c else Inr c) (\<lambda>c.
         let oldLen = length (clIndexBuf c) in
         if oldLen + entrySize > cleanupBufferSize then Inl (CleanPanic c)
         else
           (let (tail, _) = encodeInto (make_bytes entrySize) key (length val) (clOffset c)
            in Inr (c\<lparr>clIndexBuf := clIndexBuf c @ tail, clOffset := clOffset c + int (length val)\<rparr>))))"

fun writeCleanupData ::
  "nat option \<Rightarrow> bool \<Rightarrow> (bytes \<times> valueEntry) list \<Rightarrow> cleaning \<Rightarrow> shard \<Rightarrow> (clean_fail + cleaning) \<times> shard" where
  "writeCleanupData bad t [] c s =
     (and_then (if length (clValueBuf c) > 0 then write_values c else Inr c) (\<lambda>c.
        if length (clIndexBuf c) > 0 then write_indices c else Inr c), s)"
| "writeCleanupData bad t ((k, ve) # kvs) c s =
     (case getValue bad t s k ve of
        (Inl errs, s) \<Rightarrow> (Inl (CleanErr errs c), s)
      | (Inr val, s) \<Rightarrow>
          (case and_then (clean_value val c) (clean_index k val) of
             Inl f \<Rightarrow> (Inl f, s)
           | Inr c \<Rightarrow> writeCleanupData bad t kvs c s))"

definition updateShardAfterCleanup :: "(bytes \<times> int) list \<Rightarrow> int \<Rightarrow> shard \<Rightarrow> shard" where
  "updateShardAfterCleanup newOffsets newValueOffset s =
     s\<lparr>swal := newWAL_engine (indexFile (swal s)) (valueFile (swal s)),
       sdata := map (\<lambda>(k, ve). (k, case map_of newOffsets k of None \<Rightarrow> ve | Some o' \<Rightarrow> ve\<lparr>voffset := o'\<rparr>)) (sdata s),
       valueOffset := newValueOffset\<rparr>"

text \<open>
  The steps of \<open>swapCleanupFiles\<close> that can fail. The two renames are separate: after a failure of
  the second the new index stands beside the old values. The temporary files were opened for
  appending and not truncated; whatever is left in them by a failure is still there next time.
\<close>

record clean_io =
  clOpen :: bool
  clWrite :: "nat option list"
  clSync :: bool
  clClose :: bool
  clRenameIndex :: bool
  clRenameValue :: bool
  clReopen :: bool

definition keep_tmp :: "cleaning \<Rightarrow> shard \<Rightarrow> shard" where
  "keep_tmp c s = s\<lparr>tmp_index := clIndexFile c, tmp_value := clValueFile c\<rparr>"

definition swapCleanupFiles :: "clean_io \<Rightarrow> cleaning \<Rightarrow> shard \<Rightarrow> engine_error list \<times> shard" where
  "swapCleanupFiles io c s =
     (let s = keep_tmp c s in
      if \<not> clSync io then ([EngIO], s)
      else
        (let s = s\<lparr>swal := wal_close (swal s)\<rparr> in
         if \<not> clClose io then ([EngIO], s)
         else if \<not> clRenameIndex io then ([EngIO], s)
         else
           (let s = s\<lparr>swal := (swal s)\<lparr>indexFile := clIndexFile c\<rparr>, tmp_index := []\<rparr> in
            if \<not> clRenameValue io then ([EngIO], s)
            else ([], s\<lparr>swal := (swal s)\<lparr>valueFile := clValueFile c\<rparr>, tmp_value := []\<rparr>))))"

definition doCleanup :: "nat option \<Rightarrow> bool \<Rightarrow> clean_io \<Rightarrow> shard \<Rightarrow> engine_error list \<times> shard" where
  "doCleanup bad t io s =
     (if \<not> clOpen io then ([EngIO], s)
      else
        (case writeCleanupData bad t (sdata s)
               \<lparr>clIndexFile = tmp_index s, clValueFile = tmp_value s, clIndexBuf = [], clValueBuf = [],
                clOffsets = [], clOffset = 0, clWrites = clWrite io\<rparr> s of
           (Inl (CleanPanic c), s) \<Rightarrow> ([], (keep_tmp c s)\<lparr>panicked := True\<rparr>)
         | (Inl (CleanErr errs c), s) \<Rightarrow> (errs, keep_tmp c s)
         | (Inr c, s) \<Rightarrow>
             (case swapCleanupFiles io c s of
                (e # es, s) \<Rightarrow> (e # es, s)
              | ([], s) \<Rightarrow>
                  if \<not> clReopen io then ([EngIO], s)
                  else ([], updateShardAfterCleanup (clOffsets c) (clOffset c) s))))"

section \<open>The committer loop\<close>

datatype commit_event = CeReq | CeTick | CeCompact compact_io | CeClean "nat option" bool clean_io | CeStop

definition committer_step :: "commit_event \<Rightarrow> shard \<Rightarrow> shard" where
  "committer_step ev s =
     (if panicked s then s
      else
        (case ev of
           CeReq \<Rightarrow> (case reqCh s of [] \<Rightarrow> s | r # rs \<Rightarrow> appendToBatch r (s\<lparr>reqCh := rs\<rparr>))
         | CeTick \<Rightarrow> flushBuffered s
         | CeCompact io \<Rightarrow> (let s = drainReqCh s in if panicked s then s else snd (doCompact io s))
         | CeClean bad t io \<Rightarrow> (let s = drainReqCh s in if panicked s then s else snd (doCleanup bad t io s))
         | CeStop \<Rightarrow> drainReqCh (s\<lparr>stopCh := True\<rparr>)))"

text \<open>One tick of the compaction worker, and the end of a shard.\<close>

definition compaction_tick :: "compactionPolicy \<Rightarrow> int \<Rightarrow> compact_io \<Rightarrow> shard \<Rightarrow> shard" where
  "compaction_tick policy now io s =
     (if \<not> shouldCompact policy now s then s
      else if stopCh s \<or> panicked s then s
      else
        (let s = drainReqCh s in
         if panicked s then s
         else (case doCompact io s of (errs, s) \<Rightarrow> if errs = [] then s\<lparr>lastCompacted := Some now\<rparr> else s)))"

definition stopBackgroundWorker :: "shard \<Rightarrow> shard" where
  "stopBackgroundWorker s = (let s = committer_step CeStop s in s\<lparr>swal := wal_close (swal s)\<rparr>)"

section \<open>A batch on disk\<close>

fun batch_entries :: "int \<Rightarrow> writeRequest list \<Rightarrow> indexEntry list" where
  "batch_entries off [] = []"
| "batch_entries off (r # rs) =
     \<lparr>ieKey = wrKey r, ieValueSize = length (wrValue r), ieValueOffset = off\<rparr> # batch_entries (off + int (length (wrValue r))) rs"

abbreviation idx_total :: "writeRequest list \<Rightarrow> nat" where
  "idx_total rs \<equiv> \<Sum>r\<leftarrow>rs. walIndexLen (length (wrKey r))"

abbreviation val_total :: "writeRequest list \<Rightarrow> nat" where
  "val_total rs \<equiv> \<Sum>r\<leftarrow>rs. length (wrValue r)"

lemma length_reuse_buf: "length (fst (reuse_buf b n)) = n"
  by (simp add: reuse_buf_def)

lemma encode_batch_eq:
  assumes "length zi = idx_total rs" "length zv = val_total rs"
  shows "encode_batch rs (qi @ zi) (length qi) (qv @ zv) (length qv) off =
    (qi @ concat (map index_bytes (batch_entries off rs)), qv @ concat (map wrValue rs), off + int (val_total rs))"
  using assms
proof (induction rs arbitrary: qi zi qv zv off)
  case (Cons r rs)
  let ?e = "\<lparr>ieKey = wrKey r, ieValueSize = length (wrValue r), ieValueOffset = off\<rparr>"
  have li: "length zi = 16 + length (wrKey r) + idx_total rs" and lv: "length zv = length (wrValue r) + val_total rs"
    using Cons.prems by (simp_all add: walIndexLen_def walIndexHeaderBytes_def)
  have "encodeInto zi (wrKey r) (length (wrValue r)) off = (index_bytes ?e @ drop (16 + length (wrKey r)) zi, 16 + length (wrKey r))"
    using encodeInto_eq [OF li] by simp
  moreover have "put_bytes (qv @ zv) (length qv) (wrValue r) = qv @ wrValue r @ drop (length (wrValue r)) zv"
    using lv by (simp add: put_bytes_def)
  ultimately show ?case
    using Cons.IH [of "drop (16 + length (wrKey r)) zi" "drop (length (wrValue r)) zv" "qi @ index_bytes ?e" "qv @ wrValue r"] li lv
    by (simp add: add.assoc)
qed simp

definition sync_data :: "writeRequest list \<Rightarrow> (bytes \<times> valueEntry) list \<Rightarrow> (bytes \<times> valueEntry) list" where
  "sync_data b = fold (\<lambda>r d. if wrResp r = None then d
     else AList.update (wrKey r) \<lparr>payload = Some (wrValue r), vsize = length (wrValue r), voffset = 0\<rparr> d) b"

lemma sync_data_async: "\<forall>r \<in> set b. wrResp r = None \<Longrightarrow> sync_data b d = d"
  by (induction b) (simp_all add: sync_data_def)

lemma apply_sync_fields:
  "swal (fold apply_sync b s) = swal s" "panicked (fold apply_sync b s) = panicked s" "valueOffset (fold apply_sync b s) = valueOffset s"
  "reqCh (fold apply_sync b s) = reqCh s" "cbuf (fold apply_sync b s) = cbuf s" "flush_env (fold apply_sync b s) = flush_env s"
  "stopCh (fold apply_sync b s) = stopCh s" "acks (fold apply_sync b s) = acks s @ ack_all None b"
  "sdata (fold apply_sync b s) = sync_data b (sdata s)"
proof (induction b arbitrary: s)
  case (Cons r b)
  {
    case 8 show ?case using Cons.IH(8) by (simp add: apply_sync_def putInternal_def Let_def ack_all_def List.map_filter_simps split: option.split)
  next
    case 9 show ?case using Cons.IH(9) by (simp add: apply_sync_def putInternal_def Let_def sync_data_def split: option.split)
  }
qed (simp_all add: apply_sync_def putInternal_def Let_def ack_all_def List.map_filter_simps sync_data_def split: option.split)

text \<open>What a flush leaves in the files, whatever the disk does.\<close>

lemma flush_files:
  fixes b :: "writeRequest list"
  assumes open': "indexOpen (swal s)" "valueOpen (swal s)"
    and io: "io = flush_env s (flush_no s)"
  defines "val \<equiv> concat (map wrValue b)" and "idx \<equiv> concat (map index_bytes (batch_entries (valueOffset s) b))"
  defines "okv \<equiv> fValue io = None \<and> fValueSync io" and "oki \<equiv> fIndex io = None \<and> fIndexSync io"
  defines "vf \<equiv> snd (file_append (fValue io) (valueFile (swal s)) val)"
  shows "swal (flush s b) = (swal s)\<lparr>indexFile := (if okv then snd (file_append (fIndex io) (indexFile (swal s)) idx) else indexFile (swal s)),
      valueFile := vf, vpos := length vf\<rparr>"
    "panicked (flush s b) = (panicked s \<or> \<not> okv \<or> \<not> oki)"
    "okv \<and> oki \<Longrightarrow> valueOffset (flush s b) = valueOffset s + int (val_total b)"
    "sdata (flush s b) = (if okv \<and> oki then sync_data b (sdata s) else sdata s)" "reqCh (flush s b) = reqCh s" "cbuf (flush s b) = cbuf s"
    "flush_env (flush s b) = flush_env s" "stopCh (flush s b) = stopCh s"
    "acks (flush s b) = acks s @ ack_all (if okv \<and> oki then None else Some EngIO) b"
proof -
  obtain zi mi where zi: "reuse_buf (walIndexBuf s) (idx_total b) = (zi, mi)" "length zi = idx_total b"
    using length_reuse_buf [of "walIndexBuf s" "idx_total b"] by (cases "reuse_buf (walIndexBuf s) (idx_total b)") auto
  obtain zv mv where zv: "reuse_buf (walValueBuf s) (val_total b) = (zv, mv)" "length zv = val_total b"
    using length_reuse_buf [of "walValueBuf s" "val_total b"] by (cases "reuse_buf (walValueBuf s) (val_total b)") auto
  have enc: "encode_batch b zi 0 zv 0 (valueOffset s) = (idx, val, valueOffset s + int (val_total b))"
    using encode_batch_eq [OF zi(2) zv(2), of "[]" "[]" "valueOffset s"] by (simp add: idx_def val_def)
  note d = flush_def Let_def io [symmetric] zi(1) zv(1) enc writeValue_def writeIndex_def file_append_def open'
    apply_sync_fields okv_def oki_def vf_def
  show "swal (flush s b) = (swal s)\<lparr>indexFile := (if okv then snd (file_append (fIndex io) (indexFile (swal s)) idx) else indexFile (swal s)),
      valueFile := vf, vpos := length vf\<rparr>"
    "panicked (flush s b) = (panicked s \<or> \<not> okv \<or> \<not> oki)"
    "okv \<and> oki \<Longrightarrow> valueOffset (flush s b) = valueOffset s + int (val_total b)"
    "sdata (flush s b) = (if okv \<and> oki then sync_data b (sdata s) else sdata s)" "reqCh (flush s b) = reqCh s" "cbuf (flush s b) = cbuf s"
    "flush_env (flush s b) = flush_env s" "stopCh (flush s b) = stopCh s"
    "acks (flush s b) = acks s @ ack_all (if okv \<and> oki then None else Some EngIO) b"
    by (cases "fValue io"; cases "fIndex io"; simp add: d)+
qed

end
