(* ===== verification/Engine_Durable.thy ===== *)
theory Engine_Durable
  imports Engine_Shard "HOL-Library.Sublist"
begin

text \<open>
  The files of a shard under its writes, the flushes of its committer and a crash: what is on disk,
  what callers have been told, and what a restart brings back. The invariants speak of the index
  records and values in the files, of the requests still queued, and of the map in memory.
\<close>

section \<open>Values in memory and on disk\<close>

definition entry_value :: "bytes \<Rightarrow> indexEntry \<Rightarrow> bytes" where
  "entry_value vf e = take (ieValueSize e) (drop (nat (ieValueOffset e)) vf)"

definition disk_writes :: "bytes \<Rightarrow> indexEntry list \<Rightarrow> (bytes \<times> bytes) list" where
  "disk_writes vf es = map (\<lambda>e. (ieKey e, entry_value vf e)) es"

definition last_write :: "(bytes \<times> bytes) list \<Rightarrow> bytes \<rightharpoonup> bytes" where
  "last_write ws = map_of (rev ws)"

definition request_write :: "writeRequest \<Rightarrow> bytes \<times> bytes" where
  "request_write r = (wrKey r, wrValue r)"

definition visible :: "bytes \<Rightarrow> valueEntry \<Rightarrow> bytes" where
  "visible vf ve = (case payload ve of Some p \<Rightarrow> p | None \<Rightarrow> take (vsize ve) (drop (nat (voffset ve)) vf))"

definition shard_value :: "shard \<Rightarrow> bytes \<rightharpoonup> bytes" where
  "shard_value s k = map_option (visible (valueFile (swal s))) (map_of (sdata s) k)"

lemma length_disk_writes [simp]: "length (disk_writes vf es) = length es"
  by (simp add: disk_writes_def)

lemma disk_writes_simps [simp]: "disk_writes vf [] = []" "disk_writes vf (es @ es') = disk_writes vf es @ disk_writes vf es'"
  by (simp_all add: disk_writes_def)

lemma last_write_append: "last_write (ws @ vs) = last_write ws ++ last_write vs"
  by (simp add: last_write_def)

lemma last_write_snoc: "last_write (ws @ [(k, v)]) = (last_write ws)(k \<mapsto> v)"
  by (simp add: last_write_def)

section \<open>Invariant\<close>

definition entry_in :: "bytes \<Rightarrow> indexEntry \<Rightarrow> bool" where
  "entry_in vf e \<longleftrightarrow> index_ok e \<and> nat (ieValueOffset e) + ieValueSize e \<le> length vf"

definition request_ok :: "writeRequest \<Rightarrow> bool" where
  "request_ok r \<longleftrightarrow> length (wrKey r) + 16 < 2 ^ 32 \<and> length (wrValue r) < 2 ^ 32"

definition pending :: "shard \<Rightarrow> writeRequest list" where
  "pending s = cbuf s @ reqCh s"

text \<open>The files of a shard whose committer runs: whole index records, each with its value.\<close>

definition disk_inv :: "shard \<Rightarrow> indexEntry list \<Rightarrow> bool" where
  "disk_inv s es \<longleftrightarrow> indexFile (swal s) = concat (map index_bytes es) \<and> (\<forall>e \<in> set es. entry_in (valueFile (swal s)) e)
     \<and> valueOffset s = int (length (valueFile (swal s))) \<and> indexOpen (swal s) \<and> valueOpen (swal s) \<and> \<not> panicked s
     \<and> (\<forall>r \<in> set (pending s). request_ok r) \<and> length (valueFile (swal s)) + val_total (pending s) < 2 ^ 63"

definition loaded_or_in :: "bytes \<Rightarrow> (bytes \<times> valueEntry) list \<Rightarrow> bool" where
  "loaded_or_in vf d \<longleftrightarrow> (\<forall>k ve. map_of d k = Some ve \<longrightarrow> payload ve = None \<longrightarrow> nat (voffset ve) + vsize ve \<le> length vf)"

definition mem_inv :: "shard \<Rightarrow> (bytes \<times> bytes) list \<Rightarrow> bool" where
  "mem_inv s ws \<longleftrightarrow> loaded_or_in (valueFile (swal s)) (sdata s) \<and> shard_value s = last_write ws"

lemma entry_value_append: "entry_in vf e \<Longrightarrow> entry_value (vf @ xs) e = entry_value vf e"
  by (simp add: entry_in_def entry_value_def)

lemma disk_writes_append: "\<forall>e \<in> set es. entry_in vf e \<Longrightarrow> disk_writes (vf @ xs) es = disk_writes vf es"
  by (simp add: disk_writes_def entry_value_append)

lemma entry_in_append: "entry_in vf e \<Longrightarrow> entry_in (vf @ xs) e"
  by (simp add: entry_in_def)

lemma visible_append:
  assumes "payload ve = None \<Longrightarrow> nat (voffset ve) + vsize ve \<le> length vf"
  shows "visible (vf @ xs) ve = visible vf ve"
  using assms by (cases "payload ve") (auto simp: visible_def)

text \<open>Appending to the value file changes nothing that is visible.\<close>

lemma mem_inv_append:
  assumes "mem_inv s ws" "sdata t = sdata s" "valueFile (swal t) = valueFile (swal s) @ xs"
  shows "mem_inv t ws"
proof -
  have l: "payload ve = None \<Longrightarrow> nat (voffset ve) + vsize ve \<le> length (valueFile (swal s))" if "map_of (sdata s) k = Some ve" for k ve
    using assms(1) that by (simp add: mem_inv_def loaded_or_in_def)
  then have "shard_value t k = shard_value s k" for k
    using assms(2,3) visible_append [OF l] by (cases "map_of (sdata s) k") (auto simp: shard_value_def)
  then show ?thesis using assms l by (fastforce simp: mem_inv_def loaded_or_in_def)
qed

lemma mem_inv_cong: "sdata t = sdata s \<Longrightarrow> swal t = swal s \<Longrightarrow> mem_inv s ws \<Longrightarrow> mem_inv t ws"
  using mem_inv_append [of s ws t "[]"] by simp

text \<open>The records of a batch read back as the writes of the batch.\<close>

lemma batch_entries_in:
  assumes "\<forall>r \<in> set rs. request_ok r" "length vf + val_total rs < 2 ^ 63"
  shows "\<forall>e \<in> set (batch_entries (int (length vf)) rs). entry_in (vf @ concat (map wrValue rs)) e"
    and "disk_writes (vf @ concat (map wrValue rs)) (batch_entries (int (length vf)) rs) = map request_write rs"
  using assms
proof (induction rs arbitrary: vf)
  case (Cons r rs)
  {
    case 1
    have "\<forall>e \<in> set (batch_entries (int (length (vf @ wrValue r))) rs). entry_in ((vf @ wrValue r) @ concat (map wrValue rs)) e"
      using Cons.IH(1) [of "vf @ wrValue r"] 1 by simp
    then show ?case using 1 by (simp add: entry_in_def index_ok_def request_ok_def)
  next
    case 2
    have "disk_writes ((vf @ wrValue r) @ concat (map wrValue rs)) (batch_entries (int (length (vf @ wrValue r))) rs) = map request_write rs"
      using Cons.IH(2) [of "vf @ wrValue r"] 2 by simp
    then show ?case by (simp add: disk_writes_def entry_value_def request_write_def)
  }
qed simp_all

section \<open>What the files hold\<close>

text \<open>What the files hold of the writes \<open>ws\<close>: the records of the first of them, at least \<open>d\<close>; the last
  record may be torn.\<close>

definition disk_holds :: "shard \<Rightarrow> (bytes \<times> bytes) list \<Rightarrow> nat \<Rightarrow> bool" where
  "disk_holds s ws d \<longleftrightarrow> (\<exists>es es' n. (\<forall>e \<in> set (es @ es'). entry_in (valueFile (swal s)) e) \<and> length es = d
     \<and> indexFile (swal s) = concat (map index_bytes es) @ take n (concat (map index_bytes es'))
     \<and> prefix (disk_writes (valueFile (swal s)) (es @ es')) ws) \<and> length (valueFile (swal s)) < 2 ^ 63"

lemma disk_inv_holds:
  assumes "disk_inv s es"
  shows "disk_holds s (disk_writes (valueFile (swal s)) es @ ws) (length es)"
  unfolding disk_holds_def
  using assms by (intro conjI exI [of _ es] exI [of _ "[]"] exI [of _ 0]) (auto simp: disk_inv_def)

lemma disk_holds_mono: "disk_holds s ws d \<Longrightarrow> disk_holds s (ws @ vs) d"
  unfolding disk_holds_def by (metis prefix_append)

lemma file_append_take: "\<exists>n. snd (file_append fails b xs) = b @ take n xs"
  by (cases fails) (auto simp: file_append_def intro: exI [of _ "length xs"])

lemma flush_panics:
  assumes inv: "disk_inv s es" and b: "b = cbuf s" and pn: "panicked (flush s b)"
  shows "disk_holds (flush s b) (disk_writes (valueFile (swal s)) es @ map request_write b) (length es)"
    "acks (flush s b) = acks s @ ack_all (Some EngIO) b"
proof -
  define io where "io = flush_env s (flush_no s)"
  let ?vf = "valueFile (swal s)" and ?val = "concat (map wrValue b)" and ?s' = "flush s b"
  let ?es = "batch_entries (valueOffset s) b" and ?i = "\<lambda>es. concat (map index_bytes es)"
  have i: "indexFile (swal s) = ?i es" "\<forall>e \<in> set es. entry_in ?vf e" "valueOffset s = int (length ?vf)"
    "indexOpen (swal s)" "valueOpen (swal s)" "\<not> panicked s" "\<forall>r \<in> set b. request_ok r" "length ?vf + val_total b < 2 ^ 63"
    using inv by (auto simp: disk_inv_def pending_def b)
  note f = flush_files [OF i(4,5) io_def, of b]
  note be = batch_entries_in [OF i(7,8), folded i(3)]
  show "acks ?s' = acks s @ ack_all (Some EngIO) b" using f(2,9) pn i(6) by (auto split: if_split_asm)
  have e: "\<forall>e \<in> set es. entry_in (?vf @ xs) e" for xs using i(2) by (blast intro: entry_in_append)
  show "disk_holds ?s' (disk_writes ?vf es @ map request_write b) (length es)"
  proof (cases "fValue io = None \<and> fValueSync io")
    case True
    have w: "valueFile (swal ?s') = ?vf @ ?val" "indexFile (swal ?s') = snd (file_append (fIndex io) (indexFile (swal s)) (?i ?es))"
      using f(1) True by (simp_all add: file_append_def)
    obtain n where "indexFile (swal ?s') = ?i es @ take n (?i ?es)"
      using w(2) i(1) file_append_take [of "fIndex io"] by metis
    moreover have "length (?vf @ ?val) < 2 ^ 63" using i(8) by (simp add: length_concat comp_def)
    ultimately show ?thesis
      using be w(1) e [of ?val] disk_writes_append [OF i(2), of ?val] unfolding disk_holds_def
      by (intro conjI exI [of _ es] exI [of _ ?es] exI [of _ n]) auto
  next
    case False
    obtain n where v: "valueFile (swal ?s') = ?vf @ take n ?val" and x: "indexFile (swal ?s') = ?i es"
      using f(1) False i(1) file_append_take [of "fValue io"] by auto
    have "length (?vf @ take n ?val) \<le> length ?vf + val_total b" by (simp add: length_concat comp_def)
    then have "length (?vf @ take n ?val) < 2 ^ 63" using i(8) by simp
    with v x show ?thesis
      using e [of "take n ?val"] disk_writes_append [OF i(2), of "take n ?val"] unfolding disk_holds_def
      by (intro conjI exI [of _ es] exI [of _ "[]"] exI [of _ 0]) auto
  qed
qed

lemma flush_works:
  assumes inv: "disk_inv s es" and b: "b = cbuf s" and np: "\<not> panicked (flush s b)"
  defines "t \<equiv> (flush s b)\<lparr>cbuf := []\<rparr>" and "es' \<equiv> es @ batch_entries (valueOffset s) b"
  shows "disk_inv t es'" "disk_writes (valueFile (swal t)) es' = disk_writes (valueFile (swal s)) es @ map request_write b"
    "pending t = reqCh s" "acks t = acks s @ ack_all None b"
    "\<forall>r \<in> set b. wrResp r = None \<Longrightarrow> mem_inv s ws \<Longrightarrow> mem_inv t ws"
proof -
  define io where "io = flush_env s (flush_no s)"
  let ?vf = "valueFile (swal s)" and ?val = "concat (map wrValue b)"
  let ?es = "batch_entries (valueOffset s) b" and ?i = "\<lambda>es. concat (map index_bytes es)"
  have i: "indexFile (swal s) = ?i es" "\<forall>e \<in> set es. entry_in ?vf e" "valueOffset s = int (length ?vf)"
    "indexOpen (swal s)" "valueOpen (swal s)" "\<not> panicked s" "\<forall>r \<in> set b. request_ok r" "length ?vf + val_total b < 2 ^ 63"
    "length ?vf + val_total b + val_total (reqCh s) < 2 ^ 63" "\<forall>r \<in> set (reqCh s). request_ok r"
    using inv by (auto simp: disk_inv_def pending_def b)
  note f = flush_files [OF i(4,5) io_def, of b]
  note be = batch_entries_in [OF i(7,8), folded i(3)]
  have ok: "fValue io = None \<and> fValueSync io" "fIndex io = None \<and> fIndexSync io" using f(2) np by simp_all
  have w: "valueFile (swal t) = ?vf @ ?val" "indexFile (swal t) = ?i es'" "indexOpen (swal t)" "valueOpen (swal t)"
    using f(1) ok i(1,4,5) by (simp_all add: file_append_def t_def es'_def)
  show p: "pending t = reqCh s" using f(5) by (simp add: t_def pending_def)
  show "acks t = acks s @ ack_all None b" using f(9) ok by (simp add: t_def)
  have e: "\<forall>e \<in> set es. entry_in (?vf @ ?val) e" using i(2) by (blast intro: entry_in_append)
  have "valueOffset t = int (length (?vf @ ?val))" using f(3) ok i(3) by (simp add: t_def length_concat comp_def)
  moreover have "length (?vf @ ?val) + val_total (reqCh s) < 2 ^ 63" using i(9) by (simp add: length_concat comp_def)
  ultimately show "disk_inv t es'"
    using e be(1) i(10) w np p unfolding disk_inv_def by (simp add: es'_def ball_Un) (simp add: t_def)
  show "disk_writes (valueFile (swal t)) es' = disk_writes ?vf es @ map request_write b"
    using disk_writes_append [OF i(2), of ?val] be(2) w(1) by (simp add: es'_def)
  show "mem_inv t ws" if "\<forall>r \<in> set b. wrResp r = None" "mem_inv s ws"
    using mem_inv_append [OF that(2) _ w(1)] f(4) sync_data_async [OF that(1)] by (simp add: t_def)
qed

section \<open>Runs of a shard\<close>

text \<open>The callers that have been told that their write is done.\<close>

definition told_ok :: "shard \<Rightarrow> nat list" where
  "told_ok s = List.map_filter (\<lambda>(ch, e). if e = None then Some ch else None) (acks s)"

definition callers :: "writeRequest list \<Rightarrow> nat list" where
  "callers hs = List.map_filter wrResp hs"

text \<open>
  A shard that had \<open>ws\<close> on disk and answered \<open>cs\<close>, after the requests \<open>hs\<close>: the first \<open>d\<close> of them are on
  disk and answered. Either the rest waits, or a flush has failed and the committer has stopped.
\<close>

definition live_inv :: "(bytes \<times> bytes) list \<Rightarrow> writeRequest list \<Rightarrow> nat \<Rightarrow> shard \<Rightarrow> bool" where
  "live_inv ws hs d s \<longleftrightarrow> (\<exists>es. disk_inv s es \<and> disk_writes (valueFile (swal s)) es = ws @ map request_write (take d hs))
     \<and> pending s = drop d hs \<and> ((\<forall>r \<in> set hs. wrResp r = None) \<longrightarrow> mem_inv s (ws @ map request_write hs))"

definition run_inv :: "(bytes \<times> bytes) list \<Rightarrow> nat list \<Rightarrow> writeRequest list \<Rightarrow> shard \<Rightarrow> bool" where
  "run_inv ws cs hs s \<longleftrightarrow> (\<exists>d \<le> length hs. told_ok s = cs @ callers (take d hs)
     \<and> (if panicked s then disk_holds s (ws @ map request_write hs) (length ws + d) else live_inv ws hs d s))"

lemma told_ok_append:
  "acks t = acks s @ ack_all None b \<Longrightarrow> told_ok t = told_ok s @ callers b"
  "acks t = acks s @ ack_all (Some e) b \<Longrightarrow> told_ok t = told_ok s"
  by (simp_all add: told_ok_def ack_all_def callers_def List.map_filter_def comp_def)

lemma told_ok_cong: "acks t = acks s \<Longrightarrow> told_ok t = told_ok s"
  by (simp add: told_ok_def)

lemma run_inv_flush:
  assumes "run_inv ws cs hs s" "\<not> panicked s"
  shows "run_inv ws cs hs (let s' = flush s (cbuf s) in if panicked s' then s' else s'\<lparr>cbuf := []\<rparr>)"
proof -
  obtain d es where d: "d \<le> length hs" "told_ok s = cs @ callers (take d hs)" "pending s = drop d hs"
    "(\<forall>r \<in> set hs. wrResp r = None) \<longrightarrow> mem_inv s (ws @ map request_write hs)"
    and es: "disk_inv s es" "disk_writes (valueFile (swal s)) es = ws @ map request_write (take d hs)"
    using assms by (auto simp: run_inv_def live_inv_def)
  let ?b = "cbuf s"
  have "drop d hs = ?b @ reqCh s" using d(3) by (simp add: pending_def)
  then have hs: "hs = take d hs @ ?b @ reqCh s" by (metis append_take_drop_id)
  define e where "e = d + length ?b"
  have e: "e \<le> length hs" "take e hs = take d hs @ ?b" "drop e hs = reqCh s"
    using d(1) by (subst hs, simp add: e_def)+
  show ?thesis
  proof (cases "panicked (flush s ?b)")
    case True
    have "disk_holds (flush s ?b) ((ws @ map request_write (take d hs) @ map request_write ?b) @ map request_write (reqCh s)) (length es)"
      using disk_holds_mono [OF flush_panics(1) [OF es(1) refl True]] es(2) by simp
    moreover have "ws @ map request_write hs = (ws @ map request_write (take d hs) @ map request_write ?b) @ map request_write (reqCh s)"
      by (subst hs) simp
    moreover have "length es = length ws + d" using arg_cong [OF es(2), of length] d(1) by simp
    ultimately show ?thesis
      using True d(1,2) told_ok_append(2) [OF flush_panics(2) [OF es(1) refl True]] by (auto simp: run_inv_def)
  next
    case False
    note f = flush_works [OF es(1) refl False]
    have "live_inv ws hs e ((flush s ?b)\<lparr>cbuf := []\<rparr>)"
      unfolding live_inv_def
    proof (intro conjI impI exI [of _ "es @ batch_entries (valueOffset s) ?b"])
      show "mem_inv ((flush s ?b)\<lparr>cbuf := []\<rparr>) (ws @ map request_write hs)" if "\<forall>r \<in> set hs. wrResp r = None"
        using that d(4) hs by (intro f(5)) (metis UnCI set_append, blast)
    qed (use f(1-3) e es(2) in simp_all)
    moreover have "told_ok ((flush s ?b)\<lparr>cbuf := []\<rparr>) = cs @ callers (take e hs)"
      using told_ok_append(1) [OF f(4)] d(2) e(2) by (simp add: callers_def List.map_filter_def)
    ultimately show ?thesis using False e(1) by (auto simp: run_inv_def)
  qed
qed

lemma run_inv_append:
  assumes "run_inv ws cs hs s" "reqCh s = r # rs"
  shows "run_inv ws cs hs (appendToBatch r (s\<lparr>reqCh := rs\<rparr>))"
proof (cases "panicked s")
  case True
  then show ?thesis using assms told_ok_cong [of "s\<lparr>reqCh := rs\<rparr>" s]
    by (auto simp: run_inv_def appendToBatch_def disk_holds_def)
next
  case False
  let ?s = "s\<lparr>reqCh := rs, cbuf := cbuf s @ [r]\<rparr>"
  have "pending ?s = pending s" using assms(2) by (simp add: pending_def)
  then have "disk_inv s es \<Longrightarrow> disk_inv ?s es" for es by (simp add: disk_inv_def)
  then have "run_inv ws cs hs ?s"
    using assms(1) False \<open>pending ?s = pending s\<close> mem_inv_cong [of ?s s] told_ok_cong [of ?s s]
    by (fastforce simp: run_inv_def live_inv_def)
  then show ?thesis using run_inv_flush [of ws cs hs ?s] False by (simp add: appendToBatch_def Let_def)
qed

lemma run_inv_flushBuffered: "run_inv ws cs hs s \<Longrightarrow> run_inv ws cs hs (flushBuffered s)"
  using run_inv_flush by (simp add: flushBuffered_def)

lemma apply_sync_reqCh: "fold apply_sync b (s\<lparr>reqCh := x\<rparr>) = (fold apply_sync b s)\<lparr>reqCh := x\<rparr>"
proof (induction b arbitrary: s)
  case (Cons r b)
  have "apply_sync r (s\<lparr>reqCh := x\<rparr>) = (apply_sync r s)\<lparr>reqCh := x\<rparr>"
    by (simp add: apply_sync_def putInternal_def Let_def split: option.split)
  then show ?case by (simp add: Cons.IH)
qed simp

lemma flush_reqCh: "flush (s\<lparr>reqCh := x\<rparr>) b = (flush s b)\<lparr>reqCh := x\<rparr>"
  by (simp add: flush_def Let_def split: prod.split option.split)
    (auto simp: apply_sync_reqCh [symmetric] intro!: arg_cong [where f = "fold apply_sync b"])

lemma appendToBatch_reqCh: "appendToBatch r (s\<lparr>reqCh := x\<rparr>) = (appendToBatch r s)\<lparr>reqCh := x\<rparr>"
proof -
  have swap: "s\<lparr>reqCh := x, cbuf := cbuf s @ [r]\<rparr> = s\<lparr>cbuf := cbuf s @ [r], reqCh := x\<rparr>" by simp
  have "flush (s\<lparr>reqCh := x, cbuf := cbuf s @ [r]\<rparr>) b = (flush (s\<lparr>cbuf := cbuf s @ [r]\<rparr>) b)\<lparr>reqCh := x\<rparr>" for b
    unfolding swap by (rule flush_reqCh)
  then show ?thesis by (simp add: appendToBatch_def Let_def)
qed

lemma drain_pending:
  assumes "\<not> panicked (drainReqCh s)"
  shows "pending (drainReqCh s) = []"
proof -
  have f: "reqCh (flush s b) = reqCh s" for s b
    using arg_cong [OF flush_reqCh [of "reqCh s" s b], of reqCh] by simp
  have "reqCh (appendToBatch r s) = reqCh s" for r s
    using arg_cong [OF appendToBatch_reqCh [of r "reqCh s" s], of reqCh] by simp
  then have "reqCh (fold appendToBatch rs s) = reqCh s" for rs s by (induction rs arbitrary: s) simp_all
  moreover have "pending (flushBuffered s) = reqCh s" if "\<not> panicked (flushBuffered s)" for s
    using that f by (auto simp: flushBuffered_def pending_def Let_def split: if_split_asm)
  ultimately show ?thesis using assms by (simp add: drainReqCh_def)
qed

lemma run_inv_drain: "run_inv ws cs hs s \<Longrightarrow> run_inv ws cs hs (drainReqCh s)"
proof -
  have "run_inv ws cs hs (s\<lparr>reqCh := rs\<rparr>) \<Longrightarrow> run_inv ws cs hs (fold appendToBatch rs (s\<lparr>reqCh := []\<rparr>))" for s rs
  proof (induction rs arbitrary: s)
    case (Cons r rs)
    from run_inv_append [OF Cons.prems] have "run_inv ws cs hs (appendToBatch r (s\<lparr>reqCh := rs\<rparr>))" by simp
    then show ?case using Cons.IH [of "appendToBatch r s"] by (simp add: appendToBatch_reqCh)
  qed simp
  from this [of "reqCh s" s] show "run_inv ws cs hs s \<Longrightarrow> run_inv ws cs hs (drainReqCh s)"
    by (simp add: drainReqCh_def run_inv_flushBuffered)
qed

text \<open>Runs: writes of both kinds, accepted before the shard is told to stop, and the work of the
  committer. The value file stays below \<open>2\<^sup>6\<^sup>3\<close> bytes.\<close>

definition fits :: "shard \<Rightarrow> bytes \<Rightarrow> bytes \<Rightarrow> bool" where
  "fits s k v \<longleftrightarrow> length k + 16 < 2 ^ 32 \<and> length v < 2 ^ 32 \<and> length (valueFile (swal s)) + val_total (pending s) + length v < 2 ^ 63"

inductive shard_run :: "shard \<Rightarrow> writeRequest list \<Rightarrow> shard \<Rightarrow> bool" for s0 where
  start: "shard_run s0 [] s0"
| put: "shard_run s0 hs s \<Longrightarrow> fits s k v \<Longrightarrow> shard_put False False s k v ch = (None, s') \<Longrightarrow>
    shard_run s0 (hs @ [\<lparr>wrKey = k, wrValue = v, wrResp = Some ch\<rparr>]) s'"
| async: "shard_run s0 hs s \<Longrightarrow> fits s k v \<Longrightarrow>
    shard_run s0 (hs @ [\<lparr>wrKey = k, wrValue = v, wrResp = None\<rparr>]) (putAsync False s k v)"
| commit: "shard_run s0 hs s \<Longrightarrow> ev \<in> {CeReq, CeTick, CeStop} \<Longrightarrow> shard_run s0 hs (committer_step ev s)"

lemma run_inv_enqueue:
  assumes "run_inv ws cs hs s" "fits s k v" and r: "wrKey r = k" "wrValue r = v"
    and t: "swal t = swal s" "panicked t = panicked s" "acks t = acks s" "valueOffset t = valueOffset s" "pending t = pending s @ [r]"
    and m: "wrResp r = None \<Longrightarrow> sdata t = AList.update k \<lparr>payload = Some v, vsize = length v, voffset = 0\<rparr> (sdata s)"
  shows "run_inv ws cs (hs @ [r]) t"
proof -
  obtain d where d: "d \<le> length hs" "told_ok s = cs @ callers (take d hs)"
    "if panicked s then disk_holds s (ws @ map request_write hs) (length ws + d) else live_inv ws hs d s"
    using assms(1) by (auto simp: run_inv_def)
  have "disk_holds t (ws @ map request_write (hs @ [r])) (length ws + d)" if "panicked s"
    using that d(3) disk_holds_mono [of s "ws @ map request_write hs" "length ws + d" "[request_write r]"] t(1)
    by (simp add: disk_holds_def)
  moreover have "live_inv ws (hs @ [r]) d t" if np: "\<not> panicked s"
  proof -
    have "disk_inv s es \<Longrightarrow> disk_inv t es" for es
      using t r assms(2) by (auto simp: disk_inv_def request_ok_def fits_def)
    moreover have "mem_inv t (ws @ map request_write (hs @ [r]))" if "\<forall>r' \<in> set (hs @ [r]). wrResp r' = None"
    proof -
      have "mem_inv s (ws @ map request_write hs)" using d(3) np that by (simp add: live_inv_def)
      moreover have "shard_value t = (shard_value s)(k \<mapsto> v)"
        by (rule ext) (use that in \<open>simp add: shard_value_def t(1) m update_conv' visible_def\<close>)
      ultimately show ?thesis
        using that m t(1) r last_write_snoc [of "ws @ map request_write hs" k v]
        by (simp add: mem_inv_def loaded_or_in_def update_conv' request_write_def)
    qed
    ultimately show ?thesis using d(1,3) np t(1,5) by (auto simp: live_inv_def)
  qed
  ultimately show ?thesis using d(1,2) t(2) told_ok_cong [OF t(3)] unfolding run_inv_def by (intro exI [of _ d]) simp
qed

lemma run_inv_commit:
  assumes "run_inv ws cs hs s" "ev \<in> {CeReq, CeTick, CeStop}"
  shows "run_inv ws cs hs (committer_step ev s)"
proof -
  let ?s = "s\<lparr>stopCh := True\<rparr>"
  have "run_inv ws cs hs ?s"
    using assms(1) told_ok_cong [of ?s s] mem_inv_cong [of ?s s]
    by (auto simp: run_inv_def live_inv_def disk_holds_def disk_inv_def pending_def)
  then show ?thesis
    using assms run_inv_append run_inv_flushBuffered run_inv_drain
    by (auto simp: committer_step_def split: list.split)
qed

lemma shard_run_inv:
  assumes "shard_run s0 hs s" "run_inv ws cs [] s0"
  shows "run_inv ws cs hs s"
  using assms(1)
proof induction
  case (put hs s k v ch s')
  then have "s' = s\<lparr>reqCh := reqCh s @ [\<lparr>wrKey = k, wrValue = v, wrResp = Some ch\<rparr>]\<rparr>" by (simp add: shard_put_def)
  then show ?case by (intro run_inv_enqueue [OF put.IH put.hyps(2)]) (simp_all add: pending_def)
next
  case (async hs s k v)
  show ?case
    by (rule run_inv_enqueue [OF async.IH async.hyps(2)])
      (simp_all add: putAsync_def putInternal_def Let_def pending_def)
qed (simp_all add: assms(2) run_inv_commit)

section \<open>Opening a shard again\<close>

definition reopen :: "(nat \<Rightarrow> flush_io) \<Rightarrow> shard_files \<Rightarrow> engine_error list \<times> shard" where
  "reopen env f = (case newShard True env f of Inl e \<Rightarrow> ([e], undefined) | Inr s \<Rightarrow> shard_replay None True s)"

lemma readIndex_all:
  assumes "\<forall>e \<in> set es. index_ok e"
  shows "readIndex_loop None t (\<lambda>e s. Inr (h e s)) (pre @ concat (map index_bytes es) @ rest) (length pre) (length pre) s =
    readIndex_loop None t (\<lambda>e s. Inr (h e s)) ((pre @ concat (map index_bytes es)) @ rest)
      (length (pre @ concat (map index_bytes es))) (length (pre @ concat (map index_bytes es))) (fold h es s)"
  using assms
proof (induction es arbitrary: pre s)
  case (Cons e es)
  then show ?case
    using readIndex_whole [of e pre "length pre" t h "concat (map index_bytes es) @ rest" "length pre" s] Cons.IH [of "pre @ index_bytes e" "h e s"]
    by simp
qed simp

text \<open>A shard that has just been opened.\<close>

definition opened :: "shard \<Rightarrow> indexEntry list \<Rightarrow> bool" where
  "opened s es \<longleftrightarrow> disk_inv s es \<and> mem_inv s (disk_writes (valueFile (swal s)) es) \<and> pending s = [] \<and> \<not> stopCh s"

lemma replay_mem:
  assumes "sdata s = fold replay_entry es []" "\<forall>e \<in> set es. entry_in (valueFile (swal s)) e"
  shows "mem_inv s (disk_writes (valueFile (swal s)) es)"
proof -
  let ?vf = "valueFile (swal s)"
  have "map_option (visible ?vf) (map_of (fold replay_entry xs []) k) = last_write (disk_writes ?vf xs) k" for xs k
    by (induction xs rule: rev_induct)
      (auto simp: replay_entry_def update_conv' visible_def disk_writes_def last_write_def entry_value_def)
  moreover have "\<forall>e \<in> set xs. entry_in ?vf e \<Longrightarrow> loaded_or_in ?vf (fold replay_entry xs [])" for xs
    by (induction xs rule: rev_induct) (auto simp: loaded_or_in_def replay_entry_def update_conv' entry_in_def)
  ultimately show ?thesis using assms by (auto simp: mem_inv_def shard_value_def)
qed

text \<open>Opening files whose index ends in a torn record: the whole records count and the file is cut
  back to them.\<close>

lemma reopen_files:
  assumes ok: "\<forall>e \<in> set (es @ es'). entry_in vf e" and len: "length vf < 2 ^ 63"
    and f: "fsValue f = vf" "fsIndex f = concat (map index_bytes es) @ take n (concat (map index_bytes es'))"
  obtains j errs s' where "reopen env f = (errs, s')" "errs \<in> {[], [EngCorruption]}" "opened s' (es @ take j es')"
    "es' = [] \<longrightarrow> errs = []" "valueFile (swal s') = vf"
proof -
  let ?i = "\<lambda>es. concat (map index_bytes es)"
  have iok: "\<forall>e \<in> set es. index_ok e" "\<forall>e \<in> set es'. index_ok e" using ok by (auto simp: entry_in_def)
  obtain ws where "(\<exists>j. ws = take j es')" and r: "readIndex_loop None True (\<lambda>e s. Inr (replay_entry e s)) (?i es @ take n (?i es')) (length (?i es)) (length (?i es)) (fold replay_entry es [])
      = (if take n (?i es') = ?i ws then [] else [EngCorruption], ?i es @ ?i ws, fold replay_entry ws (fold replay_entry es []))"
    using readIndex_prefix [OF iok(2), of n replay_entry "?i es"] by blast
  then obtain j where j: "ws = take j es'" by blast
  define errs where "errs = (if take n (?i es') = ?i ws then [] else [EngCorruption])"
  have ri: "readIndex None True (\<lambda>e s. Inr (replay_entry e s)) (fsIndex f) [] = (errs, ?i (es @ ws), fold replay_entry (es @ ws) [])"
    using readIndex_all [OF iok(1), of True replay_entry "[]" "take n (?i es')"] r
    by (simp add: readIndex_def f(2) errs_def)
  define s' where "s' = snd (reopen env f)"
  have "fst (reopen env f) = errs"
    using ri by (simp add: reopen_def newShard_def shard_replay_def Let_def newWAL_engine_def)
  then have r': "reopen env f = (errs, s')" by (simp add: s'_def prod_eq_iff)
  have s': "swal s' = \<lparr>indexFile = ?i (es @ ws), valueFile = vf, vpos = 0, indexOpen = True, valueOpen = True\<rparr>"
    "sdata s' = fold replay_entry (es @ ws) []" "valueOffset s' = int (length vf)" "\<not> panicked s'" "pending s' = []" "\<not> stopCh s'"
    using ri by (simp_all add: s'_def reopen_def newShard_def shard_replay_def Let_def newWAL_engine_def f(1) pending_def)
  have in': "\<forall>e \<in> set (es @ ws). entry_in vf e" using ok j by (auto dest: in_set_takeD)
  have "opened s' (es @ ws)"
    using replay_mem [OF s'(2)] in' s' len by (simp add: opened_def disk_inv_def)
  moreover have "es' = [] \<longrightarrow> errs = []" by (simp add: errs_def j)
  ultimately show thesis using that [of errs s' j] r' s'(1) j by (simp add: errs_def)
qed

text \<open>Opening the files of \<open>s\<close>, a second time if the first open reports a torn record and refuses.\<close>

definition restart :: "(nat \<Rightarrow> flush_io) \<Rightarrow> shard \<Rightarrow> engine_error list \<times> shard" where
  "restart env s = (case reopen env (files_of s) of ([], s') \<Rightarrow> ([], s') | (_, s') \<Rightarrow> reopen env (files_of s'))"

lemma restart_disk:
  assumes "disk_holds s ws d"
  obtains s' es j where "restart env s = ([], s')" "opened s' es" "d \<le> j" "disk_writes (valueFile (swal s')) es = take j ws"
proof -
  obtain es es' n where e: "\<forall>e \<in> set (es @ es'). entry_in (valueFile (swal s)) e" "length es = d"
    "indexFile (swal s) = concat (map index_bytes es) @ take n (concat (map index_bytes es'))"
    "prefix (disk_writes (valueFile (swal s)) (es @ es')) ws" "length (valueFile (swal s)) < 2 ^ 63"
    using assms by (auto simp: disk_holds_def)
  obtain j errs s1 where r1: "reopen env (files_of s) = (errs, s1)" "errs \<in> {[], [EngCorruption]}" "opened s1 (es @ take j es')"
    "valueFile (swal s1) = valueFile (swal s)"
    by (rule reopen_files [OF e(1,5), of "files_of s" n env]) (simp add: files_of_def, simp add: files_of_def e(3), rule that)
  let ?es = "es @ take j es'"
  have "prefix (disk_writes (valueFile (swal s)) ?es) ws"
    using e(4) by (rule prefix_order.trans [rotated]) (simp add: disk_writes_def take_is_prefix map_mono_prefix)
  then have p: "disk_writes (valueFile (swal s)) ?es = take (length ?es) ws"
    by (metis append_eq_conv_conj length_disk_writes prefixE)
  show thesis
  proof (cases "errs = []")
    case True
    then show thesis using that [of s1 ?es "length ?es"] r1 e(2) p by (simp add: restart_def)
  next
    case False
    have s1: "\<forall>e \<in> set (?es @ []). entry_in (valueFile (swal s)) e" "fsValue (files_of s1) = valueFile (swal s)"
      "fsIndex (files_of s1) = concat (map index_bytes ?es) @ take 0 (concat (map index_bytes []))"
      using r1(3,4) by (simp_all add: files_of_def opened_def disk_inv_def)
    obtain s2 where "reopen env (files_of s1) = ([], s2)" "opened s2 ?es" "valueFile (swal s2) = valueFile (swal s)"
      by (rule reopen_files [OF s1(1) e(5) s1(2,3), of env]) (simp add: that)
    then show thesis using that [of s2 ?es "length ?es"] r1 False e(2) p by (simp add: restart_def split: list.split)
  qed
qed

lemma opened_run_inv: "opened s es \<Longrightarrow> run_inv (disk_writes (valueFile (swal s)) es) (told_ok s) [] s"
  by (auto simp: run_inv_def opened_def live_inv_def callers_def List.map_filter_def disk_inv_def)

text \<open>C23. Durability: whatever the disk does during the flushes of a run and wherever the run
  is cut, the
  shard can be opened again (at the second try if the crash tore an index record) and holds what it
  held before the run and the first \<open>j\<close> writes of the run. Callers were told of success exactly for
  the first \<open>d\<close> writes, and all of these survive. Nothing is missing when no write was waiting.\<close>

theorem acknowledged_writes_survive:
  assumes "opened s0 es0" "shard_run s0 hs s"
  shows "\<exists>s' es d j. restart env s = ([], s') \<and> opened s' es \<and> d \<le> j \<and> j \<le> length hs
    \<and> told_ok s = told_ok s0 @ callers (take d hs)
    \<and> shard_value s' = shard_value s0 ++ last_write (map request_write (take j hs))
    \<and> (\<not> panicked s \<and> pending s = [] \<longrightarrow> j = length hs)"
proof -
  let ?w0 = "disk_writes (valueFile (swal s0)) es0" and ?vf = "valueFile (swal s)"
  have "run_inv ?w0 (told_ok s0) [] s0"
    by (rule opened_run_inv [OF assms(1)])
  from shard_run_inv [OF assms(2) this] obtain d where d: "d \<le> length hs" "told_ok s = told_ok s0 @ callers (take d hs)"
    "if panicked s then disk_holds s (?w0 @ map request_write hs) (length ?w0 + d) else live_inv ?w0 hs d s"
    by (auto simp: run_inv_def)
  have v: "shard_value x = last_write (disk_writes (valueFile (swal x)) es)" if "opened x es" for x es
    using that by (simp add: opened_def mem_inv_def)
  have "disk_holds s (?w0 @ map request_write hs) (length ?w0 + d)"
  proof (cases "panicked s")
    case False
    then obtain es where es: "disk_inv s es" "disk_writes ?vf es = ?w0 @ map request_write (take d hs)"
      using d(3) by (auto simp: live_inv_def)
    have l: "length es = length ?w0 + d" using arg_cong [OF es(2), of length] d(1) by simp
    show ?thesis using disk_inv_holds [OF es(1), of "map request_write (drop d hs)"] es(2) unfolding l
      by (simp flip: map_append)
  qed (use d(3) in simp)
  then obtain s' es i where s': "restart env s = ([], s')" "opened s' es" "length ?w0 + d \<le> i"
    "disk_writes (valueFile (swal s')) es = take i (?w0 @ map request_write hs)" by (rule restart_disk)
  define j where "j = min (length hs) (i - length ?w0)"
  have "take i (?w0 @ map request_write hs) = ?w0 @ map request_write (take j hs)"
    using s'(3) by (simp add: j_def take_map) (metis min.commute take_all take_take order_refl)
  then have "shard_value s' = shard_value s0 ++ last_write (map request_write (take j hs))"
    using v [OF s'(2)] v [OF assms(1)] s'(4) by (simp add: last_write_append)
  moreover have "d \<le> j" "j \<le> length hs" using s'(3) d(1) by (simp_all add: j_def)
  moreover have "j = length hs" if "\<not> panicked s" "pending s = []"
    using that d \<open>d \<le> j\<close> \<open>j \<le> length hs\<close> by (simp add: live_inv_def)
  ultimately show ?thesis using s'(1,2) d(2) by blast
qed

section \<open>Reading\<close>

text \<open>An entry that \<open>readValue\<close> can find: in memory, empty, or at a positive offset.\<close>

definition entry_readable :: "valueEntry \<Rightarrow> bool" where
  "entry_readable ve \<longleftrightarrow> payload ve \<noteq> None \<or> vsize ve = 0 \<or> voffset ve > 0"

definition readable :: "shard \<Rightarrow> bytes \<Rightarrow> bool" where
  "readable s k \<longleftrightarrow> (case map_of (sdata s) k of None \<Rightarrow> True | Some ve \<Rightarrow> entry_readable ve)"

lemma getValue_reads:
  assumes "map_of (sdata s) k = Some ve" "loaded_or_in (valueFile (swal s)) (sdata s)" "entry_readable ve" "valueOpen (swal s)"
  obtains s' where "getValue None t s k ve = (Inr (visible (valueFile (swal s)) ve), s')"
    "valueFile (swal s') = valueFile (swal s)" "indexFile (swal s') = indexFile (swal s)"
    "indexOpen (swal s') = indexOpen (swal s)" "valueOpen (swal s')"
    "s' = s\<lparr>swal := swal s', sdata := AList.update k (ve\<lparr>payload := Some (visible (valueFile (swal s)) ve)\<rparr>) (sdata s)\<rparr>"
proof -
  let ?vf = "valueFile (swal s)"
  have "\<exists>s'. getValue None t s k ve = (Inr (visible ?vf ve), s') \<and> valueFile (swal s') = ?vf \<and> indexFile (swal s') = indexFile (swal s)
    \<and> indexOpen (swal s') = indexOpen (swal s) \<and> valueOpen (swal s')
    \<and> s' = s\<lparr>swal := swal s', sdata := AList.update k (ve\<lparr>payload := Some (visible ?vf ve)\<rparr>) (sdata s)\<rparr>"
  proof (cases "payload ve")
    case (Some p)
    then have "ve\<lparr>payload := Some p\<rparr> = ve" by (cases ve) simp
    with Some show ?thesis using assms(1,4) by (simp add: getValue_def visible_def update_triv)
  next
    case None
    then have l: "nat (voffset ve) + vsize ve \<le> length ?vf" using assms(1,2) by (simp add: loaded_or_in_def)
    show ?thesis
    proof (cases "vsize ve = 0")
      case True
      then show ?thesis using None assms(4) by (simp add: getValue_def visible_def)
    next
      case False
      then have "voffset ve > 0" using assms(3) None by (simp add: entry_readable_def)
      then show ?thesis using None False l assms(4)
        by (simp add: getValue_def visible_def readValue_def file_ReadFull_def Let_def)
    qed
  qed
  then show thesis using that by blast
qed

lemma load_keeps:
  assumes "map_of (sdata s) k = Some ve" "mem_inv s ws" "valueFile (swal s') = valueFile (swal s)"
    "sdata s' = AList.update k (ve\<lparr>payload := Some (visible (valueFile (swal s)) ve)\<rparr>) (sdata s)"
  shows "mem_inv s' ws" "readable s k' \<Longrightarrow> readable s' k'"
proof -
  have "shard_value s' = shard_value s"
    by (rule ext) (simp add: shard_value_def assms update_conv' visible_def)
  then show "mem_inv s' ws"
    using assms(2,3) by (simp add: mem_inv_def assms(4) loaded_or_in_def update_conv')
  show "readable s' k'" if "readable s k'"
    using that by (cases "k' = k") (simp_all add: readable_def assms(4) update_conv' entry_readable_def)
qed

lemma shard_get_reads:
  assumes "mem_inv s ws" "readable s k" "valueOpen (swal s)"
  shows "fst (shard_get None t s k) = Inr (last_write ws k)" "mem_inv (snd (shard_get None t s k)) ws"
    "readable s k' \<Longrightarrow> readable (snd (shard_get None t s k)) k'" "valueOpen (swal (snd (shard_get None t s k)))"
proof -
  have v: "last_write ws k = shard_value s k" and l: "loaded_or_in (valueFile (swal s)) (sdata s)"
    using assms(1) by (simp_all add: mem_inv_def)
  have "fst (shard_get None t s k) = Inr (last_write ws k) \<and> mem_inv (snd (shard_get None t s k)) ws
    \<and> (readable s k' \<longrightarrow> readable (snd (shard_get None t s k)) k') \<and> valueOpen (swal (snd (shard_get None t s k)))"
  proof (cases "map_of (sdata s) k")
    case None
    then show ?thesis using assms v by (simp add: shard_get_def shard_value_def)
  next
    case (Some ve)
    moreover have "entry_readable ve" using Some assms(2) by (simp add: readable_def)
    ultimately obtain s' where s': "getValue None t s k ve = (Inr (visible (valueFile (swal s)) ve), s')"
      "valueFile (swal s') = valueFile (swal s)" "valueOpen (swal s')"
      "s' = s\<lparr>swal := swal s', sdata := AList.update k (ve\<lparr>payload := Some (visible (valueFile (swal s)) ve)\<rparr>) (sdata s)\<rparr>"
      by (rule getValue_reads [OF _ l _ assms(3)])
    have "sdata s' = AList.update k (ve\<lparr>payload := Some (visible (valueFile (swal s)) ve)\<rparr>) (sdata s)"
      by (subst s'(4)) simp
    with load_keeps [OF Some assms(1) s'(2)] s'(1,3) Some assms(2) v show ?thesis
      by (simp add: shard_get_def shard_value_def)
  qed
  then show "fst (shard_get None t s k) = Inr (last_write ws k)" "mem_inv (snd (shard_get None t s k)) ws"
    "readable s k' \<Longrightarrow> readable (snd (shard_get None t s k)) k'" "valueOpen (swal (snd (shard_get None t s k)))" by blast+
qed

text \<open>C28. \<open>readValue\<close> moves the file handle only for a positive offset. On a freshly opened shard the
  value of \<open>a\<close>, stored at offset 0, can be read. Once the value of \<open>b\<close> further on has been read, the read of
  \<open>a\<close> starts behind \<open>b\<close>: when some bytes follow \<open>b\<close> in the file, but fewer than \<open>a\<close> has, it fails
  and the file with all values is truncated to nothing.\<close>

theorem offset_zero_read_destroys_values:
  assumes "opened s es" "vpos (swal s) = 0" "a \<noteq> b"
    "map_of (sdata s) a = Some va" "payload va = None" "voffset va = 0" "vsize va \<noteq> 0"
    "map_of (sdata s) b = Some vb" "payload vb = None" "voffset vb > 0" "vsize vb \<noteq> 0"
    "nat (voffset vb) + vsize vb < length (valueFile (swal s))"
    "length (valueFile (swal s)) < nat (voffset vb) + vsize vb + vsize va"
  shows "fst (shard_get None True s a) = Inr (shard_value s a)
    \<and> (case shard_get None True s b of (r, s') \<Rightarrow> r = Inr (shard_value s b)
       \<and> fst (shard_get None True s' a) = Inl [EngCorruption] \<and> valueFile (swal (snd (shard_get None True s' a))) = [])"
proof -
  let ?vf = "valueFile (swal s)"
  have o: "valueOpen (swal s)" and l: "loaded_or_in ?vf (sdata s)"
    using assms(1) by (simp_all add: opened_def disk_inv_def mem_inv_def)
  have "vsize va \<le> length ?vf" using l assms(4,5) by (fastforce simp: loaded_or_in_def)
  then have "fst (shard_get None True s a) = Inr (shard_value s a)"
    using assms(2,4-7) o by (auto simp: shard_get_def getValue_def readValue_def file_ReadFull_def shard_value_def visible_def)
  moreover define w where "w = (swal s)\<lparr>vpos := nat (voffset vb) + vsize vb\<rparr>"
  have "shard_get None True s b = (Inr (shard_value s b), s\<lparr>swal := w, sdata := AList.update b (vb\<lparr>payload := Some (visible ?vf vb)\<rparr>) (sdata s)\<rparr>)"
    using assms(8-12) o by (simp add: shard_get_def getValue_def readValue_def file_ReadFull_def shard_value_def visible_def Let_def w_def)
  moreover have "readValue None True w 0 (int (vsize va)) = (Inl [EngCorruption], w\<lparr>valueFile := [], vpos := length ?vf\<rparr>)"
    using assms(7,12,13) o by (simp add: readValue_def file_ReadFull_def w_def)
  ultimately show ?thesis
    using assms(3-7) by (simp add: shard_get_def getValue_def update_conv')
qed

section \<open>Compaction\<close>

lemma map_of_rev: "distinct (map fst d) \<Longrightarrow> map_of (rev d) = map_of d"
  by (subst map_of_inject_set) (simp_all flip: rev_map)

definition index_of :: "bytes \<times> valueEntry \<Rightarrow> indexEntry" where
  "index_of kv = \<lparr>ieKey = fst kv, ieValueSize = vsize (snd kv), ieValueOffset = voffset (snd kv)\<rparr>"

lemma shard_snapshot_eq: "shard_snapshot s = concat (map index_bytes (map index_of (sdata s)))"
proof -
  have "snapshot_loop d (q @ z) (length q) = (q @ concat (map index_bytes (map index_of d)), length (q @ concat (map index_bytes (map index_of d))))"
    if "length z = (\<Sum>k\<leftarrow>map fst d. walIndexLen (length k))" for d q z
    using that
  proof (induction d arbitrary: q z)
    case (Cons kv d)
    obtain k v where kv: "kv = (k, v)" by (cases kv)
    have z: "length z = 16 + length k + (\<Sum>k\<leftarrow>map fst d. walIndexLen (length k))"
      using Cons.prems kv by (simp add: walIndexLen_def walIndexHeaderBytes_def)
    show ?case
      using Cons.IH [of "drop (16 + length k) z" "q @ index_bytes (index_of kv)"] encodeInto_eq [OF z] z kv
      by (simp add: index_of_def)
  qed simp
  from this [of "make_bytes (\<Sum>k\<leftarrow>map fst (sdata s). walIndexLen (length k))" "sdata s" "[]"] show ?thesis
    by (simp add: shard_snapshot_def Let_def)
qed

definition good_compact :: compact_io where
  "good_compact = \<lparr>cSnapshot = True, cClose = True, cRename = True, cReopen = True\<rparr>"

text \<open>A compaction writes one index record per key, with the size and the offset held in memory; after
  a restart each key is bound to that stretch of the value file.\<close>

lemma compact_restart:
  assumes "disk_inv s es" "distinct (map fst (sdata s))" "\<forall>kv \<in> set (sdata s). entry_in (valueFile (swal s)) (index_of kv)"
    "sdata s \<noteq> []"
  shows "\<exists>s' es'. doCompact good_compact s = ([], s\<lparr>swal := (swal s)\<lparr>indexFile := shard_snapshot s\<rparr>, indexBytesOnDisk := int (length (shard_snapshot s))\<rparr>)
    \<and> restart env (snd (doCompact good_compact s)) = ([], s') \<and> opened s' es'
    \<and> shard_value s' = (\<lambda>k. map_option (\<lambda>ve. visible (valueFile (swal s)) (ve\<lparr>payload := None\<rparr>)) (map_of (sdata s) k))"
proof -
  let ?d = "map index_of (sdata s)" and ?vf = "valueFile (swal s)"
  let ?s = "s\<lparr>swal := (swal s)\<lparr>indexFile := shard_snapshot s\<rparr>, indexBytesOnDisk := int (length (shard_snapshot s))\<rparr>"
  have "shard_snapshot s \<noteq> []" using assms(4) by (cases "sdata s") (auto simp: shard_snapshot_eq index_bytes_def)
  moreover have "indexOpen (swal s)" using assms(1) by (simp add: disk_inv_def)
  ultimately have c: "doCompact good_compact s = ([], ?s)"
    by (simp add: doCompact_def Let_def good_compact_def reopenIndexFile_def)
  have "disk_holds ?s (disk_writes ?vf ?d) (length ?d)"
    using assms(1,3) unfolding disk_holds_def
    by (intro conjI exI [of _ ?d] exI [of _ "[]"] exI [of _ 0]) (auto simp: disk_inv_def shard_snapshot_eq)
  then obtain s' es' j where s': "restart env ?s = ([], s')" "opened s' es'" "length ?d \<le> j"
    "disk_writes (valueFile (swal s')) es' = take j (disk_writes ?vf ?d)" by (rule restart_disk)
  have "last_write (disk_writes ?vf ?d) k = map_option (\<lambda>ve. visible ?vf (ve\<lparr>payload := None\<rparr>)) (map_of (sdata s) k)" for k
  proof -
    let ?f = "\<lambda>ve. visible ?vf (ve\<lparr>payload := None\<rparr>)"
    have "disk_writes ?vf ?d = map (\<lambda>(k, ve). (k, ?f ve)) (sdata s)"
      by (simp add: disk_writes_def entry_value_def index_of_def visible_def case_prod_beta comp_def)
    then show ?thesis using map_of_rev [OF assms(2)] by (simp add: last_write_def rev_map map_of_map)
  qed
  moreover have "shard_value s' = last_write (disk_writes ?vf ?d)"
    using s'(2-4) by (simp add: opened_def mem_inv_def)
  ultimately show ?thesis using c s'(1,2) by auto
qed

text \<open>What asynchronous writes leave: the map as it is updated by each write at once, and a value file
  that, with the values still to be flushed, is \<open>V\<close>.\<close>

definition stored :: "writeRequest \<Rightarrow> (bytes \<times> valueEntry) list \<Rightarrow> (bytes \<times> valueEntry) list" where
  "stored r = AList.update (wrKey r) \<lparr>payload = Some (wrValue r), vsize = length (wrValue r), voffset = 0\<rparr>"

definition async_inv :: "bytes \<Rightarrow> (bytes \<times> valueEntry) list \<Rightarrow> shard \<Rightarrow> bool" where
  "async_inv V d s \<longleftrightarrow> sdata s = d \<and> indexOpen (swal s) \<and> valueOpen (swal s) \<and> (\<forall>r \<in> set (pending s). wrResp r = None)
     \<and> (\<not> panicked s \<longrightarrow> valueFile (swal s) @ concat (map wrValue (pending s)) = V)"

lemma async_inv_flush:
  assumes "async_inv V d s" "\<not> panicked s"
  shows "async_inv V d (let s' = flush s (cbuf s) in if panicked s' then s' else s'\<lparr>cbuf := []\<rparr>)"
proof -
  have o: "indexOpen (swal s)" "valueOpen (swal s)" and a: "\<forall>r \<in> set (cbuf s). wrResp r = None" and d: "sdata s = d"
    using assms(1) by (simp_all add: async_inv_def pending_def)
  note f = flush_files [OF o refl, of "cbuf s"]
  have "valueFile (swal (flush s (cbuf s))) = valueFile (swal s) @ concat (map wrValue (cbuf s))" if "\<not> panicked (flush s (cbuf s))"
    using that f(1,2) by (simp add: file_append_def)
  then show ?thesis
    using assms f(1,4-6) o d sync_data_async [OF a] by (auto simp: async_inv_def pending_def Let_def)
qed

lemma async_inv_append:
  assumes "async_inv V d (s\<lparr>reqCh := r # rs\<rparr>)"
  shows "async_inv V d (appendToBatch r (s\<lparr>reqCh := rs\<rparr>))"
proof (cases "panicked s")
  case False
  let ?s = "s\<lparr>reqCh := rs, cbuf := cbuf s @ [r]\<rparr>"
  have "async_inv V d ?s" using assms by (simp add: async_inv_def pending_def)
  then show ?thesis using async_inv_flush [of V d ?s] False by (simp add: appendToBatch_def Let_def)
qed (use assms in \<open>simp add: async_inv_def appendToBatch_def pending_def\<close>)

lemma async_inv_flushBuffered: "async_inv V d s \<Longrightarrow> async_inv V d (flushBuffered s)"
  using async_inv_flush by (simp add: flushBuffered_def)

lemma async_inv_drain: "async_inv V d s \<Longrightarrow> async_inv V d (drainReqCh s)"
proof -
  have "async_inv V d (s\<lparr>reqCh := rs\<rparr>) \<Longrightarrow> async_inv V d (fold appendToBatch rs (s\<lparr>reqCh := []\<rparr>))" for s rs
  proof (induction rs arbitrary: s)
    case (Cons r rs)
    from async_inv_append [OF Cons.prems] have "async_inv V d (appendToBatch r (s\<lparr>reqCh := rs\<rparr>))" by simp
    then show ?case using Cons.IH [of "appendToBatch r s"] by (simp add: appendToBatch_reqCh)
  qed simp
  from this [of "reqCh s" s] show "async_inv V d s \<Longrightarrow> async_inv V d (drainReqCh s)"
    by (simp add: drainReqCh_def async_inv_flushBuffered)
qed

lemma async_inv_run:
  assumes "shard_run s0 hs s" "async_inv V d s0" "\<forall>r \<in> set hs. wrResp r = None"
  shows "async_inv (V @ concat (map wrValue hs)) (fold stored hs d) s"
  using assms(1,3)
proof induction
  case (async hs s k v)
  then show ?case by (simp add: async_inv_def putAsync_def putInternal_def Let_def pending_def stored_def)
next
  case (commit hs s ev)
  let ?V = "V @ concat (map wrValue hs)" and ?d = "fold stored hs d"
  have i: "async_inv ?V ?d s" using commit by blast
  then have "async_inv ?V ?d (s\<lparr>stopCh := True\<rparr>)" by (simp add: async_inv_def pending_def)
  moreover have "async_inv ?V ?d (appendToBatch r (s\<lparr>reqCh := rs\<rparr>))" if "reqCh s = r # rs" for r rs
  proof (rule async_inv_append)
    have "s\<lparr>reqCh := r # rs\<rparr> = s" using that by simp
    then show "async_inv ?V ?d (s\<lparr>reqCh := r # rs\<rparr>)" using i by (simp only:)
  qed
  ultimately show ?case
    using i commit.hyps(2) async_inv_flushBuffered async_inv_drain
    by (auto simp: committer_step_def split: list.split)
qed (use assms(2) in simp_all)

lemma stored_data:
  "map_of (fold stored hs d) k = (case last_write (map request_write hs) k of
      None \<Rightarrow> map_of d k | Some v \<Rightarrow> Some \<lparr>payload = Some v, vsize = length v, voffset = 0\<rparr>)"
  by (induction hs rule: rev_induct) (auto simp: stored_def update_conv' last_write_def request_write_def)

lemma distinct_stored: "distinct (map fst d) \<Longrightarrow> distinct (map fst (fold stored hs d))"
  by (induction hs arbitrary: d) (simp_all add: stored_def distinct_update)

lemma replayed_data:
  "distinct (map fst (fold replay_entry es []))"
  "map_of (fold replay_entry es []) k = Some ve \<Longrightarrow>
     \<exists>e \<in> set es. ve = \<lparr>payload = None, vsize = ieValueSize e, voffset = ieValueOffset e\<rparr> \<and> ieKey e = k"
  by (induction es rule: rev_induct) (auto simp: replay_entry_def distinct_update update_conv' split: if_split_asm)

lemma stored_in:
  assumes "\<forall>e \<in> set es. entry_in vf e" "disk_writes vf es = ws @ map request_write hs" "last_write (map request_write hs) k = Some v"
  shows "entry_in vf \<lparr>ieKey = k, ieValueSize = length v, ieValueOffset = 0\<rparr>"
proof -
  have "(k, v) \<in> set (map request_write hs)" using map_of_SomeD [OF assms(3) [unfolded last_write_def]] by simp
  then have "(k, v) \<in> set (disk_writes vf es)" using assms(2) by simp
  then obtain e where e: "e \<in> set es" "ieKey e = k" "entry_value vf e = v" by (auto simp: disk_writes_def)
  moreover have "entry_in vf e" using assms(1) e(1) by blast
  ultimately show ?thesis by (auto simp: entry_in_def index_ok_def entry_value_def)
qed

lemma compacted_value:
  assumes "sdata s0 = fold replay_entry es0 []" "\<forall>e \<in> set es0. entry_in (valueFile (swal s0)) e"
  shows "map_option (\<lambda>ve. visible (valueFile (swal s0) @ x) (ve\<lparr>payload := None\<rparr>)) (map_of (fold stored hs (sdata s0)) k) =
    (case last_write (map request_write hs) k of
       None \<Rightarrow> shard_value s0 k | Some v \<Rightarrow> Some (take (length v) (valueFile (swal s0) @ x)))"
proof -
  have "visible (valueFile (swal s0) @ x) (ve\<lparr>payload := None\<rparr>) = visible (valueFile (swal s0)) ve" if ve: "map_of (sdata s0) k = Some ve" for ve
  proof -
    obtain e where e: "e \<in> set es0" "ve = \<lparr>payload = None, vsize = ieValueSize e, voffset = ieValueOffset e\<rparr>"
      using replayed_data(2) ve assms(1) by metis
    then have "entry_in (valueFile (swal s0)) e" using assms(2) by blast
    then show ?thesis using visible_append [of ve "valueFile (swal s0)" x] e(2) by (simp add: entry_in_def)
  qed
  then show ?thesis
    by (cases "last_write (map request_write hs) k"; cases "map_of (sdata s0) k")
      (simp_all add: stored_data shard_value_def, simp_all add: visible_def)
qed

lemma stored_not_Nil: "hs \<noteq> [] \<Longrightarrow> fold stored hs d \<noteq> []"
proof -
  have "AList.update k v d \<noteq> []" for k v and d :: "(bytes \<times> valueEntry) list" by (cases d) auto
  then show "hs \<noteq> [] \<Longrightarrow> fold stored hs d \<noteq> []" by (cases hs rule: rev_cases) (simp_all add: stored_def)
qed

lemma stored_entries_in:
  assumes "sdata s0 = fold replay_entry es0 []" "\<forall>e \<in> set es0. entry_in vf e"
    and "\<forall>e \<in> set es. entry_in (vf @ x) e" "disk_writes (vf @ x) es = ws @ map request_write hs"
  shows "\<forall>kv \<in> set (fold stored hs (sdata s0)). entry_in (vf @ x) (index_of kv)"
proof
  fix kv assume kv': "kv \<in> set (fold stored hs (sdata s0))"
  obtain k ve where kv: "kv = (k, ve)" by (cases kv)
  have "distinct (map fst (fold stored hs (sdata s0)))" using distinct_stored replayed_data(1) assms(1) by metis
  then have ve: "map_of (fold stored hs (sdata s0)) k = Some ve" using kv kv' by simp
  show "entry_in (vf @ x) (index_of kv)"
  proof (cases "last_write (map request_write hs) k")
    case None
    then obtain e where "e \<in> set es0" "ve = \<lparr>payload = None, vsize = ieValueSize e, voffset = ieValueOffset e\<rparr>" "ieKey e = k"
      using ve replayed_data(2) [of es0 k ve] assms(1) by (auto simp: stored_data)
    then have "index_of kv = e" "e \<in> set es0" by (simp_all add: kv index_of_def)
    then show ?thesis using assms(2) entry_in_append by blast
  next
    case (Some v)
    then have "index_of kv = \<lparr>ieKey = k, ieValueSize = length v, ieValueOffset = 0\<rparr>" using ve by (auto simp: stored_data kv index_of_def)
    then show ?thesis using stored_in [OF assms(3,4) Some] by simp
  qed
qed

text \<open>C27. Compaction loses values. Take a shard as it is after an open, with any asynchronous writes and flushes
  since then, and let its committer compact: it flushes what is left and rewrites the index from
  memory, where a key written since the open has offset 0. The shard held the last value written to
  each key; after the next restart a key that was not written still has its value, but each key that was written
  holds the first bytes of the value file instead, as many as its value has. The value
  file is the one at the open followed by all values written. Nothing fails on the way.\<close>

theorem compaction_then_restart:
  assumes "opened s0 es0" "sdata s0 = fold replay_entry es0 []" "shard_run s0 hs s" "hs \<noteq> []" "\<forall>r \<in> set hs. wrResp r = None"
    and "\<not> panicked (committer_step (CeCompact good_compact) s)"
  shows "shard_value s = shard_value s0 ++ last_write (map request_write hs)
    \<and> (\<exists>s' es'. restart env (committer_step (CeCompact good_compact) s) = ([], s') \<and> opened s' es'
      \<and> (\<forall>k. shard_value s' k = (case last_write (map request_write hs) k of
          None \<Rightarrow> shard_value s0 k
        | Some v \<Rightarrow> Some (take (length v) (valueFile (swal s0) @ concat (map wrValue hs))))))"
proof -
  let ?t = "drainReqCh s" and ?w0 = "disk_writes (valueFile (swal s0)) es0" and ?d = "fold stored hs (sdata s0)"
  let ?V = "valueFile (swal s0) @ concat (map wrValue hs)"
  have o: "\<forall>e \<in> set es0. entry_in (valueFile (swal s0)) e" "shard_value s0 = last_write ?w0" "async_inv (valueFile (swal s0)) (sdata s0) s0"
    using assms(1) by (auto simp: opened_def disk_inv_def mem_inv_def async_inv_def)
  have np: "\<not> panicked s" "\<not> panicked ?t" and st: "committer_step (CeCompact good_compact) s = snd (doCompact good_compact ?t)"
    using assms(6) by (auto simp: committer_step_def Let_def split: if_split_asm)
  have inv: "run_inv ?w0 (told_ok s0) hs s" using shard_run_inv [OF assms(3) opened_run_inv [OF assms(1)]] .
  then have before: "shard_value s = shard_value s0 ++ last_write (map request_write hs)"
    using np(1) assms(5) o(2) by (auto simp: run_inv_def live_inv_def mem_inv_def last_write_append)
  have pend: "pending ?t = []" using np(2) by (rule drain_pending)
  then have t: "valueFile (swal ?t) = ?V" "sdata ?t = ?d"
    using async_inv_drain [OF async_inv_run [OF assms(3) o(3) assms(5)]] np(2) by (simp_all add: async_inv_def)
  obtain es where es: "disk_inv ?t es" "disk_writes ?V es = ?w0 @ map request_write hs"
    using run_inv_drain [OF inv] np(2) pend t(1) assms(5) by (auto simp: run_inv_def live_inv_def)
  have dist: "distinct (map fst ?d)" using distinct_stored replayed_data(1) assms(2) by metis
  have "\<forall>kv \<in> set ?d. entry_in ?V (index_of kv)"
    using stored_entries_in [OF assms(2) o(1) _ es(2)] es(1) t(1) by (simp add: disk_inv_def)
  then obtain s' es' where "restart env (snd (doCompact good_compact ?t)) = ([], s')" "opened s' es'"
    "shard_value s' = (\<lambda>k. map_option (\<lambda>ve. visible ?V (ve\<lparr>payload := None\<rparr>)) (map_of ?d k))"
    using compact_restart [OF es(1), of env] t dist stored_not_Nil [OF assms(4)] by auto
  with before st compacted_value [OF assms(2) o(1)] show ?thesis by auto
qed

section \<open>Cleanup\<close>

definition good_clean :: clean_io where
  "good_clean = \<lparr>clOpen = True, clWrite = [], clSync = True, clClose = True, clRenameIndex = True, clRenameValue = True, clReopen = True\<rparr>"

fun fresh_entries :: "int \<Rightarrow> (bytes \<times> bytes) list \<Rightarrow> indexEntry list" where
  "fresh_entries off [] = []"
| "fresh_entries off ((k, v) # kvs) = \<lparr>ieKey = k, ieValueSize = length v, ieValueOffset = off\<rparr> # fresh_entries (off + int (length v)) kvs"

text \<open>What the loop of \<open>writeCleanupData\<close> has written and buffered after the bindings \<open>kvs\<close>.\<close>

definition cleaned :: "(bytes \<times> bytes) list \<Rightarrow> cleaning \<Rightarrow> bool" where
  "cleaned kvs c \<longleftrightarrow> clIndexFile c @ clIndexBuf c = concat (map index_bytes (fresh_entries 0 kvs))
     \<and> clValueFile c @ clValueBuf c = concat (map snd kvs) \<and> clOffset c = int (length (concat (map snd kvs)))
     \<and> length (clIndexBuf c) \<le> cleanupBufferSize \<and> clWrites c = []"

lemma fresh_entries_append:
  "fresh_entries off (kvs @ kvs') = fresh_entries off kvs @ fresh_entries (off + int (length (concat (map snd kvs)))) kvs'"
  by (induction kvs arbitrary: off) (auto simp: add.assoc)

lemma cleanup_writes:
  assumes "clWrites c = []"
  shows "write_values c = Inr (c\<lparr>clValueFile := clValueFile c @ clValueBuf c, clValueBuf := []\<rparr>)"
    "write_indices c = Inr (c\<lparr>clIndexFile := clIndexFile c @ clIndexBuf c, clIndexBuf := []\<rparr>)"
  using assms by (simp_all add: write_values_def write_indices_def file_append_def)

lemma clean_round:
  assumes "cleaned kvs c" "length k + 16 \<le> cleanupBufferSize"
  shows "\<exists>c'. and_then (clean_value v c) (clean_index k v) = Inr c' \<and> cleaned (kvs @ [(k, v)]) c'"
proof -
  let ?e = "\<lparr>ieKey = k, ieValueSize = length v, ieValueOffset = clOffset c\<rparr>"
  let ?d = "c\<lparr>clValueBuf := clValueBuf c @ v\<rparr>"
  define c1 where "c1 = (if length v > 0 \<and> length (clValueBuf ?d) \<ge> cleanupFlushThreshold
    then ?d\<lparr>clValueFile := clValueFile ?d @ clValueBuf ?d, clValueBuf := []\<rparr> else ?d)"
  have c1: "clean_value v c = Inr c1" "clIndexFile c1 = clIndexFile c" "clIndexBuf c1 = clIndexBuf c" "clOffset c1 = clOffset c"
    "clValueFile c1 @ clValueBuf c1 = clValueFile c @ clValueBuf c @ v" "clWrites c1 = []"
    using assms(1) cleanup_writes(1) [of ?d] by (auto simp: c1_def clean_value_def cleaned_def Let_def)
  have e: "encodeInto (make_bytes (walIndexLen (length k))) k (length v) (clOffset c) = (index_bytes ?e, 16 + length k)"
    using encodeInto_eq [of "make_bytes (walIndexLen (length k))" k 0 "length v" "clOffset c"]
    by (simp add: walIndexLen_def walIndexHeaderBytes_def)
  show ?thesis
    using assms e c1(2-6)
    by (auto simp: c1(1) clean_index_def Let_def cleaned_def fresh_entries_append walIndexLen_def walIndexHeaderBytes_def cleanup_writes)
qed

lemma writeCleanupData_writes:
  assumes "cleaned kvs c" "mem_inv s ws" "valueOpen (swal s)" "distinct (map fst d)"
    "\<forall>(k, ve) \<in> set d. map_of (sdata s) k = Some ve \<and> entry_readable ve \<and> length k + 16 \<le> cleanupBufferSize"
  shows "\<exists>c' s'. writeCleanupData None t d c s = (Inr c', s') \<and> clIndexBuf c' = [] \<and> clValueBuf c' = []
    \<and> cleaned (kvs @ map (\<lambda>(k, ve). (k, visible (valueFile (swal s)) ve)) d) c' \<and> mem_inv s' ws
    \<and> tmp_index s' = tmp_index s \<and> tmp_value s' = tmp_value s \<and> panicked s' = panicked s \<and> pending s' = pending s"
  using assms
proof (induction d arbitrary: kvs c s)
  case Nil
  then show ?case by (auto simp: cleaned_def cleanup_writes)
next
  case (Cons kv d)
  obtain k ve where kv: "kv = (k, ve)" by (cases kv)
  let ?vf = "valueFile (swal s)" and ?v = "visible (valueFile (swal s)) ve"
  have k: "map_of (sdata s) k = Some ve" "entry_readable ve" "length k + 16 \<le> cleanupBufferSize" using Cons.prems(5) kv by auto
  have l: "loaded_or_in ?vf (sdata s)" using Cons.prems(2) by (simp add: mem_inv_def)
  obtain s1 where s1: "getValue None t s k ve = (Inr ?v, s1)" "valueFile (swal s1) = ?vf" "valueOpen (swal s1)"
    "s1 = s\<lparr>swal := swal s1, sdata := AList.update k (ve\<lparr>payload := Some ?v\<rparr>) (sdata s)\<rparr>"
    by (rule getValue_reads [OF k(1) l k(2) Cons.prems(3), of t])
  have f1: "sdata s1 = AList.update k (ve\<lparr>payload := Some ?v\<rparr>) (sdata s)" "tmp_index s1 = tmp_index s"
    "tmp_value s1 = tmp_value s" "panicked s1 = panicked s" "pending s1 = pending s"
    by (subst s1(4), simp add: pending_def)+
  obtain c1 where c1: "and_then (clean_value ?v c) (clean_index k ?v) = Inr c1" "cleaned (kvs @ [(k, ?v)]) c1"
    using clean_round [OF Cons.prems(1) k(3)] by blast
  have "\<forall>(k', ve') \<in> set d. map_of (sdata s1) k' = Some ve' \<and> entry_readable ve' \<and> length k' + 16 \<le> cleanupBufferSize"
  proof (clarify, goal_cases)
    case (1 k' ve')
    then have "k' \<noteq> k" using Cons.prems(4) kv by force
    moreover have "map_of (sdata s) k' = Some ve' \<and> entry_readable ve' \<and> length k' + 16 \<le> cleanupBufferSize"
      using Cons.prems(5) 1 by auto
    ultimately show ?case by (simp add: f1(1) update_conv')
  qed
  with Cons.IH [OF c1(2) load_keeps(1) [OF k(1) Cons.prems(2) s1(2) f1(1)] s1(3)] Cons.prems(4) show ?case
    by (simp add: kv s1(1,2) c1(1) f1(2-5))
qed

lemma fresh_entries_in:
  assumes "\<forall>(k, v) \<in> set kvs. length k + 16 < 2 ^ 32 \<and> length v < 2 ^ 32" "length (vf @ concat (map snd kvs)) < 2 ^ 63"
  shows "(\<forall>e \<in> set (fresh_entries (int (length vf)) kvs). entry_in (vf @ concat (map snd kvs)) e)
    \<and> disk_writes (vf @ concat (map snd kvs)) (fresh_entries (int (length vf)) kvs) = kvs"
  using assms
proof (induction kvs arbitrary: vf)
  case (Cons kv kvs)
  obtain k v where kv: "kv = (k, v)" by (cases kv)
  have "(\<forall>e \<in> set (fresh_entries (int (length (vf @ v))) kvs). entry_in ((vf @ v) @ concat (map snd kvs)) e)
    \<and> disk_writes ((vf @ v) @ concat (map snd kvs)) (fresh_entries (int (length (vf @ v))) kvs) = kvs"
    using Cons.IH [of "vf @ v"] Cons.prems kv by simp
  then show ?case using Cons.prems kv
    by (auto simp: entry_in_def index_ok_def disk_writes_def entry_value_def)
qed simp


section \<open>Sample shards\<close>

definition no_files :: shard_files where
  "no_files = \<lparr>fsIndex = [], fsValue = [], fsTmpIndex = [], fsTmpValue = []\<rparr>"

definition fresh_shard :: shard where
  "fresh_shard = snd (reopen (\<lambda>_. good_flush) no_files)"

lemma fresh_shard_eq:
  "fresh_shard = \<lparr>sdata = [], swal = newWAL_engine [] [], tmp_index = [], tmp_value = [],
     reqCh = [], cbuf = [], walIndexBuf = [], walValueBuf = [], stopCh = False, keyBytesInRAM = 0, numKeys = 0,
     indexBytesOnDisk = 0, valueOffset = 0, lastCompacted = None, acks = [], panicked = False,
     flush_env = (\<lambda>_. good_flush), flush_no = 0\<rparr>"
  by (simp add: fresh_shard_def reopen_def newShard_def no_files_def shard_replay_def readIndex_def readIndex_end newWAL_engine_def)

lemma fresh_shard_opened: "opened fresh_shard []"
  by (simp add: opened_def disk_inv_def mem_inv_def fresh_shard_eq newWAL_engine_def pending_def loaded_or_in_def
      shard_value_def [abs_def] last_write_def)

lemma fresh_fits: "length k + 16 < 2 ^ 32 \<Longrightarrow> length v < 2 ^ 32 \<Longrightarrow> fits fresh_shard k v"
  by (simp add: fits_def fresh_shard_eq newWAL_engine_def pending_def)

text \<open>A shard opened on files with three values, the first at offset 0.\<close>

definition three_entries :: "indexEntry list" where
  "three_entries = [\<lparr>ieKey = [97], ieValueSize = 3, ieValueOffset = 0\<rparr>, \<lparr>ieKey = [98], ieValueSize = 1, ieValueOffset = 3\<rparr>,
     \<lparr>ieKey = [99], ieValueSize = 1, ieValueOffset = 4\<rparr>]"

definition three_shard :: shard where
  "three_shard = fresh_shard\<lparr>swal := newWAL_engine (concat (map index_bytes three_entries)) [1, 2, 3, 4, 5],
     valueOffset := 5, sdata := fold replay_entry three_entries []\<rparr>"

lemma three_shard_opened: "opened three_shard three_entries"
proof -
  have e: "\<forall>e \<in> set three_entries. entry_in (valueFile (swal three_shard)) e"
    by (simp add: three_entries_def entry_in_def index_ok_def three_shard_def newWAL_engine_def)
  then have "mem_inv three_shard (disk_writes (valueFile (swal three_shard)) three_entries)"
    by (intro replay_mem) (simp_all add: three_shard_def)
  with e show ?thesis
    by (simp add: opened_def disk_inv_def) (simp add: three_shard_def fresh_shard_eq newWAL_engine_def pending_def)
qed

text \<open>A shard after two asynchronous writes have reached the disk.\<close>

definition two_puts :: shard where
  "two_puts = fresh_shard\<lparr>sdata := [([97], \<lparr>payload = Some [1], vsize = 1, voffset = 0\<rparr>), ([98], \<lparr>payload = Some [2], vsize = 1, voffset = 0\<rparr>)],
     cbuf := [\<lparr>wrKey = [97], wrValue = [1], wrResp = None\<rparr>, \<lparr>wrKey = [98], wrValue = [2], wrResp = None\<rparr>]\<rparr>"

definition two_shard :: shard where
  "two_shard = (flush two_puts (cbuf two_puts))\<lparr>cbuf := []\<rparr>"

lemma two_shard_facts:
  "disk_inv two_shard (batch_entries 0 (cbuf two_puts))" "mem_inv two_shard [([97], [1]), ([98], [2])]"
  "sdata two_shard = sdata two_puts" "valueFile (swal two_shard) = [1, 2]" "pending two_shard = []"
  "tmp_index two_shard = []" "tmp_value two_shard = []"
proof -
  have o: "indexOpen (swal two_puts)" "valueOpen (swal two_puts)" "flush_env two_puts (flush_no two_puts) = good_flush"
    by (simp_all add: two_puts_def fresh_shard_eq newWAL_engine_def)
  note f = flush_files [OF o(1,2) refl, of "cbuf two_puts", unfolded o(3)]
  have np: "\<not> panicked (flush two_puts (cbuf two_puts))" using f(2) by (simp add: good_flush_def two_puts_def fresh_shard_eq)
  have di: "disk_inv two_puts []"
    by (simp add: disk_inv_def two_puts_def fresh_shard_eq newWAL_engine_def pending_def request_ok_def)
  have mi: "mem_inv two_puts [([97], [1]), ([98], [2])]"
    by (simp add: mem_inv_def loaded_or_in_def two_puts_def shard_value_def [abs_def] visible_def last_write_def fun_eq_iff)
  note w = flush_works [OF di refl np, folded two_shard_def]
  have off: "valueOffset two_puts = 0" by (simp add: two_puts_def fresh_shard_eq)
  show "disk_inv two_shard (batch_entries 0 (cbuf two_puts))" using w(1) off by simp
  show "mem_inv two_shard [([97], [1]), ([98], [2])]" by (rule w(5) [OF _ mi]) (simp add: two_puts_def)
  show "sdata two_shard = sdata two_puts" using f(4) by (simp add: two_shard_def) (simp add: two_puts_def sync_data_def)
  show "valueFile (swal two_shard) = [1, 2]"
    using f(1) by (simp add: two_shard_def) (simp add: two_puts_def good_flush_def file_append_def fresh_shard_eq newWAL_engine_def)
  show "pending two_shard = []" using w(3) by (simp add: two_puts_def fresh_shard_eq)
  show "tmp_index two_shard = []" "tmp_value two_shard = []"
    by (simp_all add: two_shard_def two_puts_def fresh_shard_eq flush_def Let_def good_flush_def writeValue_def writeIndex_def
        newWAL_engine_def file_append_def apply_sync_def reuse_buf_def split: prod.split)
qed

theorem acknowledged_writes_survive_witness:
  "\<exists>s' es d j. restart (\<lambda>_. good_flush) (committer_step CeTick (committer_step CeReq (snd (shard_put False False fresh_shard [97] [1, 2] 7)))) = ([], s')
    \<and> opened s' es \<and> d \<le> j \<and> j \<le> 1
    \<and> told_ok (committer_step CeTick (committer_step CeReq (snd (shard_put False False fresh_shard [97] [1, 2] 7))))
      = told_ok fresh_shard @ callers (take d [\<lparr>wrKey = [97], wrValue = [1, 2], wrResp = Some 7\<rparr>])
    \<and> shard_value s' = shard_value fresh_shard ++ last_write (map request_write (take j [\<lparr>wrKey = [97], wrValue = [1, 2], wrResp = Some 7\<rparr>]))"
proof -
  let ?r = "\<lparr>wrKey = [97], wrValue = [1, 2], wrResp = Some 7\<rparr> :: writeRequest"
  have "shard_put False False fresh_shard [97] [1, 2] 7 = (None, snd (shard_put False False fresh_shard [97] [1, 2] 7))"
    by (simp add: shard_put_def)
  from shard_run.put [OF shard_run.start _ this] have "shard_run fresh_shard [?r] (snd (shard_put False False fresh_shard [97] [1, 2] 7))"
    by (simp add: fresh_fits)
  then have "shard_run fresh_shard [?r] (committer_step CeTick (committer_step CeReq (snd (shard_put False False fresh_shard [97] [1, 2] 7))))"
    by (intro shard_run.commit) simp_all
  from acknowledged_writes_survive [OF fresh_shard_opened this, of "\<lambda>_. good_flush"] show ?thesis
    by (metis (no_types, lifting) One_nat_def length_Cons list.size(3))
qed

theorem offset_zero_read_destroys_values_witness:
  "fst (shard_get None True three_shard [97]) = Inr (Some [1, 2, 3])
    \<and> (case shard_get None True three_shard [98] of (r, s') \<Rightarrow> r = Inr (Some [4])
       \<and> fst (shard_get None True s' [97]) = Inl [EngCorruption] \<and> valueFile (swal (snd (shard_get None True s' [97]))) = [])"
proof -
  have d: "sdata three_shard = [([97], \<lparr>payload = None, vsize = 3, voffset = 0\<rparr>), ([98], \<lparr>payload = None, vsize = 1, voffset = 3\<rparr>),
      ([99], \<lparr>payload = None, vsize = 1, voffset = 4\<rparr>)]" "valueFile (swal three_shard) = [1, 2, 3, 4, 5]" "vpos (swal three_shard) = 0"
    by (simp_all add: three_shard_def three_entries_def replay_entry_def newWAL_engine_def)
  from offset_zero_read_destroys_values [OF three_shard_opened, of "[97]" "[98]"
      "\<lparr>payload = None, vsize = 3, voffset = 0\<rparr>" "\<lparr>payload = None, vsize = 1, voffset = 3\<rparr>"] show ?thesis
    by (simp add: d shard_value_def visible_def)
qed

definition two_writes :: shard where
  "two_writes = putAsync False (putAsync False fresh_shard [97] [1]) [98] [2]"

lemma two_writes_compact: "\<not> panicked (committer_step (CeCompact good_compact) two_writes)"
proof -
  let ?rs = "[\<lparr>wrKey = [97], wrValue = [1], wrResp = None\<rparr>, \<lparr>wrKey = [98], wrValue = [2], wrResp = None\<rparr>]"
  have w: "\<not> panicked two_writes" "cbuf two_writes = []" "reqCh two_writes = ?rs" "indexOpen (swal two_writes)" "valueOpen (swal two_writes)"
    "flush_env two_writes (flush_no two_writes) = good_flush"
    by (simp_all add: two_writes_def putAsync_def putInternal_def Let_def fresh_shard_eq newWAL_engine_def)
  let ?s = "two_writes\<lparr>reqCh := [], cbuf := ?rs\<rparr>"
  have "drainReqCh two_writes = flushBuffered ?s"
    by (simp add: drainReqCh_def w appendToBatch_def syncBatchSize_def Let_def)
  moreover have "\<not> panicked (flush ?s ?rs)" using flush_files(2) [of ?s good_flush ?rs] w by (simp add: good_flush_def)
  ultimately have "\<not> panicked (drainReqCh two_writes)" using w(1) by (simp add: flushBuffered_def Let_def)
  then show ?thesis
    using w(1) by (simp add: committer_step_def doCompact_def Let_def good_compact_def reopenIndexFile_def split: option.split)
qed

theorem compaction_then_restart_witness:
  "shard_value two_writes [98] = Some [2]
    \<and> (\<exists>s' es'. restart (\<lambda>_. good_flush) (committer_step (CeCompact good_compact) two_writes) = ([], s')
      \<and> opened s' es' \<and> shard_value s' [98] = Some [1])"
proof -
  let ?hs = "[\<lparr>wrKey = [97], wrValue = [1], wrResp = None\<rparr>, \<lparr>wrKey = [98], wrValue = [2], wrResp = None\<rparr>]"
  have f: "fits (putAsync False fresh_shard [97] [1]) [98] [2]"
    by (simp add: fits_def putAsync_def putInternal_def Let_def fresh_shard_eq newWAL_engine_def pending_def)
  have "shard_run fresh_shard ([] @ [\<lparr>wrKey = [97], wrValue = [1], wrResp = None\<rparr>]) (putAsync False fresh_shard [97] [1])"
    by (rule shard_run.async [OF shard_run.start]) (simp add: fresh_fits)
  from shard_run.async [OF this f] have run: "shard_run fresh_shard ?hs two_writes" by (simp add: two_writes_def)
  have e: "valueFile (swal fresh_shard) = []" "sdata fresh_shard = fold replay_entry [] []" by (simp_all add: fresh_shard_eq newWAL_engine_def)
  from compaction_then_restart [OF fresh_shard_opened e(2) run _ _ two_writes_compact, of "\<lambda>_. good_flush"]
  show ?thesis by (auto simp: e(1) last_write_def request_write_def)
qed


end
