(* ===== verification/Engine_DB.thy ===== *)
theory Engine_DB
  imports Engine_Durable
begin

text \<open>
  \<open>engine/db.go\<close>: the database of 256 shards selected by an FNV-1a hash of the key. Opening, closing,
  reading, writing, clearing, iterating and cleaning act on the shards. The lemmas show that a
  database is a map for its clients: over any run, across a close, and as an instance of the
  interface a replicated state machine needs.
\<close>

unbundle bit_operations_syntax

section \<open>db.go\<close>

definition numShards :: nat where "numShards = 256"

text \<open>\<open>ctx_done\<close> tells that the context of the database has been cancelled; \<open>Close\<close> acts once and keeps
  its error.\<close>

record DB =
  shards :: "shard list"
  db_closed :: bool
  ctx_done :: bool
  closeErr :: "engine_error list"

definition fnv32a_step :: "u32 \<Rightarrow> 8 word \<Rightarrow> u32" where
  "fnv32a_step h b = (h XOR ucast b) * 16777619"

definition hash :: "bytes \<Rightarrow> u32" where
  "hash s = foldl fnv32a_step 2166136261 s"

definition shard_no :: "bytes \<Rightarrow> nat" where
  "shard_no key = unat (hash key mod 256)"

definition getShard :: "DB \<Rightarrow> bytes \<Rightarrow> shard" where
  "getShard db key = shards db ! shard_no key"

definition db_replay :: "DB \<Rightarrow> engine_error list \<times> DB" where
  "db_replay db =
     (let rs = map (shard_replay None True) (shards db)
      in (concat (map fst rs), db\<lparr>shards := map snd rs\<rparr>))"

fun newShards :: "(bool \<times> (nat \<Rightarrow> flush_io) \<times> shard_files) list \<Rightarrow> engine_error + shard list" where
  "newShards [] = Inr []"
| "newShards ((stat_ok, env, f) # fs) =
     (case newShard stat_ok env f of
        Inl e \<Rightarrow> Inl e
      | Inr s \<Rightarrow> (case newShards fs of Inl e \<Rightarrow> Inl e | Inr ss \<Rightarrow> Inr (s # ss)))"

text \<open>Opening a database: on failure the second component is what has become of the shards opened.\<close>

definition NewDBWithOptions :: "(bool \<times> (nat \<Rightarrow> flush_io) \<times> shard_files) list \<Rightarrow> engine_error list \<times> DB option" where
  "NewDBWithOptions fs =
     (case newShards fs of
        Inl e \<Rightarrow> ([e], None)
      | Inr ss \<Rightarrow>
          (case db_replay \<lparr>shards = ss, db_closed = False, ctx_done = False, closeErr = []\<rparr> of (errs, db) \<Rightarrow> (errs, Some db)))"

definition db_Put :: "bool \<Rightarrow> DB \<Rightarrow> bytes \<Rightarrow> bytes \<Rightarrow> nat \<Rightarrow> engine_error option \<times> DB" where
  "db_Put stop_first db key val resp =
     (case shard_put (ctx_done db) stop_first (getShard db key) key val resp of
        (e, s) \<Rightarrow> (e, db\<lparr>shards := (shards db)[shard_no key := s]\<rparr>))"

definition db_PutAsync :: "bool \<Rightarrow> DB \<Rightarrow> bytes \<Rightarrow> bytes \<Rightarrow> DB" where
  "db_PutAsync stop_first db key val =
     db\<lparr>shards := (shards db)[shard_no key := putAsync stop_first (getShard db key) key val]\<rparr>"

definition db_Get :: "nat option \<Rightarrow> bool \<Rightarrow> DB \<Rightarrow> bytes \<Rightarrow> bytes option \<times> DB" where
  "db_Get bad t db key =
     (case shard_get bad t (getShard db key) key of
        (Inl errs, s) \<Rightarrow> (None, db\<lparr>shards := (shards db)[shard_no key := s]\<rparr>)
      | (Inr r, s) \<Rightarrow> (r, db\<lparr>shards := (shards db)[shard_no key := s]\<rparr>))"

definition db_Clear :: "(shard \<Rightarrow> bool) \<Rightarrow> (shard \<Rightarrow> bool) \<Rightarrow> DB \<Rightarrow> engine_error list \<times> DB" where
  "db_Clear clear_ok open_ok db =
     (let rs = map (\<lambda>s. shard_clear (clear_ok s) (open_ok s) s) (shards db)
      in (List.map_filter fst rs, db\<lparr>shards := map snd rs\<rparr>))"

definition db_Close :: "(shard \<Rightarrow> bool) \<Rightarrow> DB \<Rightarrow> engine_error list \<times> DB" where
  "db_Close close_ok db =
     (if db_closed db then (closeErr db, db)
      else
        (let ss = map stopBackgroundWorker (shards db);
             errs = map (\<lambda>_. EngIO) (filter (\<lambda>s. \<not> close_ok s) ss)
         in (errs, db\<lparr>shards := ss, db_closed := True, ctx_done := True, closeErr := errs\<rparr>)))"

fun range_loop ::
  "nat option \<Rightarrow> bool \<Rightarrow> (bytes \<Rightarrow> bytes \<Rightarrow> 'a \<Rightarrow> bool \<times> 'a) \<Rightarrow> shard list \<Rightarrow> 'a \<Rightarrow> engine_error list \<times> 'a \<times> shard list" where
  "range_loop bad t fn [] a = ([], a, [])"
| "range_loop bad t fn (s # ss) a =
     (case forEach bad t fn a s of
        (errs, a, s) \<Rightarrow>
          if errs \<noteq> [] then (errs, a, s # ss)
          else (case range_loop bad t fn ss a of (errs, a, ss) \<Rightarrow> (errs, a, s # ss)))"

definition db_Range where
  "db_Range bad t fn a db =
     (case range_loop bad t fn (shards db) a of (errs, a, ss) \<Rightarrow> (errs, a, db\<lparr>shards := ss\<rparr>))"

text \<open>\<open>clean\<close> of a shard: the committer drains its queue and runs the cleanup. There is no answer, and the
  caller waits for ever, when the committer has panicked or panics.\<close>

definition shard_clean :: "nat option \<Rightarrow> bool \<Rightarrow> clean_io \<Rightarrow> shard \<Rightarrow> engine_error list option \<times> shard" where
  "shard_clean bad t io s =
     (if stopCh s then (Some [EngClosed], s)
      else if panicked s then (None, s)
      else
        (let s = drainReqCh s in
         if panicked s then (None, s)
         else (case doCleanup bad t io s of (errs, s) \<Rightarrow> (if panicked s then None else Some errs, s))))"

fun clean_loop :: "nat option \<Rightarrow> bool \<Rightarrow> (nat \<Rightarrow> clean_io) \<Rightarrow> nat \<Rightarrow> shard list \<Rightarrow> engine_error list option \<times> shard list" where
  "clean_loop bad t io i [] = (Some [], [])"
| "clean_loop bad t io i (s # ss) =
     (case shard_clean bad t (io i) s of
        (res, s) \<Rightarrow>
          if res \<noteq> Some [] then (res, s # ss)
          else (case clean_loop bad t io (i + 1) ss of (res, ss) \<Rightarrow> (res, s # ss)))"

definition db_Clean :: "nat option \<Rightarrow> bool \<Rightarrow> (nat \<Rightarrow> clean_io) \<Rightarrow> DB \<Rightarrow> engine_error list option \<times> DB" where
  "db_Clean bad t io db =
     (if ctx_done db \<and> shards db \<noteq> [] then (Some [EngClosed], db)
      else (case clean_loop bad t io 0 (shards db) of (res, ss) \<Rightarrow> (res, db\<lparr>shards := ss\<rparr>)))"

section \<open>A database as a map\<close>

definition db_value :: "DB \<Rightarrow> bytes \<rightharpoonup> bytes" where
  "db_value db k = shard_value (getShard db k) k"

definition db_opened :: "DB \<Rightarrow> bool" where
  "db_opened db \<longleftrightarrow> length (shards db) = numShards \<and> \<not> db_closed db \<and> \<not> ctx_done db \<and> (\<forall>s \<in> set (shards db). \<exists>es. opened s es)"

lemma shard_no_less [simp]: "shard_no k < numShards"
proof -
  have "hash k mod 256 < 256" by (rule word_mod_less_divisor) simp
  then show ?thesis by (simp add: shard_no_def numShards_def word_less_nat_alt)
qed

text \<open>Runs of a database: writes, and the committers of the shards at work.\<close>

inductive db_run :: "DB \<Rightarrow> writeRequest list \<Rightarrow> DB \<Rightarrow> bool" for db0 where
  start: "db_run db0 [] db0"
| put: "db_run db0 hs db \<Longrightarrow> fits (getShard db k) k v \<Longrightarrow> db_Put False db k v ch = (None, db') \<Longrightarrow>
    db_run db0 (hs @ [\<lparr>wrKey = k, wrValue = v, wrResp = Some ch\<rparr>]) db'"
| async: "db_run db0 hs db \<Longrightarrow> fits (getShard db k) k v \<Longrightarrow>
    db_run db0 (hs @ [\<lparr>wrKey = k, wrValue = v, wrResp = None\<rparr>]) (db_PutAsync False db k v)"
| commit: "db_run db0 hs db \<Longrightarrow> i < numShards \<Longrightarrow> ev \<in> {CeReq, CeTick, CeStop} \<Longrightarrow>
    db_run db0 hs (db\<lparr>shards := (shards db)[i := committer_step ev (shards db ! i)]\<rparr>)"

definition of_shard :: "nat \<Rightarrow> writeRequest list \<Rightarrow> writeRequest list" where
  "of_shard i hs = filter (\<lambda>r. shard_no (wrKey r) = i) hs"

lemma last_write_of_shard:
  "last_write (map request_write (of_shard (shard_no k) hs)) k = last_write (map request_write hs) k"
  by (induction hs rule: rev_induct) (auto simp: of_shard_def last_write_def request_write_def)

text \<open>Each shard runs on its part of the writes.\<close>

lemma db_run_shards:
  assumes "db_run db0 hs db" "length (shards db0) = numShards" "\<not> ctx_done db0"
  shows "length (shards db) = numShards \<and> \<not> ctx_done db \<and> db_closed db = db_closed db0
    \<and> (\<forall>i < numShards. shard_run (shards db0 ! i) (of_shard i hs) (shards db ! i))"
  using assms(1)
proof induction
  case start
  then show ?case using assms(2,3) by (simp add: of_shard_def shard_run.start)
next
  case (put hs db k v ch db')
  obtain s where s: "shard_put False False (getShard db k) k v ch = (None, s)" "db' = db\<lparr>shards := (shards db)[shard_no k := s]\<rparr>"
    using put.IH put.hyps(3) by (auto simp: db_Put_def split: prod.splits)
  have "shard_run (shards db0 ! i) (of_shard i hs @ [\<lparr>wrKey = k, wrValue = v, wrResp = Some ch\<rparr>]) s" if "i = shard_no k" for i
    using put.IH shard_run.put [OF _ put.hyps(2) s(1)] that by (simp add: getShard_def)
  then show ?case using put.IH s(2) by (auto simp: of_shard_def nth_list_update)
next
  case (async hs db k v)
  have "shard_run (shards db0 ! i) (of_shard i hs @ [\<lparr>wrKey = k, wrValue = v, wrResp = None\<rparr>]) (putAsync False (getShard db k) k v)" if "i = shard_no k" for i
    using async.IH shard_run.async [OF _ async.hyps(2)] that by (simp add: getShard_def)
  then show ?case using async.IH by (auto simp: of_shard_def nth_list_update db_PutAsync_def)
next
  case (commit hs db i ev)
  then show ?case using shard_run.commit by (auto simp: nth_list_update)
qed

lemma db_run_shard:
  assumes "db_opened db0" "db_run db0 hs db" "s = getShard db k"
  obtains es where "opened (getShard db0 k) es" "shard_run (getShard db0 k) (of_shard (shard_no k) hs) s"
    "db_value db0 k = last_write (disk_writes (valueFile (swal (getShard db0 k))) es) k"
proof -
  have l: "length (shards db0) = numShards" "\<not> ctx_done db0" using assms(1) by (simp_all add: db_opened_def)
  have "getShard db0 k \<in> set (shards db0)" using l(1) by (simp add: getShard_def)
  then obtain es where "opened (getShard db0 k) es" using assms(1) by (auto simp: db_opened_def)
  moreover from this have "db_value db0 k = last_write (disk_writes (valueFile (swal (getShard db0 k))) es) k"
    by (simp add: db_value_def opened_def mem_inv_def)
  ultimately show thesis using that db_run_shards [OF assms(2) l] assms(3) by (simp add: getShard_def)
qed

text \<open>C25. A read of the database after any interleaving of asynchronous writes to all shards with the
  flushes of the committers returns the last value written to the key, or the value before the run,
  provided the committer of its shard has not failed and the entry of the key is readable: in memory, empty, or at a
  positive offset. The run has no compaction, cleanup or earlier read.\<close>

theorem db_get_sees_last_write:
  assumes "db_opened db0" "db_run db0 hs db" "\<forall>r \<in> set hs. wrResp r = None"
    "\<not> panicked (getShard db k)" "readable (getShard db k) k"
  shows "fst (db_Get None t db k) = (db_value db0 ++ last_write (map request_write hs)) k"
proof -
  let ?s = "getShard db k"
  obtain es where r: "opened (getShard db0 k) es" "shard_run (getShard db0 k) (of_shard (shard_no k) hs) ?s"
    "db_value db0 k = last_write (disk_writes (valueFile (swal (getShard db0 k))) es) k"
    using db_run_shard [OF assms(1,2) refl] by blast
  let ?ws = "disk_writes (valueFile (swal (getShard db0 k))) es @ map request_write (of_shard (shard_no k) hs)"
  have "\<forall>r \<in> set (of_shard (shard_no k) hs). wrResp r = None" using assms(3) by (simp add: of_shard_def)
  then have "mem_inv ?s ?ws" "valueOpen (swal ?s)"
    using shard_run_inv [OF r(2) opened_run_inv [OF r(1)]] assms(4) by (auto simp: run_inv_def live_inv_def disk_inv_def)
  from shard_get_reads(1) [OF this(1) assms(5) this(2), of t] show ?thesis
    by (cases "last_write (map request_write hs) k")
      (auto simp: db_Get_def last_write_append map_add_def last_write_of_shard r(3) split: prod.split sum.split)
qed


section \<open>Closing and opening again\<close>

definition db_files :: "(nat \<Rightarrow> flush_io) \<Rightarrow> DB \<Rightarrow> (bool \<times> (nat \<Rightarrow> flush_io) \<times> shard_files) list" where
  "db_files env db = map (\<lambda>s. (True, env, files_of s)) (shards db)"

lemma reopen_clean:
  assumes "disk_inv s es"
  shows "\<exists>s'. reopen env (files_of s) = ([], s') \<and> opened s' es \<and> valueFile (swal s') = valueFile (swal s)"
proof -
  have f: "\<forall>e \<in> set (es @ []). entry_in (valueFile (swal s)) e" "length (valueFile (swal s)) < 2 ^ 63" "fsValue (files_of s) = valueFile (swal s)"
    "fsIndex (files_of s) = concat (map index_bytes es) @ take 0 (concat (map index_bytes []))"
    using assms by (simp_all add: files_of_def disk_inv_def)
  show ?thesis by (rule reopen_files [OF f, of env]) auto
qed

lemma NewDB_reopens:
  "NewDBWithOptions (map (\<lambda>f. (True, env, f)) fs) =
    (concat (map (fst \<circ> reopen env) fs), Some \<lparr>shards = map (snd \<circ> reopen env) fs, db_closed = False, ctx_done = False, closeErr = []\<rparr>)"
proof -
  have r: "reopen env f = shard_replay None True (projr (newShard True env f))" for f
    by (simp_all add: reopen_def newShard_def Let_def)
  have "newShards (map (\<lambda>f. (True, env, f)) fs) = Inr (map (\<lambda>f. projr (newShard True env f)) fs)"
    by (induction fs) (simp_all add: newShard_def Let_def)
  then show ?thesis
    by (simp add: NewDBWithOptions_def db_replay_def Let_def comp_def r)
qed

lemma stop_then_reopen:
  assumes "opened s0 es0" "shard_run s0 hs s" "\<not> panicked (stopBackgroundWorker s)"
  shows "\<exists>s' es. reopen env (files_of (stopBackgroundWorker s)) = ([], s') \<and> opened s' es
    \<and> disk_writes (valueFile (swal s')) es = disk_writes (valueFile (swal s0)) es0 @ map request_write hs"
proof -
  let ?s = "committer_step CeStop s" and ?w0 = "disk_writes (valueFile (swal s0)) es0"
  have np: "\<not> panicked ?s" using assms(3) by (simp add: stopBackgroundWorker_def Let_def)
  have "shard_run s0 hs ?s" using assms(2) by (auto intro: shard_run.commit)
  from shard_run_inv [OF this opened_run_inv [OF assms(1)]] np obtain es d
    where d: "disk_inv ?s es" "disk_writes (valueFile (swal ?s)) es = ?w0 @ map request_write (take d hs)" "pending ?s = drop d hs"
    by (auto simp: run_inv_def live_inv_def)
  have "pending ?s = []" using np by (auto simp: committer_step_def drain_pending split: if_split_asm)
  then have d': "take d hs = hs" using d(3) by simp
  obtain s' where "reopen env (files_of ?s) = ([], s')" "opened s' es" "valueFile (swal s') = valueFile (swal ?s)"
    using reopen_clean [OF d(1)] by blast
  moreover have "files_of (stopBackgroundWorker s) = files_of ?s"
    by (simp add: stopBackgroundWorker_def Let_def wal_close_def files_of_def)
  ultimately show ?thesis using d(2) d' by auto
qed

text \<open>C24. Closing a database after any run of writes of both kinds interleaved with the work of the
  committers, when no committer has failed to write, and opening it again gives back exactly the map before the run
  updated by all writes in order. The runs consist of writes and flushes: no compaction, cleanup or
  read takes place in them.\<close>

theorem close_then_open:
  assumes "db_opened db0" "db_run db0 hs db" "db_Close close_ok db = (errs, db')" "\<forall>s \<in> set (shards db'). \<not> panicked s"
  shows "\<exists>db''. NewDBWithOptions (db_files env db') = ([], Some db'') \<and> db_opened db''
    \<and> db_value db'' = db_value db0 ++ last_write (map request_write hs)"
proof -
  have l: "length (shards db0) = numShards" "\<not> ctx_done db0" "\<not> db_closed db0" using assms(1) by (simp_all add: db_opened_def)
  have len: "length (shards db) = numShards" and nc: "\<not> db_closed db"
    and run: "i < numShards \<Longrightarrow> shard_run (shards db0 ! i) (of_shard i hs) (shards db ! i)" for i
    using db_run_shards [OF assms(2) l(1,2)] l(3) by simp_all
  have db': "shards db' = map stopBackgroundWorker (shards db)" using assms(3) nc by (auto simp: db_Close_def Let_def)
  have re: "\<exists>s' es. reopen env (files_of (stopBackgroundWorker (shards db ! i))) = ([], s') \<and> opened s' es
      \<and> disk_writes (valueFile (swal s')) es = disk_writes (valueFile (swal (shards db0 ! i))) es0 @ map request_write (of_shard i hs)"
    if "i < numShards" "opened (shards db0 ! i) es0" for i es0
  proof (rule stop_then_reopen [OF that(2) run [OF that(1)]])
    show "\<not> panicked (stopBackgroundWorker (shards db ! i))" using assms(4) that(1) len by (simp add: db')
  qed
  define db'' where "db'' = \<lparr>shards = map (snd \<circ> reopen env \<circ> files_of \<circ> stopBackgroundWorker) (shards db), db_closed = False, ctx_done = False, closeErr = []\<rparr>"
  have o: "\<exists>es. opened (shards db0 ! i) es" if "i < numShards" for i
    using assms(1) that by (simp add: db_opened_def)
  have ok: "fst (reopen env (files_of (stopBackgroundWorker (shards db ! i)))) = []
      \<and> (\<exists>es. opened (snd (reopen env (files_of (stopBackgroundWorker (shards db ! i))))) es)" if "i < numShards" for i
  proof -
    obtain es0 where "opened (shards db0 ! i) es0" using o [OF \<open>i < numShards\<close>] by blast
    from re [OF \<open>i < numShards\<close> this] show ?thesis by auto
  qed
  then have "\<forall>s \<in> set (shards db). fst (reopen env (files_of (stopBackgroundWorker s))) = []"
    using len by (auto simp: in_set_conv_nth)
  then have "NewDBWithOptions (db_files env db') = ([], Some db'')"
    using NewDB_reopens [of env "map (files_of \<circ> stopBackgroundWorker) (shards db)"]
    by (simp add: db_files_def db' comp_def db''_def)
  moreover have "db_opened db''" using ok len by (auto simp: db_opened_def db''_def in_set_conv_nth)
  moreover have "db_value db'' k = (db_value db0 ++ last_write (map request_write hs)) k" for k
  proof -
    obtain es0 where es0: "opened (shards db0 ! shard_no k) es0" using o [of "shard_no k"] by auto
    from re [OF shard_no_less this] obtain s' es where s': "getShard db'' k = s'" "opened s' es"
      "disk_writes (valueFile (swal s')) es = disk_writes (valueFile (swal (shards db0 ! shard_no k))) es0 @ map request_write (of_shard (shard_no k) hs)"
      using len by (auto simp: getShard_def db''_def)
    then show ?thesis using es0
      by (cases "last_write (map request_write hs) k")
        (simp_all add: db_value_def opened_def mem_inv_def last_write_append map_add_def last_write_of_shard getShard_def)
  qed
  ultimately show ?thesis by (auto simp: fun_eq_iff)
qed

section \<open>Iteration\<close>

text \<open>The bindings of a shard in the order of iteration.\<close>

definition bindings :: "shard \<Rightarrow> (bytes \<times> bytes) list" where
  "bindings s = map (\<lambda>(k, ve). (k, visible (valueFile (swal s)) ve)) (sdata s)"

fun visit :: "('k \<Rightarrow> 'v \<Rightarrow> 'a \<Rightarrow> bool \<times> 'a) \<Rightarrow> ('k \<times> 'v) list \<Rightarrow> 'a \<Rightarrow> 'a" where
  "visit fn [] a = a"
| "visit fn ((k, v) # kvs) a = (case fn k v a of (True, a) \<Rightarrow> visit fn kvs a | (False, a) \<Rightarrow> a)"

definition iterable :: "shard \<Rightarrow> bool" where
  "iterable s \<longleftrightarrow> (\<exists>ws. mem_inv s ws) \<and> valueOpen (swal s) \<and> distinct (map fst (sdata s)) \<and> (\<forall>k. readable s k)"

lemma forEach_loop_visits:
  assumes "mem_inv s ws" "valueOpen (swal s)" "distinct (map fst d)" "\<forall>(k, ve) \<in> set d. map_of (sdata s) k = Some ve \<and> entry_readable ve"
  shows "\<exists>s'. forEach_loop None t fn d a s = ([], visit fn (map (\<lambda>(k, ve). (k, visible (valueFile (swal s)) ve)) d) a, s')"
  using assms
proof (induction d arbitrary: a s)
  case (Cons kv d)
  obtain k ve where kv: "kv = (k, ve)" by (cases kv)
  let ?v = "visible (valueFile (swal s)) ve"
  have k: "map_of (sdata s) k = Some ve" "entry_readable ve" using Cons.prems(4) kv by auto
  have l: "loaded_or_in (valueFile (swal s)) (sdata s)" using Cons.prems(1) by (simp add: mem_inv_def)
  obtain s1 where s1: "getValue None t s k ve = (Inr ?v, s1)" "valueFile (swal s1) = valueFile (swal s)" "valueOpen (swal s1)"
    "s1 = s\<lparr>swal := swal s1, sdata := AList.update k (ve\<lparr>payload := Some ?v\<rparr>) (sdata s)\<rparr>"
    by (rule getValue_reads [OF k(1) l k(2) Cons.prems(2), of t])
  have d1: "sdata s1 = AList.update k (ve\<lparr>payload := Some ?v\<rparr>) (sdata s)" by (subst s1(4)) simp
  have "map_of (sdata s1) k' = Some ve' \<and> entry_readable ve'" if "(k', ve') \<in> set d" for k' ve'
  proof -
    have "k' \<noteq> k" using Cons.prems(3) kv that by force
    then show ?thesis using Cons.prems(4) that by (auto simp: d1 update_conv')
  qed
  then have "\<forall>(k', ve') \<in> set d. map_of (sdata s1) k' = Some ve' \<and> entry_readable ve'" by blast
  with Cons.IH [OF load_keeps(1) [OF k(1) Cons.prems(1) s1(2) d1] s1(3)] Cons.prems(3) show ?case
    by (auto simp: kv s1(1,2) split: prod.split bool.split)
qed simp

lemma range_loop_visits:
  "\<forall>s \<in> set ss. iterable s \<Longrightarrow> \<exists>ss'. range_loop None t fn ss a = ([], fold (\<lambda>s. visit fn (bindings s)) ss a, ss')"
proof (induction ss arbitrary: a)
  case (Cons s ss)
  then have "iterable s" by simp
  then obtain ws where s: "mem_inv s ws" "valueOpen (swal s)" "distinct (map fst (sdata s))" "\<forall>k. readable s k" by (auto simp: iterable_def)
  have "\<forall>(k, ve) \<in> set (sdata s). map_of (sdata s) k = Some ve \<and> entry_readable ve"
    using s(3,4) by (auto simp: readable_def split: option.splits)
  from forEach_loop_visits [OF s(1-3) this, of t fn a] obtain s' where "forEach None t fn a s = ([], visit fn (bindings s) a, s')"
    by (auto simp: forEach_def bindings_def)
  moreover obtain ss' where "range_loop None t fn ss (visit fn (bindings s) a) = ([], fold (\<lambda>s. visit fn (bindings s)) ss (visit fn (bindings s) a), ss')"
    using Cons.IH Cons.prems by fastforce
  ultimately show ?case by simp
qed simp

text \<open>When every entry of every shard is readable, \<open>Range\<close> reports no error and applies the function to the
  bindings of every shard in turn. A result
  \<open>false\<close> ends the iteration of one shard only: the next shard is visited nevertheless.\<close>

theorem Range_visits_every_shard:
  assumes "\<forall>s \<in> set (shards db). iterable s"
  shows "\<exists>db'. db_Range None t fn a db = ([], fold (\<lambda>s. visit fn (bindings s)) (shards db) a, db')"
  using range_loop_visits [OF assms, of t fn a] by (auto simp: db_Range_def)

section \<open>The database as a state machine\<close>

text \<open>What a client that applies writes and reads needs of a store.\<close>

locale state_machine =
  fixes put :: "'d \<Rightarrow> bytes \<Rightarrow> bytes \<Rightarrow> 'd"
    and get :: "'d \<Rightarrow> bytes \<Rightarrow> bytes option \<times> 'd"
    and contents :: "'d \<Rightarrow> bytes \<rightharpoonup> bytes"
    and inv :: "'d \<Rightarrow> bool"
    and ok :: "'d \<Rightarrow> bytes \<Rightarrow> bool"
  assumes put_inv: "inv d \<Longrightarrow> inv (put d k v)"
    and put_contents: "inv d \<Longrightarrow> contents (put d k v) = (contents d)(k \<mapsto> v)"
    and put_ok: "inv d \<Longrightarrow> ok (put d k v) k' \<longleftrightarrow> k' = k \<or> ok d k'"
    and get_result: "inv d \<Longrightarrow> ok d k \<Longrightarrow> fst (get d k) = contents d k"
    and get_inv: "inv d \<Longrightarrow> ok d k \<Longrightarrow> inv (snd (get d k))"
    and get_contents: "inv d \<Longrightarrow> ok d k \<Longrightarrow> contents (snd (get d k)) = contents d"
    and get_ok: "inv d \<Longrightarrow> ok d k \<Longrightarrow> ok d k' \<Longrightarrow> ok (snd (get d k)) k'"
begin

definition apply_writes :: "(bytes \<times> bytes) list \<Rightarrow> 'd \<Rightarrow> 'd" where
  "apply_writes ws d = fold (\<lambda>(k, v) d. put d k v) ws d"

lemma apply_writes_contents:
  "inv d \<Longrightarrow> inv (apply_writes ws d) \<and> contents (apply_writes ws d) = contents d ++ last_write ws
     \<and> (ok (apply_writes ws d) k \<longleftrightarrow> ok d k \<or> k \<in> fst ` set ws)"
  unfolding apply_writes_def
  by (induction ws rule: rev_induct) (auto simp: put_inv put_contents put_ok last_write_def)

end

definition db_ok :: "DB \<Rightarrow> bool" where
  "db_ok db \<longleftrightarrow> length (shards db) = numShards \<and> (\<forall>s \<in> set (shards db). (\<exists>ws. mem_inv s ws) \<and> valueOpen (swal s))"

definition db_readable :: "DB \<Rightarrow> bytes \<Rightarrow> bool" where
  "db_readable db k \<longleftrightarrow> readable (getShard db k) k"

lemma putAsync_mem:
  assumes "mem_inv s ws"
  shows "mem_inv (putAsync f s k v) (ws @ [(k, v)])" "swal (putAsync f s k v) = swal s"
    "shard_value (putAsync f s k v) = (shard_value s)(k \<mapsto> v)"
    "readable (putAsync f s k v) k' \<longleftrightarrow> k' = k \<or> readable s k'"
proof -
  have d: "sdata (putAsync f s k v) = AList.update k \<lparr>payload = Some v, vsize = length v, voffset = 0\<rparr> (sdata s)"
    "swal (putAsync f s k v) = swal s"
    by (simp_all add: putAsync_def putInternal_def Let_def)
  show "swal (putAsync f s k v) = swal s" by (fact d(2))
  show v: "shard_value (putAsync f s k v) = (shard_value s)(k \<mapsto> v)"
    by (rule ext) (simp add: shard_value_def d update_conv' visible_def)
  show "readable (putAsync f s k v) k' \<longleftrightarrow> k' = k \<or> readable s k'"
    by (simp add: readable_def d update_conv' entry_readable_def)
  show "mem_inv (putAsync f s k v) (ws @ [(k, v)])"
    using assms v by (simp add: mem_inv_def last_write_snoc d loaded_or_in_def update_conv')
qed

lemma getShard_update:
  "length (shards db) = numShards \<Longrightarrow> getShard (db\<lparr>shards := (shards db)[shard_no k := s]\<rparr>) k' = (if shard_no k' = shard_no k then s else getShard db k')"
  by (auto simp: getShard_def nth_list_update)

lemma db_ok_update:
  "db_ok db \<Longrightarrow> \<exists>ws. mem_inv s ws \<Longrightarrow> valueOpen (swal s) \<Longrightarrow> db_ok (db\<lparr>shards := (shards db)[i := s]\<rparr>)"
  by (auto simp: db_ok_def dest!: set_update_subset_insert [THEN subsetD])

lemma db_ok_shard: "db_ok db \<Longrightarrow> (\<exists>ws. mem_inv (getShard db k) ws) \<and> valueOpen (swal (getShard db k)) \<and> length (shards db) = numShards"
  by (simp add: db_ok_def getShard_def)

lemma db_Get_shard:
  assumes "db_ok db" "db_readable db k"
  obtains s where "db_Get None t db k = (db_value db k, db\<lparr>shards := (shards db)[shard_no k := s]\<rparr>)"
    "shard_value s = shard_value (getShard db k)" "\<exists>ws. mem_inv s ws" "valueOpen (swal s)" "\<forall>k'. readable (getShard db k) k' \<longrightarrow> readable s k'"
proof -
  obtain ws where ws: "mem_inv (getShard db k) ws" "valueOpen (swal (getShard db k))" using db_ok_shard [OF assms(1)] by blast
  note g = shard_get_reads [OF ws(1) assms(2) [unfolded db_readable_def] ws(2), where t = t]
  let ?s = "snd (shard_get None t (getShard db k) k)"
  have "db_Get None t db k = (db_value db k, db\<lparr>shards := (shards db)[shard_no k := ?s]\<rparr>)"
    using g(1) ws(1) by (cases "shard_get None t (getShard db k) k") (simp add: db_Get_def db_value_def mem_inv_def)
  moreover have "shard_value ?s = shard_value (getShard db k)" using g(2) ws(1) by (simp add: mem_inv_def)
  ultimately show thesis using that [of ?s] g(2,3,4) by blast
qed

interpretation kv_store: state_machine "db_PutAsync f" "db_Get None t" db_value db_ok db_readable
proof
  fix d k v k'
  assume d: "db_ok d"
  then obtain ws where ws: "mem_inv (getShard d k) ws" "valueOpen (swal (getShard d k))" "length (shards d) = numShards"
    using db_ok_shard by blast
  note p = putAsync_mem [OF ws(1), of f k v]
  show "db_ok (db_PutAsync f d k v)" using p(1,2) ws(2) unfolding db_PutAsync_def by (intro db_ok_update [OF d] exI) simp_all
  show "db_value (db_PutAsync f d k v) = (db_value d)(k \<mapsto> v)"
    by (rule ext) (auto simp: db_value_def db_PutAsync_def getShard_update [OF ws(3)] p(3), simp_all add: getShard_def)
  show "db_readable (db_PutAsync f d k v) k' \<longleftrightarrow> k' = k \<or> db_readable d k'"
    by (auto simp: db_readable_def db_PutAsync_def getShard_update [OF ws(3)] p(4), simp_all add: getShard_def)
next
  fix d k k'
  assume d: "db_ok d" and k: "db_readable d k"
  obtain s where s: "db_Get None t d k = (db_value d k, d\<lparr>shards := (shards d)[shard_no k := s]\<rparr>)"
    "shard_value s = shard_value (getShard d k)" "\<exists>ws. mem_inv s ws" "valueOpen (swal s)" "\<forall>k'. readable (getShard d k) k' \<longrightarrow> readable s k'"
    by (rule db_Get_shard [OF d k, of t])
  have l: "length (shards d) = numShards" using d by (simp add: db_ok_def)
  show "fst (db_Get None t d k) = db_value d k" by (simp add: s(1))
  show "db_ok (snd (db_Get None t d k))" using db_ok_update [OF d s(3,4)] by (simp add: s(1))
  show "db_value (snd (db_Get None t d k)) = db_value d"
    by (rule ext) (auto simp: s(1,2) db_value_def getShard_update [OF l], simp_all add: getShard_def)
  show "db_readable d k' \<Longrightarrow> db_readable (snd (db_Get None t d k)) k'"
    using s(5) by (auto simp: s(1) db_readable_def getShard_update [OF l], simp_all add: getShard_def)
qed

section \<open>A disk that works\<close>

text \<open>While every flush works the committer never panics.\<close>

definition works :: "shard \<Rightarrow> bool" where
  "works s \<longleftrightarrow> \<not> panicked s \<and> indexOpen (swal s) \<and> valueOpen (swal s) \<and> (\<forall>n. flush_env s n = good_flush)"

lemma works_flush: "works s \<Longrightarrow> works (flush s b)"
  using flush_files(1,2,7) [of s "flush_env s (flush_no s)" b] by (simp add: works_def good_flush_def)

lemma works_append: "works s \<Longrightarrow> works (appendToBatch r s)"
  using works_flush [of "s\<lparr>cbuf := cbuf s @ [r]\<rparr>" "cbuf s @ [r]"]
  by (simp add: appendToBatch_def Let_def works_def)

lemma works_commit:
  assumes "works s" "ev \<in> {CeReq, CeTick, CeStop}"
  shows "works (committer_step ev s)"
proof -
  have b: "works (flushBuffered s)" if "works s" for s
    using works_flush [OF that, of "cbuf s"] that by (simp add: flushBuffered_def Let_def works_def)
  have "works (fold appendToBatch rs s)" if "works s" for rs s
    using that by (induction rs arbitrary: s) (simp_all add: works_append)
  then have d: "works (drainReqCh s)" if "works s" for s
    using b that by (simp add: drainReqCh_def works_def)
  show ?thesis
    using assms b d [of "s\<lparr>stopCh := True\<rparr>"] works_append
    by (auto simp: committer_step_def works_def split: list.split)
qed

section \<open>A sample database\<close>

definition empty_db :: DB where
  "empty_db = \<lparr>shards = replicate numShards fresh_shard, db_closed = False, ctx_done = False, closeErr = []\<rparr>"

lemma empty_db_opened: "db_opened empty_db"
  using fresh_shard_opened by (auto simp: db_opened_def empty_db_def)

lemma getShard_empty [simp]: "getShard empty_db k = fresh_shard"
  by (simp add: getShard_def empty_db_def)

lemma fresh_shard_works: "works fresh_shard"
  by (simp add: works_def fresh_shard_eq newWAL_engine_def)

lemma empty_db_run:
  "db_run empty_db [\<lparr>wrKey = [97], wrValue = [1, 2], wrResp = None\<rparr>] (db_PutAsync False empty_db [97] [1, 2])"
  using db_run.async [OF db_run.start, of empty_db "[97]" "[1, 2]"] fresh_fits [of "[97]" "[1, 2]"] by simp

theorem db_get_sees_last_write_witness:
  "fst (db_Get None True (db_PutAsync False empty_db [97] [1, 2]) [97]) = Some [1, 2]"
proof -
  have "getShard (db_PutAsync False empty_db [97] [1, 2]) [97] = putAsync False fresh_shard [97] [1, 2]"
    using getShard_update [of empty_db] by (simp add: db_PutAsync_def) (simp add: empty_db_def)
  then show ?thesis
    using db_get_sees_last_write [OF empty_db_opened empty_db_run, of "[97]" True]
    by (simp add: putAsync_def putInternal_def Let_def fresh_shard_eq readable_def entry_readable_def last_write_def request_write_def)
qed

theorem close_then_open_witness:
  "\<exists>db''. NewDBWithOptions (db_files (\<lambda>_. good_flush) (snd (db_Close (\<lambda>_. True) (db_PutAsync False empty_db [97] [1, 2])))) = ([], Some db'')
    \<and> db_opened db'' \<and> db_value db'' = db_value empty_db ++ last_write [([97], [1, 2])]"
proof -
  let ?db = "db_PutAsync False empty_db [97] [1, 2]"
  have "shards ?db = (replicate numShards fresh_shard)[shard_no [97] := putAsync False fresh_shard [97] [1, 2]]"
    by (simp add: db_PutAsync_def) (simp add: empty_db_def)
  moreover have "works (putAsync False fresh_shard [97] [1, 2])"
    using fresh_shard_works by (simp add: works_def putAsync_def putInternal_def Let_def)
  ultimately have "\<forall>s \<in> set (shards ?db). works s"
    using fresh_shard_works by (auto dest!: set_update_subset_insert [THEN subsetD])
  then have "\<forall>s \<in> set (shards (snd (db_Close (\<lambda>_. True) ?db))). \<not> panicked s"
    using works_commit [of _ CeStop]
    by (auto simp: db_Close_def Let_def stopBackgroundWorker_def works_def db_PutAsync_def empty_db_def)
  from close_then_open [OF empty_db_opened empty_db_run _ this, of "\<lambda>_. True" _ "\<lambda>_. good_flush"] show ?thesis
    by (simp add: request_write_def) (metis prod.collapse)
qed

theorem Range_visits_every_shard_witness:
  "\<exists>db'. db_Range None True (\<lambda>k v seen. (False, seen @ [k])) []
      \<lparr>shards = [two_shard, fresh_shard, two_shard], db_closed = False, ctx_done = False, closeErr = []\<rparr> = ([], [[97], [97]], db')"
proof -
  have d: "sdata two_shard = [([97], \<lparr>payload = Some [1], vsize = 1, voffset = 0\<rparr>), ([98], \<lparr>payload = Some [2], vsize = 1, voffset = 0\<rparr>)]"
    "sdata fresh_shard = []"
    using two_shard_facts(3) by (simp_all add: two_puts_def fresh_shard_eq)
  have "iterable two_shard"
    using two_shard_facts(1,2) by (auto simp: iterable_def d readable_def entry_readable_def disk_inv_def)
  moreover have "iterable fresh_shard"
    using fresh_shard_opened by (auto simp: iterable_def d readable_def opened_def disk_inv_def)
  ultimately show ?thesis
    using Range_visits_every_shard [of "\<lparr>shards = [two_shard, fresh_shard, two_shard], db_closed = False, ctx_done = False, closeErr = []\<rparr>" True "\<lambda>k v seen. (False, seen @ [k])" "[]"]
    by (simp add: bindings_def d)
qed

end
