(* ===== verification/Waiting.thy ===== *)
theory Waiting
  imports Prelude "HOL-Library.AList"
begin

text \<open>
  \<open>pkg/wait\<close>: the two tables through which request handlers wait for the apply loop. \<open>waitList\<close>
  wakes the handler of one request, \<open>timeList\<close> everybody who waits for an index. The locale
  \<open>waiter\<close> states what the first one promises to its users.
\<close>

section \<open>wait.go\<close>

text \<open>
  A channel is named by a number; \<open>w_chans\<close> gives the values in its buffer, whose capacity is one,
  and \<open>w_next\<close> is the first number not used yet. Sending to a full channel blocks; \<open>w_blocked\<close>
  records that it happened.
\<close>

record 'x waitList =
  w_m :: "u64 \<rightharpoonup> nat"
  w_chans :: "nat \<Rightarrow> 'x list"
  w_next :: nat
  w_blocked :: bool

definition wait_New :: "'x waitList" where
  "wait_New = \<lparr>w_m = Map.empty, w_chans = (\<lambda>_. []), w_next = 0, w_blocked = False\<rparr>"

definition wait_Register :: "'x waitList \<Rightarrow> u64 \<Rightarrow> nat \<times> 'x waitList" where
  "wait_Register w i =
     (let ch = w_next w in (ch, w\<lparr>w_m := (w_m w)(i \<mapsto> ch), w_next := ch + 1\<rparr>))"

definition chan_send :: "'x waitList \<Rightarrow> nat \<Rightarrow> 'x \<Rightarrow> 'x waitList" where
  "chan_send w ch x =
     (if w_chans w ch = [] then w\<lparr>w_chans := (w_chans w)(ch := [x])\<rparr> else w\<lparr>w_blocked := True\<rparr>)"

definition wait_Trigger :: "'x waitList \<Rightarrow> u64 \<Rightarrow> 'x \<Rightarrow> 'x waitList" where
  "wait_Trigger w i x =
     (case w_m w i of
        None \<Rightarrow> w
      | Some ch \<Rightarrow> chan_send (w\<lparr>w_m := (w_m w)(i := None)\<rparr>) ch x)"

definition wait_IsRegistered :: "'x waitList \<Rightarrow> u64 \<Rightarrow> bool" where
  "wait_IsRegistered w i \<longleftrightarrow> w_m w i \<noteq> None"

text \<open>A receive by the holder of the channel, when there is something to receive.\<close>

definition wait_receive :: "'x waitList \<Rightarrow> nat \<Rightarrow> ('x \<times> 'x waitList) option" where
  "wait_receive w ch =
     (case w_chans w ch of [] \<Rightarrow> None | x # b \<Rightarrow> Some (x, w\<lparr>w_chans := (w_chans w)(ch := b)\<rparr>))"

section \<open>wait_time.go\<close>

text \<open>\<open>tl_closed\<close> are the closed channels; number 0 is \<open>closec\<close>, closed from the start.\<close>

record timeList =
  lastTriggerDeadline :: u64
  tl_m :: "(u64 \<times> nat) list"
  tl_closed :: "nat list"
  tl_next :: nat

definition NewTimeList :: timeList where
  "NewTimeList = \<lparr>lastTriggerDeadline = 0, tl_m = [], tl_closed = [0], tl_next = 1\<rparr>"

definition timeList_Wait :: "timeList \<Rightarrow> u64 \<Rightarrow> nat \<times> timeList" where
  "timeList_Wait t deadline =
     (if lastTriggerDeadline t \<ge> deadline then (0, t)
      else
        (case map_of (tl_m t) deadline of
           Some ch \<Rightarrow> (ch, t)
         | None \<Rightarrow>
             (let ch = tl_next t in
              (ch, t\<lparr>tl_m := AList.update deadline ch (tl_m t), tl_next := ch + 1\<rparr>))))"

definition timeList_Trigger :: "timeList \<Rightarrow> u64 \<Rightarrow> timeList" where
  "timeList_Trigger t deadline =
     t\<lparr>lastTriggerDeadline := deadline,
        tl_m := filter (\<lambda>(d, ch). \<not> d \<le> deadline) (tl_m t),
        tl_closed := map snd (filter (\<lambda>(d, ch). d \<le> deadline) (tl_m t)) @ tl_closed t\<rparr>"

section \<open>Waiting for an identifier\<close>

text \<open>Every registered channel is empty and registered once.\<close>

definition wait_ok :: "'x waitList \<Rightarrow> bool" where
  "wait_ok w \<longleftrightarrow> \<not> w_blocked w \<and> (\<forall>ch. length (w_chans w ch) \<le> 1) \<and> (\<forall>ch. w_next w \<le> ch \<longrightarrow> w_chans w ch = [])
     \<and> (\<forall>i ch. w_m w i = Some ch \<longrightarrow> ch < w_next w \<and> w_chans w ch = [])
     \<and> (\<forall>i j ch. w_m w i = Some ch \<longrightarrow> w_m w j = Some ch \<longrightarrow> i = j)"

lemma wait_ok_New: "wait_ok wait_New"
  by (simp add: wait_ok_def wait_New_def)

lemma wait_ok_Register: "wait_ok w \<Longrightarrow> wait_ok (snd (wait_Register w i))"
  by (fastforce simp: wait_ok_def wait_Register_def Let_def less_Suc_eq split: if_split_asm)

lemma wait_ok_Trigger: "wait_ok w \<Longrightarrow> wait_ok (wait_Trigger w i x)"
  by (fastforce simp: wait_ok_def wait_Trigger_def chan_send_def split: option.split if_split_asm)

lemma wait_ok_receive: "wait_ok w \<Longrightarrow> wait_receive w ch = Some (x, w') \<Longrightarrow> wait_ok w'"
  by (auto simp: wait_ok_def wait_receive_def split: list.split_asm) (metis Suc_leD length_Cons)

text \<open>What registration and triggering promise to the code that uses them.\<close>

fun trigger_all :: "('w \<Rightarrow> u64 \<Rightarrow> 'x \<Rightarrow> 'w) \<Rightarrow> 'w \<Rightarrow> (u64 \<times> 'x) list \<Rightarrow> 'w" where
  "trigger_all trigger w [] = w"
| "trigger_all trigger w ((i, x) # ts) = trigger_all trigger (trigger w i x) ts"

locale waiter =
  fixes ok :: "'w \<Rightarrow> bool"
    and register :: "'w \<Rightarrow> u64 \<Rightarrow> nat \<times> 'w"
    and trigger :: "'w \<Rightarrow> u64 \<Rightarrow> 'x \<Rightarrow> 'w"
    and registered :: "'w \<Rightarrow> u64 \<Rightarrow> nat option"
    and pending :: "'w \<Rightarrow> nat \<Rightarrow> 'x list"
  assumes ok_register: "ok w \<Longrightarrow> register w i = (ch, w') \<Longrightarrow>
      ok w' \<and> registered w' = (registered w)(i \<mapsto> ch) \<and> pending w' = pending w \<and> pending w ch = []
      \<and> ch \<notin> ran (registered w)"
    and ok_trigger: "ok w \<Longrightarrow> ok (trigger w i x) \<and> registered (trigger w i x) = (registered w)(i := None)
      \<and> pending (trigger w i x) = (case registered w i of None \<Rightarrow> pending w | Some ch \<Rightarrow> (pending w)(ch := [x]))"
    and ok_registered: "ok w \<Longrightarrow> registered w i = Some ch \<Longrightarrow> pending w ch = []"
    and ok_inj: "ok w \<Longrightarrow> registered w i = Some ch \<Longrightarrow> registered w j = Some ch \<Longrightarrow> i = j"
begin

lemma ok_trigger_all: "ok w \<Longrightarrow> ok (trigger_all trigger w ts)"
  using ok_trigger by (induction trigger w ts rule: trigger_all.induct) auto

lemma trigger_all_registered: "ok w \<Longrightarrow> registered (trigger_all trigger w ts) i = (if map_of ts i = None then registered w i else None)"
  by (induction ts arbitrary: w) (auto simp: ok_trigger)

lemma not_registered_after:
  assumes "ok w" "registered w i = Some ch"
  shows "ch \<notin> ran (registered (trigger w i x))"
proof
  assume "ch \<in> ran (registered (trigger w i x))"
  then obtain k where "registered (trigger w i x) k = Some ch" by (auto simp: ran_def)
  then have "k \<noteq> i" "registered w k = Some ch" using ok_trigger [OF assms(1), of i x] by (auto split: if_split_asm)
  with ok_inj [OF assms] show False by blast
qed

lemma unregistered_stays:
  assumes "ok w" "ch \<notin> ran (registered w)"
  shows "pending (trigger_all trigger w ts) ch = pending w ch"
  using assms
proof (induction ts arbitrary: w)
  case (Cons a ts)
  obtain i x where a: "a = (i, x)" by fastforce
  note t = ok_trigger [OF Cons.prems(1), of i x]
  have "ch \<notin> ran (registered (trigger w i x))" using Cons.prems(2) t by (auto simp: ran_def split: if_split_asm)
  then have "pending (trigger_all trigger (trigger w i x) ts) ch = pending (trigger w i x) ch"
    using Cons.IH t by blast
  moreover have "pending (trigger w i x) ch = pending w ch"
    using Cons.prems(2) t by (auto simp: ran_def split: option.split)
  ultimately show ?case by (simp add: a)
qed simp

text \<open>The waiter of an identifier gets the value of the first trigger for it, and no other.\<close>

lemma first_trigger_wins:
  assumes "ok w" "registered w i = Some ch"
  shows "pending (trigger_all trigger w ts) ch = (case map_of ts i of None \<Rightarrow> [] | Some x \<Rightarrow> [x])"
  using assms
proof (induction ts arbitrary: w)
  case Nil
  then show ?case by (simp add: ok_registered)
next
  case (Cons a ts)
  obtain j x where a: "a = (j, x)" by fastforce
  note t = ok_trigger [OF Cons.prems(1), of j x]
  show ?case
  proof (cases "j = i")
    case True
    then have "pending (trigger_all trigger (trigger w j x) ts) ch = [x]"
      using unregistered_stays [of "trigger w j x" ch ts] not_registered_after [OF Cons.prems, of x] t Cons.prems(2) by simp
    with True show ?thesis by (simp add: a)
  next
    case False
    then have "registered (trigger w j x) i = Some ch" using t Cons.prems(2) by simp
    with Cons.IH [of "trigger w j x"] t False show ?thesis by (simp add: a)
  qed
qed

end

lemma wait_okD:
  assumes "wait_ok w"
  shows "\<not> w_blocked w" "w_next w \<le> ch \<Longrightarrow> w_chans w ch = []" "w_m w i = Some ch \<Longrightarrow> ch < w_next w \<and> w_chans w ch = []"
    "w_m w i = Some ch \<Longrightarrow> w_m w j = Some ch \<Longrightarrow> i = j"
  using assms unfolding wait_ok_def by blast+

interpretation wait_list: waiter wait_ok wait_Register wait_Trigger w_m w_chans
proof
  fix w :: "'a waitList" and i ch w'
  assume ok: "wait_ok w" and r: "wait_Register w i = (ch, w')"
  have "ch \<notin> ran (w_m w)" using wait_okD(3) [OF ok] r by (auto simp: wait_Register_def Let_def ran_def)
  then show "wait_ok w' \<and> w_m w' = (w_m w)(i \<mapsto> ch) \<and> w_chans w' = w_chans w \<and> w_chans w ch = [] \<and> ch \<notin> ran (w_m w)"
    using wait_ok_Register [OF ok, of i] wait_okD(2) [OF ok] r by (auto simp: wait_Register_def Let_def)
next
  fix w :: "'a waitList" and i x
  assume ok: "wait_ok w"
  then show "wait_ok (wait_Trigger w i x) \<and> w_m (wait_Trigger w i x) = (w_m w)(i := None)
      \<and> w_chans (wait_Trigger w i x) = (case w_m w i of None \<Rightarrow> w_chans w | Some ch \<Rightarrow> (w_chans w)(ch := [x]))"
    using wait_ok_Trigger [OF ok, of i x] wait_okD(3) [OF ok, of i]
    by (cases "w_m w i") (simp_all add: wait_Trigger_def chan_send_def fun_upd_idem)
next
  fix w :: "'a waitList" and i ch
  assume "wait_ok w" "w_m w i = Some ch"
  then show "w_chans w ch = []" using wait_okD(3) by blast
next
  fix w :: "'a waitList" and i j ch
  assume "wait_ok w" "w_m w i = Some ch" "w_m w j = Some ch"
  then show "i = j" using wait_okD(4) by blast
qed

text \<open>C39. A waiter is woken once and by the right call. Whatever triggers follow a
  registration, none of
  them blocks on a full channel, and the channel of identifier \<open>i\<close> holds the value of the first
  trigger for \<open>i\<close>, or nothing if there was none.\<close>
theorem waiter_gets_first_trigger:
  assumes "wait_ok w" "wait_Register w i = (ch, w')"
  shows "wait_ok (trigger_all wait_Trigger w' ts)
    \<and> w_chans (trigger_all wait_Trigger w' ts) ch = (case map_of ts i of None \<Rightarrow> [] | Some x \<Rightarrow> [x])
    \<and> (wait_IsRegistered (trigger_all wait_Trigger w' ts) i \<longleftrightarrow> map_of ts i = None)"
proof -
  have "wait_ok w'" "w_m w' i = Some ch" using wait_list.ok_register [OF assms] by simp_all
  then show ?thesis
    using wait_list.ok_trigger_all [of w' ts] wait_list.first_trigger_wins [of w' i ch ts]
      wait_list.trigger_all_registered [of w' ts i]
    by (simp add: wait_IsRegistered_def)
qed

theorem waiter_gets_first_trigger_witness:
  "\<exists>ch w'. wait_Register (wait_New :: bool waitList) 7 = (ch, w')
     \<and> w_chans (trigger_all wait_Trigger w' [(8, False), (7, True), (7, False)]) ch = [True]"
proof -
  obtain ch w' where "wait_Register (wait_New :: bool waitList) 7 = (ch, w')" by fastforce
  with waiter_gets_first_trigger [OF wait_ok_New this, of "[(8, False), (7, True), (7, False)]"] show ?thesis by auto
qed

section \<open>Waiting for an index\<close>

text \<open>Waiting deadlines lie beyond the last trigger, and their channels are open.\<close>

definition time_ok :: "timeList \<Rightarrow> bool" where
  "time_ok t \<longleftrightarrow> distinct (map fst (tl_m t)) \<and> distinct (map snd (tl_m t)) \<and> 0 \<in> set (tl_closed t) \<and> 0 < tl_next t
     \<and> (\<forall>(d, ch) \<in> set (tl_m t). lastTriggerDeadline t < d \<and> ch < tl_next t \<and> ch \<notin> set (tl_closed t))
     \<and> (\<forall>ch \<in> set (tl_closed t). ch < tl_next t)"

lemma time_ok_New: "time_ok NewTimeList"
  by (simp add: time_ok_def NewTimeList_def)

lemma update_new: "map_of m k = None \<Longrightarrow> AList.update k v m = m @ [(k, v)]"
  by (induction m) (auto split: if_split_asm)

lemma time_ok_Wait:
  assumes "time_ok t" "timeList_Wait t d = (ch, t')"
  shows "time_ok t'" "lastTriggerDeadline t' = lastTriggerDeadline t" "tl_closed t' = tl_closed t"
    "set (tl_m t) \<subseteq> set (tl_m t')" "d \<le> lastTriggerDeadline t \<and> ch = 0 \<or> lastTriggerDeadline t < d \<and> (d, ch) \<in> set (tl_m t')"
  using assms
  by (auto simp: timeList_Wait_def time_ok_def Let_def not_le update_new map_of_eq_None_iff less_Suc_eq
      split: if_split_asm option.split_asm dest: map_of_SomeD) fastforce+

lemma time_okD:
  assumes "time_ok t"
  shows "distinct (map fst (tl_m t))" "distinct (map snd (tl_m t))" "0 \<in> set (tl_closed t)" "0 < tl_next t"
    "(d, ch) \<in> set (tl_m t) \<Longrightarrow> lastTriggerDeadline t < d \<and> ch < tl_next t \<and> ch \<notin> set (tl_closed t)"
    "ch \<in> set (tl_closed t) \<Longrightarrow> ch < tl_next t"
    "(d, ch) \<in> set (tl_m t) \<Longrightarrow> (d', ch) \<in> set (tl_m t) \<Longrightarrow> d' = d"
proof -
  show "d' = d" if "(d, ch) \<in> set (tl_m t)" "(d', ch) \<in> set (tl_m t)"
    using assms that inj_onD [of snd "set (tl_m t)" "(d', ch)" "(d, ch)"] by (simp add: time_ok_def distinct_map)
qed (use assms in \<open>auto simp: time_ok_def\<close>)

lemma time_ok_Trigger:
  assumes "time_ok t" "lastTriggerDeadline t \<le> D"
  shows "time_ok (timeList_Trigger t D)"
proof -
  note t = time_okD [OF assms(1)]
  let ?u = "timeList_Trigger t D"
  have d: "distinct (map fst (tl_m ?u))" "distinct (map snd (tl_m ?u))"
    using t(1,2) by (simp_all add: timeList_Trigger_def distinct_map_filter)
  have m: "(d, ch) \<in> set (tl_m ?u) \<longleftrightarrow> (d, ch) \<in> set (tl_m t) \<and> D < d" for d ch
    by (simp add: timeList_Trigger_def not_le)
  have c: "ch \<in> set (tl_closed ?u) \<longleftrightarrow> ch \<in> set (tl_closed t) \<or> (\<exists>d. (d, ch) \<in> set (tl_m t) \<and> d \<le> D)" for ch
    by (force simp: timeList_Trigger_def)
  have n: "tl_next ?u = tl_next t" "lastTriggerDeadline ?u = D" by (simp_all add: timeList_Trigger_def)
  have "ch < tl_next t \<and> ch \<notin> set (tl_closed ?u)" if "(d, ch) \<in> set (tl_m t)" "D < d" for d ch
    using t(5) [OF that(1)] t(7) [OF that(1)] that(2) c by auto
  moreover have "ch < tl_next t" if "ch \<in> set (tl_closed ?u)" for ch using that t(5,6) c by blast
  ultimately show ?thesis using d t(3,4) m n c unfolding time_ok_def by auto
qed

text \<open>Waits and triggers in any order.\<close>

datatype time_event = TWait u64 | TTrigger u64

fun time_step :: "timeList \<Rightarrow> time_event \<Rightarrow> timeList" where
  "time_step t (TWait d) = snd (timeList_Wait t d)"
| "time_step t (TTrigger d) = timeList_Trigger t d"

fun rising :: "u64 \<Rightarrow> time_event list \<Rightarrow> bool" where
  "rising n [] \<longleftrightarrow> True"
| "rising n (TWait d # es) \<longleftrightarrow> rising n es"
| "rising n (TTrigger d # es) \<longleftrightarrow> n \<le> d \<and> rising d es"

lemma waiting_closes:
  assumes "time_ok t" "rising (lastTriggerDeadline t) es"
    and "d \<le> lastTriggerDeadline t \<and> ch \<in> set (tl_closed t) \<or> lastTriggerDeadline t < d \<and> (d, ch) \<in> set (tl_m t)"
  shows "ch \<in> set (tl_closed (foldl time_step t es)) \<longleftrightarrow> d \<le> lastTriggerDeadline (foldl time_step t es)"
  using assms
proof (induction es arbitrary: t)
  case Nil
  then show ?case by (auto simp: time_ok_def)
next
  case (Cons e es)
  show ?case
  proof (cases e)
    case (TWait c)
    obtain c' t' where w: "timeList_Wait t c = (c', t')" by fastforce
    show ?thesis
      using Cons.IH [of t'] Cons.prems time_ok_Wait [OF Cons.prems(1) w] w TWait by auto
  next
    case (TTrigger D)
    let ?t = "timeList_Trigger t D"
    have "d \<le> D \<and> ch \<in> set (tl_closed ?t) \<or> D < d \<and> (d, ch) \<in> set (tl_m ?t)"
      using Cons.prems TTrigger by (force simp: timeList_Trigger_def not_le)
    moreover have "lastTriggerDeadline ?t = D" by (simp add: timeList_Trigger_def)
    ultimately show ?thesis
      using Cons.IH [of ?t] Cons.prems time_ok_Trigger [OF Cons.prems(1), of D] TTrigger by simp
  qed
qed

text \<open>C40. As long as the triggered deadlines rise, a channel returned by \<open>Wait\<close>
  is closed exactly when
  a deadline at least as late has been triggered, whatever other waits and triggers come between.\<close>
theorem Wait_closed_iff_reached:
  assumes "time_ok t" "timeList_Wait t d = (ch, t')" "rising (lastTriggerDeadline t) es"
  shows "ch \<in> set (tl_closed (foldl time_step t' es)) \<longleftrightarrow> d \<le> lastTriggerDeadline (foldl time_step t' es)"
proof (rule waiting_closes)
  note w = time_ok_Wait [OF assms(1,2)]
  show "time_ok t'" "rising (lastTriggerDeadline t') es" using w assms(3) by simp_all
  show "d \<le> lastTriggerDeadline t' \<and> ch \<in> set (tl_closed t') \<or> lastTriggerDeadline t' < d \<and> (d, ch) \<in> set (tl_m t')"
    using w assms(1) by (auto simp: time_ok_def)
qed

theorem Wait_closed_iff_reached_witness:
  "\<exists>ch t'. timeList_Wait NewTimeList 5 = (ch, t') \<and> rising 0 [TTrigger 3, TWait 9, TTrigger 6]
     \<and> ch \<in> set (tl_closed (foldl time_step t' [TTrigger 3, TWait 9, TTrigger 6]))"
proof -
  obtain ch t' where w: "timeList_Wait NewTimeList 5 = (ch, t')" by fastforce
  moreover have "rising (lastTriggerDeadline NewTimeList) [TTrigger 3, TWait 9, TTrigger 6]"
    by (simp add: NewTimeList_def word_le_unat)
  moreover have "lastTriggerDeadline (foldl time_step t' [TTrigger 3, TWait 9, TTrigger 6]) = 6"
    by (simp add: timeList_Trigger_def)
  ultimately have "ch \<in> set (tl_closed (foldl time_step t' [TTrigger 3, TWait 9, TTrigger 6]))"
    using Wait_closed_iff_reached [OF time_ok_New w, of "[TTrigger 3, TWait 9, TTrigger 6]"]
    by (simp only: word_le_unat) simp
  with w show ?thesis by (intro exI conjI) (simp_all add: word_le_unat)
qed

end
