(* ===== verification/Protocol.thy ===== *)
theory Protocol
  imports Raft_Types
begin

text \<open>
  \<open>protocol/message.go\<close>: the payloads exchanged with clients, which are also what a PUT puts into
  the raft log. Encoders fill a fresh buffer in place; decoders slice the payload, and a slice
  expression out of range is a panic. The lemmas show that encoding is the concatenation of the
  fields, that decoding inverts it, and that no payload makes a decoder panic.
\<close>

unbundle bit_operations_syntax

section \<open>Definitions\<close>

datatype proto_error =
    ErrInvalidMessage
  | ErrUnknownCmd
  | ErrUnknownStatus
  | ErrFrameTooLarge

definition requestHeaderSize :: nat where "requestHeaderSize = 22"
definition responseHeaderSize :: nat where "responseHeaderSize = 13"
definition FlagHasSeq :: u8 where "FlagHasSeq = 1"
definition CmdGet :: u8 where "CmdGet = 1"
definition CmdPut :: u8 where "CmdPut = 2"
definition StatusOK :: u8 where "StatusOK = 0"
definition StatusNotFound :: u8 where "StatusNotFound = 1"
definition StatusError :: u8 where "StatusError = 2"
definition StatusTimeout :: u8 where "StatusTimeout = 3"
definition statusMaxKnown :: u8 where "statusMaxKnown = 4"

lemmas protocol_consts [simp] = requestHeaderSize_def responseHeaderSize_def FlagHasSeq_def CmdGet_def CmdPut_def
  StatusOK_def StatusNotFound_def StatusError_def StatusTimeout_def statusMaxKnown_def

record Request =
  rqCmd :: u8
  rqKey :: bytes
  rqValue :: bytes
  rqSeq :: u64

record Response =
  rsStatus :: u8
  rsValue :: bytes
  rsSeq :: u64

text \<open>Lengths are Go's \<open>int\<close> of a 64-bit platform.\<close>

definition lenFromU32 :: "u32 \<Rightarrow> nat option" where
  "lenFromU32 u = (if unat u > 2 ^ 63 - 1 then None else Some (unat u))"

definition ensureU32Len :: "nat \<Rightarrow> proto_error option" where
  "ensureU32Len n = (if n > unat (- 1 :: u32) then Some ErrFrameTooLarge else None)"

definition putU32LE :: "bytes \<Rightarrow> nat \<Rightarrow> nat \<Rightarrow> bytes" where
  "putU32LE buf off v = put_bytes buf off (PutUint32 (word_of_nat v))"

definition putU64LE :: "bytes \<Rightarrow> nat \<Rightarrow> u64 \<Rightarrow> bytes" where
  "putU64LE buf off v = put_bytes buf off (PutUint64 v)"

definition statusCanCarryValue :: "u8 \<Rightarrow> bool" where
  "statusCanCarryValue st \<longleftrightarrow> st = StatusOK"

definition EncodeRequest :: "Request \<Rightarrow> proto_error + bytes" where
  "EncodeRequest req =
     (let klen = length (rqKey req) in
      case ensureU32Len klen of
        Some e \<Rightarrow> Inl e
      | None \<Rightarrow>
          (let vlen = length (rqValue req) in
           case ensureU32Len vlen of
             Some e \<Rightarrow> Inl e
           | None \<Rightarrow>
               (let flags = (if rqCmd req = CmdPut then 0 OR FlagHasSeq else 0);
                    buf = make_bytes (requestHeaderSize + klen + vlen);
                    buf = buf[0 := rqCmd req];
                    buf = buf[1 := flags];
                    buf = putU64LE buf 2 (rqSeq req);
                    buf = putU32LE buf 10 0;
                    buf = putU32LE buf 14 klen;
                    buf = putU32LE buf 18 vlen;
                    off = requestHeaderSize;
                    buf = put_bytes buf off (rqKey req);
                    off = off + klen
                in Inr (put_bytes buf off (rqValue req)))))"

definition DecodeRequest :: "bytes \<Rightarrow> panic + proto_error + Request" where
  "DecodeRequest payload =
     (if length payload < requestHeaderSize then Inr (Inl ErrInvalidMessage)
      else
        and_then (nth_go payload 0) (\<lambda>cmd.
        and_then (nth_go payload 1) (\<lambda>flags.
        and_then (slice_go 2 10 payload) (\<lambda>seq.
        and_then (slice_go 10 14 payload) (\<lambda>rid.
        and_then (slice_go 14 18 payload) (\<lambda>k.
        and_then (slice_go 18 22 payload) (\<lambda>v.
          case lenFromU32 (Uint32 rid) of None \<Rightarrow> Inr (Inl ErrInvalidMessage) | Some ridlen \<Rightarrow>
          case lenFromU32 (Uint32 k) of None \<Rightarrow> Inr (Inl ErrInvalidMessage) | Some klen \<Rightarrow>
          case lenFromU32 (Uint32 v) of None \<Rightarrow> Inr (Inl ErrInvalidMessage) | Some vlen \<Rightarrow>
          (let need = requestHeaderSize + ridlen + klen + vlen in
           if length payload \<noteq> need then Inr (Inl ErrInvalidMessage)
           else
             (let off = requestHeaderSize + ridlen in
              and_then (slice_go off (off + klen) payload) (\<lambda>key.
              (let off = off + klen in
               and_then (slice_go off (off + vlen) payload) (\<lambda>val.
               Inr (Inr \<lparr>rqCmd = cmd, rqKey = key, rqValue = val,
                         rqSeq = (if flags AND FlagHasSeq \<noteq> 0 then Uint64 seq else 0)\<rparr>)))))))))))))"

definition EncodeResponse :: "Response \<Rightarrow> proto_error + bytes" where
  "EncodeResponse resp =
     (let vlen = length (rsValue resp) in
      case ensureU32Len vlen of
        Some e \<Rightarrow> Inl e
      | None \<Rightarrow>
          if rsStatus resp > statusMaxKnown then Inl ErrUnknownStatus
          else if \<not> statusCanCarryValue (rsStatus resp) \<and> vlen \<noteq> 0 then Inl ErrInvalidMessage
          else
            (let buf = make_bytes (responseHeaderSize + vlen);
                 buf = buf[0 := rsStatus resp];
                 buf = putU64LE buf 1 (rsSeq resp);
                 buf = putU32LE buf 9 vlen
             in Inr (put_bytes buf responseHeaderSize (rsValue resp))))"

definition DecodeResponse :: "bytes \<Rightarrow> panic + proto_error + Response" where
  "DecodeResponse payload =
     (if length payload < responseHeaderSize then Inr (Inl ErrInvalidMessage)
      else
        and_then (nth_go payload 0) (\<lambda>st.
        and_then (slice_go 1 9 payload) (\<lambda>seq.
        and_then (slice_go 9 13 payload) (\<lambda>v.
          case lenFromU32 (Uint32 v) of None \<Rightarrow> Inr (Inl ErrInvalidMessage) | Some vlen \<Rightarrow>
          (let need = responseHeaderSize + vlen in
           if length payload \<noteq> need then Inr (Inl ErrInvalidMessage)
           else if st > statusMaxKnown then Inr (Inl ErrUnknownStatus)
           else if \<not> statusCanCarryValue st \<and> vlen \<noteq> 0 then Inr (Inl ErrInvalidMessage)
           else
             and_then (slice_go responseHeaderSize need payload) (\<lambda>val.
               Inr (Inr \<lparr>rsStatus = st, rsValue = val, rsSeq = Uint64 seq\<rparr>)))))))"

section \<open>In-place encoding is concatenation\<close>

definition request_flags :: "Request \<Rightarrow> u8" where
  "request_flags req = (if rqCmd req = CmdPut then FlagHasSeq else 0)"

definition request_bytes :: "Request \<Rightarrow> bytes" where
  "request_bytes req =
     [rqCmd req, request_flags req] @ PutUint64 (rqSeq req) @ PutUint32 0 @ PutUint32 (word_of_nat (length (rqKey req)))
     @ PutUint32 (word_of_nat (length (rqValue req))) @ rqKey req @ rqValue req"

definition response_bytes :: "Response \<Rightarrow> bytes" where
  "response_bytes r =
     [rsStatus r] @ PutUint64 (rsSeq r) @ PutUint32 (word_of_nat (length (rsValue r))) @ rsValue r"

definition fits_u32 :: "bytes \<Rightarrow> bool" where
  "fits_u32 b \<longleftrightarrow> length b < 2 ^ 32"

lemma ensureU32Len_fits [simp]: "ensureU32Len (length b) = (if fits_u32 b then None else Some ErrFrameTooLarge)"
  by (simp add: ensureU32Len_def fits_u32_def unsigned_minus_1_eq_mask mask_eq_exp_minus_1)

lemma lenFromU32_some [simp]: "lenFromU32 u = Some (unat u)"
  using unat_less_2p [of u] by (simp add: lenFromU32_def)

lemma unat_length_u32: "fits_u32 b \<Longrightarrow> unat (word_of_nat (length b) :: u32) = length b"
  by (simp add: fits_u32_def unat_of_nat)

lemma EncodeRequest_eq:
  "EncodeRequest req = (if fits_u32 (rqKey req) \<and> fits_u32 (rqValue req) then Inr (request_bytes req) else Inl ErrFrameTooLarge)"
proof -
  let ?k = "rqKey req" and ?v = "rqValue req" and ?c = "[rqCmd req, request_flags req]" and ?z = make_bytes
  let ?q = "PutUint64 (rqSeq req)" and ?r = "PutUint32 0"
    and ?lk = "PutUint32 (word_of_nat (length (rqKey req)))" and ?lv = "PutUint32 (word_of_nat (length (rqValue req)))"
  have "22 + length ?k + length ?v = 2 + (8 + (4 + (4 + (4 + (length ?k + length ?v)))))" by simp
  then have z: "?z (22 + length ?k + length ?v) = ?z 2 @ ?z 8 @ ?z 4 @ ?z 4 @ ?z 4 @ ?z (length ?k) @ ?z (length ?v)"
    by (simp only: make_bytes_add)
  have c: "(?z 2 @ b)[0 := rqCmd req, 1 := request_flags req] = ?c @ b" for b by (simp add: make_bytes_def numeral_2_eq_2)
  note put = c putU64LE_def putU32LE_def
    put_bytes_append [of ?c 2 "?z 8" ?q, simplified]
    put_bytes_append [of "?c @ ?q" 10 "?z 4" ?r, simplified]
    put_bytes_append [of "?c @ ?q @ ?r" 14 "?z 4" ?lk, simplified]
    put_bytes_append [of "?c @ ?q @ ?r @ ?lk" 18 "?z 4" ?lv, simplified]
    put_bytes_append [of "?c @ ?q @ ?r @ ?lk @ ?lv" 22 "?z (length ?k)" ?k, simplified]
    put_bytes_append [of "?c @ ?q @ ?r @ ?lk @ ?lv @ ?k" "22 + length ?k" "?z (length ?v)" ?v "[]", simplified]
  have "EncodeRequest req = (if fits_u32 ?k \<and> fits_u32 ?v then
      Inr (put_bytes (put_bytes (putU32LE (putU32LE (putU32LE (putU64LE
        ((make_bytes (22 + length ?k + length ?v))[0 := rqCmd req, 1 := request_flags req])
        2 (rqSeq req)) 10 0) 14 (length ?k)) 18 (length ?v)) 22 ?k) (22 + length ?k) ?v) else Inl ErrFrameTooLarge)"
    by (simp add: EncodeRequest_def Let_def request_flags_def)
  also have "\<dots> = (if fits_u32 ?k \<and> fits_u32 ?v then Inr (request_bytes req) else Inl ErrFrameTooLarge)"
    unfolding z c by (simp add: put request_bytes_def)
  finally show ?thesis .
qed

lemma EncodeResponse_eq:
  "EncodeResponse r =
     (if \<not> fits_u32 (rsValue r) then Inl ErrFrameTooLarge
      else if rsStatus r > statusMaxKnown then Inl ErrUnknownStatus
      else if rsStatus r \<noteq> StatusOK \<and> rsValue r \<noteq> [] then Inl ErrInvalidMessage
      else Inr (response_bytes r))"
proof -
  let ?v = "rsValue r" and ?c = "[rsStatus r]" and ?z = make_bytes
  let ?q = "PutUint64 (rsSeq r)" and ?lv = "PutUint32 (word_of_nat (length (rsValue r)))"
  have "13 + length ?v = 1 + (8 + (4 + length ?v))" by simp
  then have z: "?z (13 + length ?v) = ?z 1 @ ?z 8 @ ?z 4 @ ?z (length ?v)"
    by (simp only: make_bytes_add)
  have c: "(?z 1 @ b)[0 := rsStatus r] = ?c @ b" for b by (simp add: make_bytes_def)
  note put = c putU64LE_def putU32LE_def
    put_bytes_append [of ?c 1 "?z 8" ?q, simplified]
    put_bytes_append [of "?c @ ?q" 9 "?z 4" ?lv, simplified]
    put_bytes_append [of "?c @ ?q @ ?lv" 13 "?z (length ?v)" ?v "[]", simplified]
  have "put_bytes (putU32LE (putU64LE ((make_bytes (13 + length ?v))[0 := rsStatus r]) 1 (rsSeq r)) 9 (length ?v)) 13 ?v
      = response_bytes r"
    unfolding z c by (simp add: put response_bytes_def)
  then show ?thesis by (auto simp: EncodeResponse_def Let_def statusCanCarryValue_def)
qed

section \<open>Decoding inverts encoding\<close>

lemma DecodeRequest_bytes:
  assumes "fits_u32 (rqKey req)" "fits_u32 (rqValue req)"
  shows "DecodeRequest (request_bytes req) = Inr (Inr (req\<lparr>rqSeq := (if rqCmd req = CmdPut then rqSeq req else 0)\<rparr>))"
proof -
  let ?p = "request_bytes req"
  let ?q = "PutUint64 (rqSeq req)" and ?r = "PutUint32 0"
    and ?lk = "PutUint32 (word_of_nat (length (rqKey req)))" and ?lv = "PutUint32 (word_of_nat (length (rqValue req)))"
  have len: "length ?p = 22 + length (rqKey req) + length (rqValue req)" by (simp add: request_bytes_def)
  have s: "slice_go i (i + length b) (a @ b @ c) = Inr b" if "length a = i" for i and a b c :: bytes
    using that by (simp add: slice_go_def)
  have "slice_go 2 10 ?p = Inr ?q" "slice_go 10 14 ?p = Inr ?r" "slice_go 14 18 ?p = Inr ?lk" "slice_go 18 22 ?p = Inr ?lv"
    "slice_go 22 (22 + length (rqKey req)) ?p = Inr (rqKey req)"
    "slice_go (22 + length (rqKey req)) (22 + length (rqKey req) + length (rqValue req)) ?p = Inr (rqValue req)"
    using s [of "[rqCmd req, request_flags req]" 2 ?q] s [of "[rqCmd req, request_flags req] @ ?q" 10 ?r]
      s [of "[rqCmd req, request_flags req] @ ?q @ ?r" 14 ?lk] s [of "[rqCmd req, request_flags req] @ ?q @ ?r @ ?lk" 18 ?lv]
      s [of "[rqCmd req, request_flags req] @ ?q @ ?r @ ?lk @ ?lv" 22 "rqKey req" "rqValue req"]
      s [of "[rqCmd req, request_flags req] @ ?q @ ?r @ ?lk @ ?lv @ rqKey req" "22 + length (rqKey req)" "rqValue req" "[]"]
    by (simp_all add: request_bytes_def)
  moreover have "nth_go ?p 0 = Inr (rqCmd req)" "nth_go ?p 1 = Inr (request_flags req)"
    by (simp_all add: nth_go_def request_bytes_def)
  moreover have "request_flags req AND 1 \<noteq> 0 \<longleftrightarrow> rqCmd req = CmdPut" by (simp add: request_flags_def)
  ultimately show ?thesis
    using assms len by (simp add: DecodeRequest_def Let_def unat_length_u32)
qed

lemma DecodeResponse_bytes:
  assumes "fits_u32 (rsValue r)" "rsStatus r \<le> statusMaxKnown" "rsStatus r \<noteq> StatusOK \<longrightarrow> rsValue r = []"
  shows "DecodeResponse (response_bytes r) = Inr (Inr r)"
proof -
  let ?p = "response_bytes r"
  let ?q = "PutUint64 (rsSeq r)" and ?lv = "PutUint32 (word_of_nat (length (rsValue r)))"
  have s: "slice_go i (i + length b) (a @ b @ c) = Inr b" if "length a = i" for i and a b c :: bytes
    using that by (simp add: slice_go_def)
  have "slice_go 1 9 ?p = Inr ?q" "slice_go 9 13 ?p = Inr ?lv" "slice_go 13 (13 + length (rsValue r)) ?p = Inr (rsValue r)"
    using s [of "[rsStatus r]" 1 ?q] s [of "[rsStatus r] @ ?q" 9 ?lv] s [of "[rsStatus r] @ ?q @ ?lv" 13 "rsValue r" "[]"]
    by (simp_all add: response_bytes_def)
  moreover have "nth_go ?p 0 = Inr (rsStatus r)" "length ?p = 13 + length (rsValue r)"
    by (simp_all add: nth_go_def response_bytes_def)
  ultimately show ?thesis
    using assms by (auto simp add: DecodeResponse_def Let_def unat_length_u32 statusCanCarryValue_def not_less)
qed

section \<open>Properties\<close>

text \<open>C30. Every request whose key and value have fewer than \<open>2\<^sup>3\<^sup>2\<close> bytes each can be encoded, whatever its
  command byte, and decodes to itself, except that the sequence number travels with a PUT only: any
  other command arrives with sequence number zero. A longer key or value is refused.\<close>
theorem request_roundtrip:
  "if length (rqKey req) < 2 ^ 32 \<and> length (rqValue req) < 2 ^ 32
   then \<exists>p. EncodeRequest req = Inr p
     \<and> DecodeRequest p = Inr (Inr (req\<lparr>rqSeq := (if rqCmd req = CmdPut then rqSeq req else 0)\<rparr>))
   else EncodeRequest req = Inl ErrFrameTooLarge"
  using DecodeRequest_bytes [of req] by (auto simp: EncodeRequest_eq fits_u32_def)

definition sample_request :: Request where
  "sample_request = \<lparr>rqCmd = CmdPut, rqKey = [107], rqValue = [118, 119], rqSeq = 7\<rparr>"

theorem request_roundtrip_witness:
  "\<exists>p. EncodeRequest sample_request = Inr p \<and> DecodeRequest p = Inr (Inr sample_request)"
  using request_roundtrip [of sample_request] by (simp add: sample_request_def)

text \<open>A response that can be encoded decodes to itself.\<close>
theorem response_roundtrip:
  assumes "EncodeResponse r = Inr p"
  shows "DecodeResponse p = Inr (Inr r)"
  using assms DecodeResponse_bytes [of r] by (auto simp: EncodeResponse_eq not_less split: if_split_asm)

definition sample_response :: Response where
  "sample_response = \<lparr>rsStatus = StatusOK, rsValue = [118], rsSeq = 3\<rparr>"

theorem response_roundtrip_witness:
  "\<exists>p. EncodeResponse sample_response = Inr p \<and> DecodeResponse p = Inr (Inr sample_response)"
proof -
  obtain p where "EncodeResponse sample_response = Inr p"
    by (simp add: EncodeResponse_eq sample_response_def fits_u32_def)
  with response_roundtrip [OF this] show ?thesis by blast
qed

lemma slice_go_Inr [simp]: "i \<le> j \<Longrightarrow> j \<le> length xs \<Longrightarrow> slice_go i j xs = Inr (take (j - i) (drop i xs))"
  by (simp add: slice_go_def)

lemma DecodeRequest_cases:
  "DecodeRequest p = Inr (Inl ErrInvalidMessage)
   \<or> (\<exists>req. DecodeRequest p = Inr (Inr req) \<and> 22 + length (rqKey req) + length (rqValue req) \<le> length p)"
proof (cases "length p < 22")
  case True
  then show ?thesis by (simp add: DecodeRequest_def)
next
  case False
  define r k v where l: "r = unat (Uint32 (take 4 (drop 10 p)))" "k = unat (Uint32 (take 4 (drop 14 p)))"
    "v = unat (Uint32 (take 4 (drop 18 p)))"
  show ?thesis
  proof (cases "length p = 22 + r + k + v")
    case True
    with False show ?thesis by (auto simp: DecodeRequest_def nth_go_def Let_def l [symmetric])
  next
    case 2: False
    with False show ?thesis by (auto simp: DecodeRequest_def nth_go_def Let_def l [symmetric])
  qed
qed

lemma DecodeResponse_cases:
  "DecodeResponse p = Inr (Inl ErrInvalidMessage) \<or> DecodeResponse p = Inr (Inl ErrUnknownStatus)
   \<or> (\<exists>r. DecodeResponse p = Inr (Inr r) \<and> 13 + length (rsValue r) = length p)"
proof (cases "length p < 13")
  case True
  then show ?thesis by (simp add: DecodeResponse_def)
next
  case False
  define v where v: "v = unat (Uint32 (take 4 (drop 9 p)))"
  show ?thesis
  proof (cases "length p = 13 + v")
    case True
    with False show ?thesis by (auto simp: DecodeResponse_def nth_go_def Let_def v [symmetric])
  next
    case 2: False
    with False show ?thesis by (auto simp: DecodeResponse_def nth_go_def Let_def v [symmetric])
  qed
qed

text \<open>C31. No sequence of bytes from the network makes a decoder panic, and what is accepted is
  covered by the bytes received: a request never holds more key and value bytes than arrived, and
  a response holds exactly them.\<close>
theorem decoders_never_panic:
  "(\<exists>x. DecodeRequest p = Inr x) \<and> (\<exists>y. DecodeResponse p = Inr y)
   \<and> (\<forall>req. DecodeRequest p = Inr (Inr req) \<longrightarrow> 22 + length (rqKey req) + length (rqValue req) \<le> length p)
   \<and> (\<forall>r. DecodeResponse p = Inr (Inr r) \<longrightarrow> 13 + length (rsValue r) = length p)"
  using DecodeRequest_cases [of p] DecodeResponse_cases [of p] by auto

theorem decoders_never_panic_witness:
  "DecodeRequest (request_bytes sample_request) = Inr (Inr sample_request)
   \<and> 22 + length (rqKey sample_request) + length (rqValue sample_request) \<le> length (request_bytes sample_request)"
proof -
  have "DecodeRequest (request_bytes sample_request) = Inr (Inr sample_request)"
    using DecodeRequest_bytes [of sample_request] by (simp add: sample_request_def fits_u32_def)
  with decoders_never_panic [of "request_bytes sample_request"] show ?thesis by blast
qed

end
