(* ===== verification/Server.thy ===== *)
theory Server
  imports Host Engine_DB Waiting Protocol
begin

text \<open>
  The server between the raft host, the database and its clients: \<open>server/envelope.go\<close>, the apply
  loop of \<open>server/server.go\<close> and the proposals of \<open>server/handler_kv.go\<close>. A request handler blocks
  in places; it is modelled by the pieces between those places. A round of the apply loop is cut at every
  access to state it shares with handlers: each entry is put into the database in one piece and its waiter
  woken in the next, then the applied index is triggered, then the log compacted. \<open>server_step\<close> lets the
  pieces of the loop and of any number of handlers interleave. The properties say that applying implements a map, that a
  put is answered when it has been applied, that a read sees a prefix of the log up to its index or
  further, and what happens when request identifiers of two servers meet.
\<close>

section \<open>envelope.go\<close>

definition envelopeHeaderSize :: nat where "envelopeHeaderSize = 8"

definition marshalEnvelope :: "u64 \<Rightarrow> bytes \<Rightarrow> bytes" where
  "marshalEnvelope reqid body =
     (let buf = make_bytes (envelopeHeaderSize + length body);
          buf = put_bytes buf 0 (PutUint64 reqid)
      in put_bytes buf envelopeHeaderSize body)"

definition unmarshalEnvelope :: "bytes \<Rightarrow> (u64 \<times> bytes) option" where
  "unmarshalEnvelope data =
     (if length data < envelopeHeaderSize then None
      else Some (Uint64 (take envelopeHeaderSize data), drop envelopeHeaderSize data))"

section \<open>State\<close>

datatype server_error =
    SrvProto proto_error
  | SrvUnknownCmd u8
  | SrvRaft raft_error
  | SrvDeadline
  | SrvCancelled
  | SrvOther

text \<open>What travels through the wait list: nil, an error or a read index.\<close>

datatype wait_value = WaitNil | WaitErr server_error | WaitIndex u64

text \<open>The part of \<open>Server\<close> that requests and the apply loop share. The state machine is the database;
  \<open>sv_storage\<close> is the storage of the raft log.\<close>

record Server =
  sv_db :: DB
  sv_w :: "wait_value waitList"
  applyWait :: timeList
  reqIDGen :: u64
  sv_storage :: DurableStorage

definition Trigger :: "u64 \<Rightarrow> wait_value \<Rightarrow> Server \<Rightarrow> Server" where
  "Trigger reqid x s = s\<lparr>sv_w := wait_Trigger (sv_w s) reqid x\<rparr>"

definition nextRequestID :: "Server \<Rightarrow> u64 \<times> Server" where
  "nextRequestID s = (reqIDGen s + 1, s\<lparr>reqIDGen := reqIDGen s + 1\<rparr>)"

section \<open>The apply loop\<close>

text \<open>
  \<open>f\<close> is the outcome of the \<open>select\<close> in \<open>PutAsync\<close>: whether it sees the database stopping before
  its request is queued.
\<close>

text \<open>
  \<open>applyEntry\<close> in two pieces: up to the call of \<open>Trigger\<close> that ends it, which touches the database
  only, and that call. Other goroutines can run between them.
\<close>

definition applyEntry_store :: "bool \<Rightarrow> bytes \<Rightarrow> Server \<Rightarrow> panic + ((u64 \<times> wait_value) option \<times> Server)" where
  "applyEntry_store f raw s =
     (if length raw = 0 then Inr (None, s)
      else
        (case unmarshalEnvelope raw of
           None \<Rightarrow> Inr (None, s)
         | Some (reqid, body) \<Rightarrow>
             and_then (DecodeRequest body) (\<lambda>res.
               case res of
                 Inl e \<Rightarrow> Inr (Some (reqid, WaitErr (SrvProto e)), s)
               | Inr rq \<Rightarrow>
                   if rqCmd rq = CmdPut
                   then Inr (Some (reqid, WaitNil), s\<lparr>sv_db := db_PutAsync f (sv_db s) (rqKey rq) (rqValue rq)\<rparr>)
                   else Inr (Some (reqid, WaitErr (SrvUnknownCmd (rqCmd rq))), s))))"

definition applyEntry :: "bool \<Rightarrow> bytes \<Rightarrow> Server \<Rightarrow> panic + Server" where
  "applyEntry f raw s =
     and_then (applyEntry_store f raw s)
       (\<lambda>(wake, s). Inr (case wake of None \<Rightarrow> s | Some (reqid, x) \<Rightarrow> Trigger reqid x s))"

definition applyBatch :: "bool \<Rightarrow> toApply \<Rightarrow> Server \<Rightarrow> panic + Server" where
  "applyBatch f ap s = fold_then (applyEntry f) (ap_data ap) s"

text \<open>Big-endian numbers; reading one from fewer than eight bytes panics.\<close>

definition PutUint64_be :: "u64 \<Rightarrow> bytes" where
  "PutUint64_be v = rev (PutUint64 v)"

definition Uint64_be :: "bytes \<Rightarrow> panic + u64" where
  "Uint64_be b = (if length b < 8 then Inl PanicIndexRange else Inr (Uint64 (rev (take 8 b))))"

datatype run_event = RunRead ReadState | RunApply toApply

text \<open>
  One round of \<open>run\<close> when nothing else runs; a failed compaction is only logged. Below,
  \<open>loop_take\<close> and \<open>loop_next\<close> are the same round in the pieces that other goroutines can come between.
\<close>

definition server_run_event :: "bool \<Rightarrow> disk_io \<Rightarrow> disk_io \<Rightarrow> run_event \<Rightarrow> Server \<Rightarrow> panic + Server" where
  "server_run_event f io cio ev s =
     (case ev of
        RunRead rs \<Rightarrow>
          and_then (Uint64_be (rsRequestCtx rs)) (\<lambda>reqid. Inr (Trigger reqid (WaitIndex (rsIndex rs)) s))
      | RunApply ap \<Rightarrow>
          and_then (applyBatch f ap s) (\<lambda>s.
            if appliedThru ap > 0 then
              (let s = s\<lparr>applyWait := timeList_Trigger (applyWait s) (appliedThru ap)\<rparr>
               in and_then (MaybeCompact io cio (sv_storage s) (appliedThru ap)) (\<lambda>(st, e). Inr (s\<lparr>sv_storage := st\<rparr>)))
            else Inr s))"

section \<open>Writes\<close>

text \<open>
  \<open>proposePut\<close> up to the call of the raft host, after it, and its final \<open>select\<close>. The first part
  returns the id, the channel and the data to propose, if any. A \<open>select\<close> takes any ready case;
  the choice is an argument and the result is \<open>None\<close> when that case is not ready.
\<close>

definition proposePut_start :: "bytes \<Rightarrow> bytes \<Rightarrow> Server \<Rightarrow> u64 \<times> nat \<times> bytes option \<times> Server" where
  "proposePut_start key val s =
     (let (reqid, s) = nextRequestID s;
          (ch, w) = wait_Register (sv_w s) reqid;
          s = s\<lparr>sv_w := w\<rparr>;
          rq = \<lparr>rqCmd = CmdPut, rqKey = key, rqValue = val, rqSeq = 0\<rparr>
      in case EncodeRequest rq of
           Inl e \<Rightarrow> (reqid, ch, None, Trigger reqid (WaitErr (SrvProto e)) s)
         | Inr encoded \<Rightarrow> (reqid, ch, Some (marshalEnvelope reqid encoded), s))"

definition proposePut_proposed :: "u64 \<Rightarrow> server_error option \<Rightarrow> Server \<Rightarrow> Server" where
  "proposePut_proposed reqid err s = (case err of None \<Rightarrow> s | Some e \<Rightarrow> Trigger reqid (WaitErr e) s)"

datatype wait_case = CaseValue | CaseDone server_error

definition proposePut_wait :: "wait_case \<Rightarrow> nat \<Rightarrow> Server \<Rightarrow> ((panic + server_error option) \<times> Server) option" where
  "proposePut_wait pick ch s =
     (case pick of
        CaseValue \<Rightarrow>
          (case wait_receive (sv_w s) ch of
             None \<Rightarrow> None
           | Some (x, w) \<Rightarrow>
               Some (case x of WaitNil \<Rightarrow> Inr None | WaitErr e \<Rightarrow> Inr (Some e) | WaitIndex _ \<Rightarrow> Inl PanicTypeAssertion,
                     s\<lparr>sv_w := w\<rparr>))
      | CaseDone e \<Rightarrow> Some (Inr (Some e), s))"

section \<open>Reads\<close>

text \<open>\<open>proposeRead\<close> up to the call of the raft host, after it, and its two \<open>select\<close>s.\<close>

definition proposeRead_start :: "Server \<Rightarrow> u64 \<times> nat \<times> bytes \<times> Server" where
  "proposeRead_start s =
     (let (rctx, s) = nextRequestID s;
          (ch, w) = wait_Register (sv_w s) rctx
      in (rctx, ch, PutUint64_be rctx, s\<lparr>sv_w := w\<rparr>))"

definition proposeRead_asked :: "u64 \<Rightarrow> server_error option \<Rightarrow> Server \<Rightarrow> Server" where
  "proposeRead_asked rctx err s = (case err of None \<Rightarrow> s | Some e \<Rightarrow> Trigger rctx WaitNil s)"

definition proposeRead_index :: "wait_case \<Rightarrow> u64 \<Rightarrow> nat \<Rightarrow> Server \<Rightarrow> ((panic + server_error + u64) \<times> Server) option" where
  "proposeRead_index pick rctx ch s =
     (case pick of
        CaseValue \<Rightarrow>
          (case wait_receive (sv_w s) ch of
             None \<Rightarrow> None
           | Some (v, w) \<Rightarrow>
               Some (case v of WaitIndex i \<Rightarrow> Inr (Inr i) | _ \<Rightarrow> Inl PanicTypeAssertion, s\<lparr>sv_w := w\<rparr>))
      | CaseDone e \<Rightarrow> Some (Inr (Inl e), Trigger rctx WaitNil s))"

definition proposeRead_enter :: "u64 \<Rightarrow> Server \<Rightarrow> nat \<times> Server" where
  "proposeRead_enter ridx s =
     (case timeList_Wait (applyWait s) ridx of (ch, aw) \<Rightarrow> (ch, s\<lparr>applyWait := aw\<rparr>))"

definition proposeRead_wait :: "wait_case \<Rightarrow> nat \<Rightarrow> Server \<Rightarrow> server_error option option" where
  "proposeRead_wait pick ch s =
     (case pick of
        CaseValue \<Rightarrow> if ch \<in> set (tl_closed (applyWait s)) then Some None else None
      | CaseDone e \<Rightarrow> Some (Some e))"

section \<open>Applying committed entries\<close>

text \<open>The write an entry stands for, if it is one.\<close>

definition entry_writes :: "bytes \<Rightarrow> (bytes \<times> bytes) list" where
  "entry_writes raw =
     (case unmarshalEnvelope raw of
        None \<Rightarrow> []
      | Some (reqid, body) \<Rightarrow>
          (case DecodeRequest body of
             Inr (Inr rq) \<Rightarrow> if rqCmd rq = CmdPut then [(rqKey rq, rqValue rq)] else []
           | _ \<Rightarrow> []))"

text \<open>The identifier it carries and the value with which it wakes that identifier's waiter.\<close>

definition entry_triggers :: "bytes \<Rightarrow> (u64 \<times> wait_value) list" where
  "entry_triggers raw =
     (case unmarshalEnvelope raw of
        None \<Rightarrow> []
      | Some (reqid, body) \<Rightarrow>
          (case DecodeRequest body of
             Inr (Inr rq) \<Rightarrow> [(reqid, if rqCmd rq = CmdPut then WaitNil else WaitErr (SrvUnknownCmd (rqCmd rq)))]
           | Inr (Inl e) \<Rightarrow> [(reqid, WaitErr (SrvProto e))]
           | Inl _ \<Rightarrow> []))"

lemma envelope_roundtrip [simp]: "unmarshalEnvelope (marshalEnvelope reqid p) = Some (reqid, p)"
proof -
  have "marshalEnvelope reqid p = PutUint64 reqid @ p"
    by (simp add: marshalEnvelope_def envelopeHeaderSize_def Let_def make_bytes_add put_bytes_def)
  then show ?thesis by (simp add: unmarshalEnvelope_def envelopeHeaderSize_def)
qed

lemma marshalEnvelope_not_Nil [simp]: "marshalEnvelope reqid p \<noteq> []"
  using envelope_roundtrip [of reqid p] by (auto simp: unmarshalEnvelope_def envelopeHeaderSize_def simp del: envelope_roundtrip)

lemma Trigger_fields [simp]:
  "sv_db (Trigger reqid x s) = sv_db s" "applyWait (Trigger reqid x s) = applyWait s" "sv_w (Trigger reqid x s) = wait_Trigger (sv_w s) reqid x"
  "sv_storage (Trigger reqid x s) = sv_storage s" "reqIDGen (Trigger reqid x s) = reqIDGen s"
  by (simp_all add: Trigger_def)

text \<open>Applying entries never panics; it puts their writes into the database and wakes their waiters.\<close>

lemma entry_triggers_cases:
  obtains "entry_triggers raw = []" | i x where "entry_triggers raw = [(i, x)]"
proof (cases "unmarshalEnvelope raw")
  case (Some p)
  obtain reqid body where "p = (reqid, body)" by (cases p)
  with Some DecodeRequest_cases [of body] that show thesis by (auto simp: entry_triggers_def)
qed (use that in \<open>simp add: entry_triggers_def\<close>)

lemma applyEntry_store_effect:
  "applyEntry_store f raw s = Inr (case entry_triggers raw of [] \<Rightarrow> None | t # _ \<Rightarrow> Some t,
     s\<lparr>sv_db := kv_store.apply_writes f (entry_writes raw) (sv_db s)\<rparr>)"
proof (cases "unmarshalEnvelope raw")
  case None
  then show ?thesis by (simp add: applyEntry_store_def entry_writes_def entry_triggers_def kv_store.apply_writes_def)
next
  case (Some p)
  obtain reqid body where p: "p = (reqid, body)" by (cases p)
  have ne: "raw \<noteq> []" using Some by (auto simp: unmarshalEnvelope_def envelopeHeaderSize_def)
  from DecodeRequest_cases [of body] show ?thesis
    using Some p ne by (auto simp: applyEntry_store_def entry_writes_def entry_triggers_def kv_store.apply_writes_def)
qed

lemma applyEntry_effect:
  "applyEntry f raw s = Inr (s\<lparr>sv_db := kv_store.apply_writes f (entry_writes raw) (sv_db s),
     sv_w := trigger_all wait_Trigger (sv_w s) (entry_triggers raw)\<rparr>)"
  by (rule entry_triggers_cases [of raw]) (simp_all add: applyEntry_def applyEntry_store_effect Trigger_def)

lemma trigger_all_append: "trigger_all f (trigger_all f w ts) us = trigger_all f w (ts @ us)"
  by (induction f w ts rule: trigger_all.induct) simp_all

lemma applyBatch_effect:
  "applyBatch f ap s = Inr (s\<lparr>sv_db := kv_store.apply_writes f (concat (map entry_writes (ap_data ap))) (sv_db s),
     sv_w := trigger_all wait_Trigger (sv_w s) (concat (map entry_triggers (ap_data ap)))\<rparr>)"
proof -
  have "fold_then (applyEntry f) raws s = Inr (s\<lparr>sv_db := kv_store.apply_writes f (concat (map entry_writes raws)) (sv_db s),
     sv_w := trigger_all wait_Trigger (sv_w s) (concat (map entry_triggers raws))\<rparr>)" for raws s
    by (induction raws arbitrary: s) (simp_all add: applyEntry_effect kv_store.apply_writes_def trigger_all_append)
  then show ?thesis by (simp add: applyBatch_def)
qed

text \<open>C21. Applying a batch of committed entries implements the key-value map: it never
  panics, whatever bytes the entries hold, and afterwards the database maps each key to the value of
  the last entry of the batch that writes it, or to what it held before.\<close>

theorem applying_refines_map:
  assumes "db_ok (sv_db s)"
  shows "\<exists>s'. applyBatch f \<lparr>ap_data = batch_data es, appliedThru = i\<rparr> s = Inr s' \<and> db_ok (sv_db s')
    \<and> db_value (sv_db s') = db_value (sv_db s) ++ last_write (concat (map (entry_writes \<circ> eData) es))
    \<and> (\<forall>k. db_readable (sv_db s') k \<longleftrightarrow> db_readable (sv_db s) k \<or> k \<in> fst ` set (concat (map (entry_writes \<circ> eData) es)))"
  using kv_store.apply_writes_contents [OF assms, of f]
  by (auto simp: batch_data_eq applyBatch_effect)

section \<open>Interleavings\<close>

text \<open>
  What the request handlers of a server do to the shared state, one piece at a time: the start of a
  put and its failed proposal, the outcome of its wait, the start of a read, its failed request, the
  outcome of its first wait, its second wait and its lookup in the database. A wait whose case is not
  ready leaves the state as it is.
\<close>

datatype handler_event =
    EvPut bytes bytes
  | EvPutErr u64 server_error
  | EvPutWait wait_case nat
  | EvRead
  | EvReadErr u64 server_error
  | EvIndex wait_case u64 nat
  | EvEnter u64
  | EvGet bool bytes

fun handler_step :: "handler_event \<Rightarrow> Server \<Rightarrow> panic + Server" where
  "handler_step (EvPut key val) s = Inr (snd (snd (snd (proposePut_start key val s))))"
| "handler_step (EvPutErr reqid e) s = Inr (proposePut_proposed reqid (Some e) s)"
| "handler_step (EvPutWait pick ch) s =
     (case proposePut_wait pick ch s of None \<Rightarrow> Inr s | Some (res, s') \<Rightarrow> and_then res (\<lambda>_. Inr s'))"
| "handler_step EvRead s = Inr (snd (snd (snd (proposeRead_start s))))"
| "handler_step (EvReadErr rctx e) s = Inr (proposeRead_asked rctx (Some e) s)"
| "handler_step (EvIndex pick rctx ch) s =
     (case proposeRead_index pick rctx ch s of None \<Rightarrow> Inr s | Some (res, s') \<Rightarrow> and_then res (\<lambda>_. Inr s'))"
| "handler_step (EvEnter ridx) s = Inr (snd (proposeRead_enter ridx s))"
| "handler_step (EvGet t key) s = Inr (s\<lparr>sv_db := snd (db_Get None t (sv_db s) key)\<rparr>)"

text \<open>
  Where \<open>run\<close> stands: in its \<open>select\<close>; in \<open>applyBatch\<close> with entries left, before the next entry or
  in \<open>applyEntry\<close> before the call of \<open>Trigger\<close>; before \<open>applyWait.Trigger\<close>; before \<open>MaybeCompact\<close>.
  Between any two of these points the handlers can run. \<open>lv_batches\<close> and \<open>lv_applied\<close> are history
  variables: the batches received and the entries put into the database so far.
\<close>

datatype run_point =
    RunSelect
  | RunEntries "bytes list" u64
  | RunWake u64 wait_value "bytes list" u64
  | RunTrigger u64
  | RunCompact u64

record running =
  lv_server :: Server
  lv_point :: run_point
  lv_batches :: "toApply list"
  lv_applied :: "bytes list"

definition loop_take :: "run_event \<Rightarrow> running \<Rightarrow> panic + running" where
  "loop_take ev L =
     (if lv_point L \<noteq> RunSelect then Inr L
      else
        (case ev of
           RunRead rs \<Rightarrow>
             and_then (Uint64_be (rsRequestCtx rs))
               (\<lambda>reqid. Inr (L\<lparr>lv_server := Trigger reqid (WaitIndex (rsIndex rs)) (lv_server L)\<rparr>))
         | RunApply ap \<Rightarrow>
             Inr (L\<lparr>lv_point := RunEntries (ap_data ap) (appliedThru ap), lv_batches := lv_batches L @ [ap]\<rparr>)))"

definition loop_next :: "bool \<Rightarrow> disk_io \<Rightarrow> disk_io \<Rightarrow> running \<Rightarrow> panic + running" where
  "loop_next f io cio L =
     (let s = lv_server L in
      case lv_point L of
        RunSelect \<Rightarrow> Inr L
      | RunEntries [] thru \<Rightarrow> Inr (L\<lparr>lv_point := if thru > 0 then RunTrigger thru else RunSelect\<rparr>)
      | RunEntries (raw # raws) thru \<Rightarrow>
          and_then (applyEntry_store f raw s) (\<lambda>(wake, s').
            Inr (L\<lparr>lv_server := s', lv_applied := lv_applied L @ [raw],
                   lv_point := (case wake of None \<Rightarrow> RunEntries raws thru | Some (reqid, x) \<Rightarrow> RunWake reqid x raws thru)\<rparr>))
      | RunWake reqid x raws thru \<Rightarrow> Inr (L\<lparr>lv_server := Trigger reqid x s, lv_point := RunEntries raws thru\<rparr>)
      | RunTrigger thru \<Rightarrow>
          Inr (L\<lparr>lv_server := s\<lparr>applyWait := timeList_Trigger (applyWait s) thru\<rparr>, lv_point := RunCompact thru\<rparr>)
      | RunCompact thru \<Rightarrow>
          and_then (MaybeCompact io cio (sv_storage s) thru)
            (\<lambda>(st, e). Inr (L\<lparr>lv_server := s\<lparr>sv_storage := st\<rparr>, lv_point := RunSelect\<rparr>)))"

datatype server_event =
    EvTake run_event
  | EvNext bool disk_io disk_io
  | EvHandler handler_event

fun server_step :: "server_event \<Rightarrow> running \<Rightarrow> panic + running" where
  "server_step (EvTake ev) L = loop_take ev L"
| "server_step (EvNext f io cio) L = loop_next f io cio L"
| "server_step (EvHandler h) L = and_then (handler_step h (lv_server L)) (\<lambda>s. Inr (L\<lparr>lv_server := s\<rparr>))"

definition server_run :: "server_event list \<Rightarrow> running \<Rightarrow> panic + running" where
  "server_run evs L = fold_then server_step evs L"

lemma server_run_simps [simp]:
  "server_run [] L = Inr L" "server_run (ev # evs) L = and_then (server_step ev L) (server_run evs)"
  by (simp_all add: server_run_def [abs_def])

lemma server_run_Cons: "server_run (ev # evs) L = Inr L' \<longleftrightarrow> (\<exists>L1. server_step ev L = Inr L1 \<and> server_run evs L1 = Inr L')"
  by (simp add: and_then_Inr_iff)

lemma server_run_append: "server_run (evs @ evs') L = and_then (server_run evs L) (server_run evs')"
proof (induction evs arbitrary: L)
  case (Cons ev evs)
  show ?case by (cases "server_step ev L") (simp_all add: Cons.IH)
qed simp

text \<open>With no handler in between, the pieces of a round make up \<open>server_run_event\<close>.\<close>

lemma loop_entries:
  assumes "lv_point L = RunEntries raws thru"
  shows "\<exists>k s. fold_then (applyEntry f) raws (lv_server L) = Inr s
    \<and> server_run (replicate k (EvNext f io cio)) L =
        Inr (L\<lparr>lv_server := s, lv_point := RunEntries [] thru, lv_applied := lv_applied L @ raws\<rparr>)"
  using assms
proof (induction raws arbitrary: L)
  case Nil
  then show ?case by (intro exI [of _ 0] exI [of _ "lv_server L"]) simp
next
  case (Cons raw raws)
  let ?s = "lv_server L"
  let ?st = "?s\<lparr>sv_db := kv_store.apply_writes f (entry_writes raw) (sv_db ?s)\<rparr>"
  let ?s1 = "?s\<lparr>sv_db := kv_store.apply_writes f (entry_writes raw) (sv_db ?s),
     sv_w := trigger_all wait_Trigger (sv_w ?s) (entry_triggers raw)\<rparr>"
  let ?L1 = "L\<lparr>lv_server := ?s1, lv_point := RunEntries raws thru, lv_applied := lv_applied L @ [raw]\<rparr>"
  have "\<exists>j. server_run (replicate j (EvNext f io cio)) L = Inr ?L1"
  proof (rule entry_triggers_cases [of raw])
    assume "entry_triggers raw = []"
    then show ?thesis using Cons.prems by (intro exI [of _ 1]) (simp add: loop_next_def applyEntry_store_effect Let_def)
  next
    fix i x assume "entry_triggers raw = [(i, x)]"
    then show ?thesis
      using Cons.prems by (intro exI [of _ 2]) (simp add: loop_next_def applyEntry_store_effect numeral_2_eq_2 Trigger_def Let_def)
  qed
  then obtain j where j: "server_run (replicate j (EvNext f io cio)) L = Inr ?L1" ..
  obtain k s where k: "fold_then (applyEntry f) raws ?s1 = Inr s"
    "server_run (replicate k (EvNext f io cio)) ?L1 =
        Inr (?L1\<lparr>lv_server := s, lv_point := RunEntries [] thru, lv_applied := lv_applied ?L1 @ raws\<rparr>)"
    using Cons.IH [of ?L1] by auto
  then show ?case
    using j by (intro exI [of _ "j + k"] exI [of _ s]) (simp add: applyEntry_effect [of f raw] replicate_add server_run_append)
qed

lemma loop_round:
  assumes "lv_point L = RunSelect" "server_run_event f io cio (RunApply ap) (lv_server L) = Inr s"
  shows "\<exists>k. server_run (EvTake (RunApply ap) # replicate k (EvNext f io cio)) L =
    Inr (L\<lparr>lv_server := s, lv_batches := lv_batches L @ [ap], lv_applied := lv_applied L @ ap_data ap\<rparr>)"
proof -
  let ?L0 = "L\<lparr>lv_point := RunEntries (ap_data ap) (appliedThru ap), lv_batches := lv_batches L @ [ap]\<rparr>"
  obtain k s1 where k: "fold_then (applyEntry f) (ap_data ap) (lv_server L) = Inr s1"
    "server_run (replicate k (EvNext f io cio)) ?L0 =
       Inr (?L0\<lparr>lv_server := s1, lv_point := RunEntries [] (appliedThru ap), lv_applied := lv_applied L @ ap_data ap\<rparr>)"
    using loop_entries [of ?L0 "ap_data ap" "appliedThru ap" f io cio] by auto
  have "\<exists>j. server_run (replicate j (EvNext f io cio))
      (?L0\<lparr>lv_server := s1, lv_point := RunEntries [] (appliedThru ap), lv_applied := lv_applied L @ ap_data ap\<rparr>) =
    Inr (L\<lparr>lv_server := s, lv_batches := lv_batches L @ [ap], lv_applied := lv_applied L @ ap_data ap\<rparr>)"
  proof (cases "appliedThru ap > 0")
    case True
    then show ?thesis
      using assms k(1) by (intro exI [of _ 3])
        (auto simp: loop_next_def server_run_event_def applyBatch_def Let_def numeral_3_eq_3 and_then_Inr_iff)
  next
    case False
    then show ?thesis
      using assms k(1) by (intro exI [of _ 1]) (simp add: loop_next_def server_run_event_def applyBatch_def)
  qed
  then obtain j where "server_run (replicate j (EvNext f io cio))
      (?L0\<lparr>lv_server := s1, lv_point := RunEntries [] (appliedThru ap), lv_applied := lv_applied L @ ap_data ap\<rparr>) =
    Inr (L\<lparr>lv_server := s, lv_batches := lv_batches L @ [ap], lv_applied := lv_applied L @ ap_data ap\<rparr>)" ..
  then show ?thesis
    using assms(1) k(2) by (intro exI [of _ "k + j"]) (simp add: loop_take_def replicate_add server_run_append)
qed

section \<open>The database of a running server\<close>

text \<open>What a piece of the loop does: it writes at most one entry, or wakes one waiter, or triggers an index.\<close>

lemma loop_next_cases:
  assumes "loop_next f io cio L = Inr L'"
  obtains (stay) "lv_point L = RunSelect" "L' = L"
  | (last) thru where "lv_point L = RunEntries [] thru" "L' = L\<lparr>lv_point := if thru > 0 then RunTrigger thru else RunSelect\<rparr>"
  | (entry) raw raws thru where "lv_point L = RunEntries (raw # raws) thru"
      "L' = L\<lparr>lv_server := (lv_server L)\<lparr>sv_db := kv_store.apply_writes f (entry_writes raw) (sv_db (lv_server L))\<rparr>,
         lv_applied := lv_applied L @ [raw],
         lv_point := (case entry_triggers raw of [] \<Rightarrow> RunEntries raws thru | (i, x) # _ \<Rightarrow> RunWake i x raws thru)\<rparr>"
  | (wake) i x raws thru where "lv_point L = RunWake i x raws thru"
      "L' = L\<lparr>lv_server := Trigger i x (lv_server L), lv_point := RunEntries raws thru\<rparr>"
  | (trigger) thru where "lv_point L = RunTrigger thru"
      "L' = L\<lparr>lv_server := (lv_server L)\<lparr>applyWait := timeList_Trigger (applyWait (lv_server L)) thru\<rparr>, lv_point := RunCompact thru\<rparr>"
  | (compact) thru st where "lv_point L = RunCompact thru"
      "L' = L\<lparr>lv_server := (lv_server L)\<lparr>sv_storage := st\<rparr>, lv_point := RunSelect\<rparr>"
proof (cases "lv_point L")
  case RunSelect
  moreover from this have "L' = L" using assms by (simp add: loop_next_def Let_def)
  ultimately show thesis by (rule stay)
next
  case (RunEntries raws thru)
  show thesis
  proof (cases raws)
    case Nil
    have "L' = L\<lparr>lv_point := if thru > 0 then RunTrigger thru else RunSelect\<rparr>"
      using assms RunEntries Nil by (simp add: loop_next_def)
    with RunEntries Nil show thesis by (intro last) simp_all
  next
    case (Cons raw raws')
    let ?s = "(lv_server L)\<lparr>sv_db := kv_store.apply_writes f (entry_writes raw) (sv_db (lv_server L))\<rparr>"
    have "L' = L\<lparr>lv_server := ?s, lv_applied := lv_applied L @ [raw],
        lv_point := (case entry_triggers raw of [] \<Rightarrow> RunEntries raws' thru | (i, x) # _ \<Rightarrow> RunWake i x raws' thru)\<rparr>"
      by (rule entry_triggers_cases [of raw])
        (use assms RunEntries Cons in \<open>simp_all add: loop_next_def applyEntry_store_effect Let_def\<close>)
    with RunEntries Cons show thesis by (intro entry) simp_all
  qed
next
  case (RunWake i x raws thru)
  moreover from this have "L' = L\<lparr>lv_server := Trigger i x (lv_server L), lv_point := RunEntries raws thru\<rparr>"
    using assms by (simp add: loop_next_def Let_def)
  ultimately show thesis by (rule wake)
next
  case (RunTrigger thru)
  moreover from this have "L' = L\<lparr>lv_server := (lv_server L)\<lparr>applyWait := timeList_Trigger (applyWait (lv_server L)) thru\<rparr>,
      lv_point := RunCompact thru\<rparr>"
    using assms by (simp add: loop_next_def Let_def)
  ultimately show thesis by (rule trigger)
next
  case (RunCompact thru)
  then obtain st e where "L' = L\<lparr>lv_server := (lv_server L)\<lparr>sv_storage := st\<rparr>, lv_point := RunSelect\<rparr>"
    using assms by (auto simp: loop_next_def Let_def and_then_Inr_iff)
  with RunCompact show thesis by (rule compact)
qed

lemma loop_take_cases:
  assumes "loop_take ev L = Inr L'"
  obtains (stay) "lv_point L \<noteq> RunSelect" "L' = L"
  | (read) rs i where "ev = RunRead rs" "lv_point L = RunSelect" "Uint64_be (rsRequestCtx rs) = Inr i"
      "L' = L\<lparr>lv_server := Trigger i (WaitIndex (rsIndex rs)) (lv_server L)\<rparr>"
  | (batch) ap where "ev = RunApply ap" "lv_point L = RunSelect"
      "L' = L\<lparr>lv_point := RunEntries (ap_data ap) (appliedThru ap), lv_batches := lv_batches L @ [ap]\<rparr>"
proof (cases "lv_point L = RunSelect")
  case False
  moreover from this have "L' = L" using assms by (simp add: loop_take_def)
  ultimately show thesis by (rule stay)
next
  case True
  show thesis
  proof (cases ev)
    case (RunRead rs)
    then obtain i where "Uint64_be (rsRequestCtx rs) = Inr i" "L' = L\<lparr>lv_server := Trigger i (WaitIndex (rsIndex rs)) (lv_server L)\<rparr>"
      using assms True by (auto simp: loop_take_def and_then_Inr_iff)
    with RunRead True show thesis by (intro read)
  next
    case (RunApply ap)
    moreover from this have "L' = L\<lparr>lv_point := RunEntries (ap_data ap) (appliedThru ap), lv_batches := lv_batches L @ [ap]\<rparr>"
      using assms True by (simp add: loop_take_def)
    ultimately show thesis using True by (intro batch)
  qed
qed

lemma handler_live: "server_step (EvHandler h) L = Inr L' \<longleftrightarrow> (\<exists>s. handler_step h (lv_server L) = Inr s \<and> L' = L\<lparr>lv_server := s\<rparr>)"
  by (auto simp: and_then_Inr_iff)

lemma last_write_Nil [simp]: "last_write [] = Map.empty"
  by (simp add: last_write_def)

lemmas handler_defs = proposePut_start_def proposePut_proposed_def proposePut_wait_def proposeRead_start_def
  proposeRead_asked_def proposeRead_index_def proposeRead_enter_def nextRequestID_def wait_Register_def Let_def

text \<open>Whatever a server does, its database stays well-formed and holds what the applied entries wrote.\<close>

definition all_readable :: "Server \<Rightarrow> bool" where
  "all_readable s \<longleftrightarrow> db_ok (sv_db s) \<and> (\<forall>k. db_readable (sv_db s) k)"

lemma handler_db:
  assumes "handler_step h s = Inr s'" "all_readable s"
  shows "all_readable s' \<and> db_value (sv_db s') = db_value (sv_db s)"
proof (cases h)
  case (EvGet t k)
  have ok: "db_ok (sv_db s)" "\<forall>k. db_readable (sv_db s) k" using assms(2) by (simp_all add: all_readable_def)
  show ?thesis
    using assms(1) ok EvGet kv_store.get_inv [OF ok(1), of k t] kv_store.get_contents [OF ok(1), of k t] kv_store.get_ok [OF ok(1), of k _ t]
    by (auto simp: all_readable_def)
qed (use assms in \<open>auto simp: all_readable_def handler_defs split: option.splits sum.splits prod.splits wait_case.splits wait_value.splits\<close>)

lemma step_db:
  assumes "server_step ev L = Inr L'" "all_readable (lv_server L)"
  shows "all_readable (lv_server L') \<and> (\<exists>raws. lv_applied L' = lv_applied L @ raws
    \<and> db_value (sv_db (lv_server L')) = db_value (sv_db (lv_server L)) ++ last_write (concat (map entry_writes raws)))"
proof (cases ev)
  case (EvTake e)
  then have "loop_take e L = Inr L'" using assms(1) by simp
  then show ?thesis by (cases rule: loop_take_cases) (use assms(2) in \<open>auto simp: all_readable_def\<close>)
next
  case (EvNext f io cio)
  then have "loop_next f io cio L = Inr L'" using assms(1) by simp
  then show ?thesis
  proof (cases rule: loop_next_cases)
    case (entry raw raws thru)
    with assms(2) kv_store.apply_writes_contents [of "sv_db (lv_server L)" f "entry_writes raw"] show ?thesis
      by (auto simp: all_readable_def intro!: exI [of _ "[raw]"])
  qed (use assms(2) in \<open>auto simp: all_readable_def\<close>)
next
  case (EvHandler h)
  with assms(1) obtain s where "handler_step h (lv_server L) = Inr s" "L' = L\<lparr>lv_server := s\<rparr>" by (auto simp: handler_live simp del: server_step.simps)
  with handler_db [of h "lv_server L" s] assms(2) show ?thesis by auto
qed

lemma run_db:
  assumes "server_run evs L = Inr L'" "all_readable (lv_server L)"
  shows "all_readable (lv_server L') \<and> (\<exists>raws. lv_applied L' = lv_applied L @ raws
    \<and> db_value (sv_db (lv_server L')) = db_value (sv_db (lv_server L)) ++ last_write (concat (map entry_writes raws)))"
  using assms
proof (induction evs arbitrary: L)
  case (Cons ev evs)
  then obtain L1 where L1: "server_step ev L = Inr L1" "server_run evs L1 = Inr L'" by (auto simp: server_run_Cons simp del: server_run_simps)
  obtain raws where 1: "all_readable (lv_server L1)" "lv_applied L1 = lv_applied L @ raws"
      "db_value (sv_db (lv_server L1)) = db_value (sv_db (lv_server L)) ++ last_write (concat (map entry_writes raws))"
    using step_db [OF L1(1) Cons.prems(2)] by blast
  obtain raws' where "all_readable (lv_server L')" "lv_applied L' = lv_applied L1 @ raws'"
      "db_value (sv_db (lv_server L')) = db_value (sv_db (lv_server L1)) ++ last_write (concat (map entry_writes raws'))"
    using Cons.IH [OF L1(2) 1(1)] by blast
  then show ?case using 1 by (auto intro!: exI [of _ "raws @ raws'"] simp: last_write_append)
qed (simp add: exI [of _ "[]"])

section \<open>Reads\<close>

text \<open>Batches that continue a log: their entries are the next ones, and each is labelled with the index
  of its last entry, as the raft host sends them.\<close>

definition ready_batch :: "Entry list \<Rightarrow> toApply" where
  "ready_batch es = \<lparr>ap_data = batch_data es, appliedThru = eIndex (last es)\<rparr>"

definition continues :: "Entry list \<Rightarrow> nat \<Rightarrow> Entry list list \<Rightarrow> bool" where
  "continues l n bs \<longleftrightarrow> (\<forall>es \<in> set bs. es \<noteq> []) \<and> concat bs = take (length (concat bs)) (drop n l)"

definition numbered :: "Entry list \<Rightarrow> bool" where
  "numbered l \<longleftrightarrow> (\<forall>i < length l. unat (eIndex (l ! i)) = Suc i)"

lemma continues_Cons:
  assumes "continues l n (es # bs)"
  shows "es \<noteq> []" "es = take (length es) (drop n l)" "continues l (n + length es) bs" "n + length es \<le> length l"
proof -
  show ne: "es \<noteq> []" using assms by (simp add: continues_def)
  have c: "es @ concat bs = take (length es + length (concat bs)) (drop n l)" using assms by (simp add: continues_def)
  from arg_cong [OF c, of "take (length es)"] show es: "es = take (length es) (drop n l)" by simp
  from arg_cong [OF c, of "drop (length es)"] have "concat bs = take (length (concat bs)) (drop (n + length es) l)"
    by (simp add: drop_take add.commute)
  then show "continues l (n + length es) bs" using assms by (simp add: continues_def)
  have "length es \<le> length l - n" using arg_cong [OF es, of length] by simp
  then show "n + length es \<le> length l" using ne by (cases es) auto
qed

lemma last_continues:
  assumes "continues l n (es # bs)" "numbered l"
  shows "unat (eIndex (last es)) = n + length es"
proof -
  note c = continues_Cons [OF assms(1)]
  obtain m where m: "length es = Suc m" using c(1) by (cases es) simp_all
  have "last es = es ! m" using last_conv_nth [OF c(1)] m by simp
  also have "\<dots> = l ! (n + m)" using arg_cong [OF c(2), of "\<lambda>xs. xs ! m"] m c(4) by simp
  finally show ?thesis using assms(2) m c(4) by (simp add: numbered_def)
qed

lemma Wait_keeps_deadline [simp]: "lastTriggerDeadline (snd (timeList_Wait t d)) = lastTriggerDeadline t"
  by (simp add: timeList_Wait_def Let_def split: option.split)

lemma continues_take:
  assumes "continues l n bs"
  shows "continues l n (take k bs)"
proof -
  have c: "concat (take k bs) @ concat (drop k bs) = take (length (concat bs)) (drop n l)"
    using assms by (simp add: continues_def flip: concat_append)
  have len: "length (concat (take k bs)) \<le> length (concat bs)"
    by (subst (2) append_take_drop_id [of k bs, symmetric]) (simp only: concat_append length_append le_add1)
  from arg_cong [OF c, of "take (length (concat (take k bs)))"] len
  have "concat (take k bs) = take (length (concat (take k bs))) (drop n l)" by (simp add: min_def)
  with assms show ?thesis by (auto simp: continues_def dest: in_set_takeD)
qed

lemma continues_snoc:
  assumes "continues l n (bs @ [es])"
  shows "continues l (n + length (concat bs)) [es]"
proof -
  have "concat bs @ es = take (length (concat bs) + length es) (drop n l)" using assms by (simp add: continues_def)
  from arg_cong [OF this, of "drop (length (concat bs))"] have "es = take (length es) (drop (n + length (concat bs)) l)"
    by (simp add: drop_take add.commute)
  with assms show ?thesis by (simp add: continues_def)
qed

text \<open>
  The loop between its points. \<open>bs\<close> are the batches of a log \<open>l\<close> from position \<open>n\<close> on; the
  entries applied and those left in the current batch are those of the batches received, and the
  index triggered last does not run ahead of them.
\<close>

fun left :: "run_point \<Rightarrow> bytes list" where
  "left (RunEntries raws thru) = raws"
| "left (RunWake i x raws thru) = raws"
| "left _ = []"

fun point_thru :: "run_point \<Rightarrow> u64 option" where
  "point_thru (RunEntries raws thru) = Some thru"
| "point_thru (RunWake i x raws thru) = Some thru"
| "point_thru (RunTrigger thru) = Some thru"
| "point_thru _ = None"

definition received :: "Entry list list \<Rightarrow> running \<Rightarrow> bool" where
  "received bs L \<longleftrightarrow> lv_batches L = map ready_batch (take (length (lv_batches L)) bs)"

definition loop_inv :: "nat \<Rightarrow> Entry list list \<Rightarrow> running \<Rightarrow> bool" where
  "loop_inv n bs L \<longleftrightarrow>
     (let a = n + length (lv_applied L); d = unat (lastTriggerDeadline (applyWait (lv_server L))) in
      map eData (concat (take (length (lv_batches L)) bs)) = lv_applied L @ left (lv_point L) \<and> d \<le> a
      \<and> (case point_thru (lv_point L) of None \<Rightarrow> d = a | Some thru \<Rightarrow> unat thru = a + length (left (lv_point L))))"

lemma handler_time:
  assumes "handler_step h s = Inr s'"
  shows "applyWait s' = foldl time_step (applyWait s) (case h of EvEnter d \<Rightarrow> [TWait d] | _ \<Rightarrow> [])"
  using assms
  by (cases h) (auto simp: handler_defs split: option.splits sum.splits prod.splits wait_case.splits wait_value.splits)

lemma handler_deadline:
  "handler_step h s = Inr s' \<Longrightarrow> lastTriggerDeadline (applyWait s') = lastTriggerDeadline (applyWait s)"
  by (auto dest!: handler_time split: handler_event.splits)

lemma step_batches: "server_step ev L = Inr L' \<Longrightarrow> \<exists>aps. lv_batches L' = lv_batches L @ aps"
  by (cases ev) (auto elim!: loop_take_cases loop_next_cases simp: and_then_Inr_iff)

lemma run_batches: "server_run evs L = Inr L' \<Longrightarrow> \<exists>aps. lv_batches L' = lv_batches L @ aps"
proof (induction evs arbitrary: L)
  case (Cons ev evs)
  then obtain L1 where "server_step ev L = Inr L1" "server_run evs L1 = Inr L'" by (auto simp: and_then_Inr_iff)
  with Cons.IH [of L1] step_batches [of ev L L1] show ?case by auto
qed simp

lemma received_before:
  assumes "received bs L'" "server_run evs L = Inr L'"
  shows "received bs L"
proof -
  obtain aps where aps: "lv_batches L' = lv_batches L @ aps" using run_batches [OF assms(2)] by blast
  have "lv_batches L @ aps = map ready_batch (take (length (lv_batches L @ aps)) bs)"
    using assms(1) unfolding received_def aps .
  from arg_cong [OF this, of "take (length (lv_batches L))"] show ?thesis by (simp add: received_def take_map)
qed

lemma loop_inv_step:
  assumes "server_step ev L = Inr L'" "loop_inv n bs L" "received bs L'" "continues l n bs" "numbered l"
  shows "loop_inv n bs L'"
proof (cases ev)
  case (EvTake e)
  then have "loop_take e L = Inr L'" using assms(1) by simp
  then show ?thesis
  proof (cases rule: loop_take_cases)
    case (batch ap)
    let ?k = "length (lv_batches L)"
    have "length (lv_batches L') \<le> length bs" using arg_cong [OF assms(3) [unfolded received_def], of length] by simp
    then have t: "take (Suc ?k) bs = take ?k bs @ [bs ! ?k]" using batch by (simp add: take_Suc_conv_app_nth)
    have "lv_batches L @ [ap] = map ready_batch (take ?k bs) @ [ready_batch (bs ! ?k)]"
      using assms(3) batch(3) t by (simp add: received_def)
    then have ap: "ap = ready_batch (bs ! ?k)" by (simp add: append_eq_append_conv2) auto
    have "continues l n (take ?k bs @ [bs ! ?k])" using continues_take [OF assms(4), of "Suc ?k"] t by simp
    note c = continues_snoc [OF this]
    have ad: "map eData (concat (take ?k bs)) = lv_applied L" using assms(2) batch(2) by (simp add: loop_inv_def Let_def)
    have "length (concat (take ?k bs)) = length (lv_applied L)" using ad by (metis length_map)
    then have "unat (eIndex (last (bs ! ?k))) = n + length (lv_applied L) + length (bs ! ?k)"
      using last_continues [OF c assms(5)] by (simp only:)
    then show ?thesis
      using assms(2) batch ad t by (simp add: loop_inv_def Let_def ap ready_batch_def batch_data_eq)
  qed (use assms(2) in \<open>auto simp: loop_inv_def\<close>)
next
  case (EvNext f io cio)
  then have "loop_next f io cio L = Inr L'" using assms(1) by simp
  then show ?thesis
  proof (cases rule: loop_next_cases)
    case (last thru)
    have "unat thru = 0" if "\<not> 0 < thru" using that by (simp add: word_less_nat_alt)
    then show ?thesis using assms(2) last by (auto simp: loop_inv_def Let_def)
  next
    case (entry raw raws thru)
    show ?thesis
      by (rule entry_triggers_cases [of raw]) (use assms(2) entry in \<open>simp_all add: loop_inv_def Let_def\<close>)
  qed (use assms(2) in \<open>simp_all add: loop_inv_def Let_def timeList_Trigger_def\<close>)
next
  case (EvHandler h)
  with assms(1) obtain s where "handler_step h (lv_server L) = Inr s" "L' = L\<lparr>lv_server := s\<rparr>" by (auto simp: and_then_Inr_iff)
  with assms(2) handler_deadline [of h] show ?thesis by (simp add: loop_inv_def Let_def split: option.splits)
qed

lemma loop_inv_run:
  assumes "server_run evs L = Inr L'" "loop_inv n bs L" "received bs L'" "continues l n bs" "numbered l"
  shows "loop_inv n bs L'"
  using assms
proof (induction evs arbitrary: L)
  case (Cons ev evs)
  then obtain L1 where L1: "server_step ev L = Inr L1" "server_run evs L1 = Inr L'" by (auto simp: and_then_Inr_iff)
  then show ?case
    using Cons.IH [OF L1(2) loop_inv_step [OF L1(1) Cons.prems(2) received_before [OF Cons.prems(3) L1(2)] Cons.prems(4,5)]]
      Cons.prems(3-5) by blast
qed simp

text \<open>The wait of a read for index \<open>ridx\<close> on channel \<open>ch\<close>: open until the index is triggered.\<close>

definition awaits :: "u64 \<Rightarrow> nat \<Rightarrow> timeList \<Rightarrow> bool" where
  "awaits ridx ch t \<longleftrightarrow> time_ok t \<and>
     (ridx \<le> lastTriggerDeadline t \<and> ch \<in> set (tl_closed t) \<or> lastTriggerDeadline t < ridx \<and> (ridx, ch) \<in> set (tl_m t))"

lemma awaits_closed: "awaits ridx ch t \<Longrightarrow> ch \<in> set (tl_closed t) \<longleftrightarrow> ridx \<le> lastTriggerDeadline t"
  using waiting_closes [of t "[]" ridx ch] by (simp add: awaits_def)

lemma awaits_Wait:
  assumes "awaits ridx ch t"
  shows "awaits ridx ch (snd (timeList_Wait t d))"
proof -
  obtain c t' where w: "timeList_Wait t d = (c, t')" by fastforce
  have "time_ok t" using assms by (simp add: awaits_def)
  from time_ok_Wait [OF this w] assms w show ?thesis by (auto simp: awaits_def)
qed

lemma awaits_Trigger:
  assumes "awaits ridx ch t" "lastTriggerDeadline t \<le> d"
  shows "awaits ridx ch (timeList_Trigger t d)"
  using assms time_ok_Trigger [of t d] by (force simp: awaits_def timeList_Trigger_def)

lemma awaits_run:
  assumes "server_run evs L = Inr L'" "loop_inv n bs L" "received bs L'" "continues l n bs" "numbered l"
    and "awaits ridx ch (applyWait (lv_server L))"
  shows "awaits ridx ch (applyWait (lv_server L'))
    \<and> unat (lastTriggerDeadline (applyWait (lv_server L))) \<le> unat (lastTriggerDeadline (applyWait (lv_server L')))"
  using assms
proof (induction evs arbitrary: L)
  case (Cons ev evs)
  then obtain L1 where L1: "server_step ev L = Inr L1" "server_run evs L1 = Inr L'" by (auto simp: and_then_Inr_iff)
  have inv: "loop_inv n bs L1" using loop_inv_step [OF L1(1) Cons.prems(2) received_before [OF Cons.prems(3) L1(2)] Cons.prems(4,5)] .
  have "awaits ridx ch (applyWait (lv_server L1))
    \<and> unat (lastTriggerDeadline (applyWait (lv_server L))) \<le> unat (lastTriggerDeadline (applyWait (lv_server L1)))"
  proof (cases ev)
    case (EvTake e)
    then have "loop_take e L = Inr L1" using L1(1) by simp
    then show ?thesis by (cases rule: loop_take_cases) (use Cons.prems(6) in auto)
  next
    case (EvNext f io cio)
    then have "loop_next f io cio L = Inr L1" using L1(1) by simp
    then show ?thesis
    proof (cases rule: loop_next_cases)
      case (trigger thru)
      then have "lastTriggerDeadline (applyWait (lv_server L)) \<le> thru"
        using Cons.prems(2) by (simp add: loop_inv_def Let_def word_le_nat_alt)
      then show ?thesis
        using trigger(2) awaits_Trigger [OF Cons.prems(6)] by (simp add: word_le_nat_alt timeList_Trigger_def)
    qed (use Cons.prems(6) in simp_all)
  next
    case (EvHandler h)
    with L1(1) obtain s where s: "handler_step h (lv_server L) = Inr s" "L1 = L\<lparr>lv_server := s\<rparr>" by (auto simp: and_then_Inr_iff)
    show ?thesis
      using handler_time [OF s(1)] Cons.prems(6) awaits_Wait [OF Cons.prems(6)] unfolding s(2)
      by (auto split: handler_event.splits)
  qed
  with Cons.IH [OF L1(2) inv Cons.prems(3-5)] show ?case by auto
qed simp

lemma applied_prefix:
  assumes "loop_inv n bs L" "received bs L" "continues l n bs"
  shows "lv_applied L = map eData (take (length (lv_applied L)) (drop n l))"
proof -
  define c m where "c = concat (take (length (lv_batches L)) bs)" and "m = length (lv_applied L)"
  have c: "c = take (length c) (drop n l)" using continues_take [OF assms(3)] unfolding c_def by (simp add: continues_def)
  have e: "map eData c = lv_applied L @ left (lv_point L)" using assms(1) by (simp add: loop_inv_def Let_def c_def)
  then have "length (map eData c) = m + length (left (lv_point L))" by (simp add: m_def)
  then have "m \<le> length c" by simp
  have "lv_applied L = take m (map eData c)" by (simp add: e m_def)
  also have "\<dots> = map eData (take m (take (length c) (drop n l)))" using c by (metis take_map)
  finally show ?thesis using \<open>m \<le> length c\<close> by (simp add: min_def m_def)
qed

lemma time_ok_run:
  assumes "server_run evs L = Inr L'" "loop_inv n bs L" "received bs L'" "continues l n bs" "numbered l"
    and "time_ok (applyWait (lv_server L))"
  shows "time_ok (applyWait (lv_server L'))"
proof -
  have "awaits 0 0 (applyWait (lv_server L))" using assms(6) time_okD(3) [OF assms(6)] by (simp add: awaits_def)
  from awaits_run [OF assms(1-5) this] show ?thesis by (simp add: awaits_def)
qed

lemma enter_awaits:
  assumes "proposeRead_enter ridx s = (ch, s')" "time_ok (applyWait s)"
  shows "awaits ridx ch (applyWait s')"
proof -
  obtain aw where w: "timeList_Wait (applyWait s) ridx = (ch, aw)" "s' = s\<lparr>applyWait := aw\<rparr>"
    using assms(1) by (auto simp: proposeRead_enter_def split: prod.splits)
  show ?thesis using time_ok_Wait [OF assms(2) w(1)] time_okD(3) [OF assms(2)] w(2) by (auto simp: awaits_def)
qed

lemma applied_value:
  assumes "loop_inv n bs L" "received bs L" "continues l n bs"
  shows "last_write (concat (map (entry_writes \<circ> eData) (take n l))) ++ last_write (concat (map entry_writes (lv_applied L)))
    = last_write (concat (map (entry_writes \<circ> eData) (take (n + length (lv_applied L)) l)))"
proof -
  have "map entry_writes (lv_applied L) = map (entry_writes \<circ> eData) (take (length (lv_applied L)) (drop n l))"
    using applied_prefix [OF assms] by (metis map_map)
  then show ?thesis by (simp add: take_add last_write_append)
qed

text \<open>C17. Reads are linearizable. The loop applies the log batch by batch and the read may enter its
  wait for \<open>ridx\<close> at any point of a round, also in the middle of a batch; before, during and after
  the wait the pieces of the loop and of other handlers interleave in any order. The wait is over
  exactly when the loop has triggered an index of at least \<open>ridx\<close>; in its \<open>select\<close> the loop has
  triggered everything it applied. From then on a lookup sees the effect of a whole prefix of the log,
  the entries applied so far, that reaches at least \<open>ridx\<close>. The premises say that the batches are those of
  the log with their last index, that the loop was in its \<open>select\<close> at first, and that every key of the database can be read.\<close>

theorem read_waits_for_log:
  assumes "db_ok (sv_db (lv_server L))" "\<forall>k. db_readable (sv_db (lv_server L)) k" "time_ok (applyWait (lv_server L))"
    and "lv_point L = RunSelect" "lv_batches L = []" "lv_applied L = []"
    and "numbered l" "unat (lastTriggerDeadline (applyWait (lv_server L))) = n"
    and "db_value (sv_db (lv_server L)) = base ++ last_write (concat (map (entry_writes \<circ> eData) (take n l)))"
    and "server_run evs0 L = Inr L0" "proposeRead_enter ridx (lv_server L0) = (ch, s)"
    and "server_run evs1 (L0\<lparr>lv_server := s\<rparr>) = Inr L1" "server_run evs2 L1 = Inr L2"
    and "lv_batches L2 = map ready_batch bs" "continues l n bs"
  shows "(proposeRead_wait CaseValue ch (lv_server L1) = Some None \<longleftrightarrow> ridx \<le> lastTriggerDeadline (applyWait (lv_server L1)))
    \<and> (lv_point L1 = RunSelect \<longrightarrow> unat (lastTriggerDeadline (applyWait (lv_server L1))) = n + length (lv_applied L1))
    \<and> (proposeRead_wait CaseValue ch (lv_server L1) = Some None \<longrightarrow> unat ridx \<le> n + length (lv_applied L2))
    \<and> fst (db_Get None b (sv_db (lv_server L2)) k) =
        (base ++ last_write (concat (map (entry_writes \<circ> eData) (take (n + length (lv_applied L2)) l)))) k"
proof -
  let ?L = "L0\<lparr>lv_server := s\<rparr>"
  have run: "server_run (evs0 @ EvHandler (EvEnter ridx) # evs1 @ evs2) L = Inr L2"
    using assms(10-13) by (simp add: server_run_append)
  have bs2: "received bs L2" using assms(14) by (simp add: received_def)
  have bs1: "received bs L1" using received_before [OF bs2 assms(13)] .
  have inv: "loop_inv n bs L" using assms(4-6,8) by (simp add: loop_inv_def)
  have run0: "server_run (evs0 @ [EvHandler (EvEnter ridx)]) L = Inr ?L" using assms(10,11) by (simp add: server_run_append)
  have inv0: "loop_inv n bs ?L"
    using loop_inv_run [OF run0 inv received_before [OF bs1 assms(12)] assms(15,7)] .
  have inv1: "loop_inv n bs L1" using loop_inv_run [OF assms(12) inv0 bs1 assms(15,7)] .
  have inv2: "loop_inv n bs L2" using loop_inv_run [OF assms(13) inv1 bs2 assms(15,7)] .
  have bs0: "received bs L0" using received_before [OF bs1 assms(12)] by (simp add: received_def)
  have "awaits ridx ch (applyWait (lv_server ?L))"
    using enter_awaits [OF assms(11) time_ok_run [OF assms(10) inv bs0 assms(15,7,3)]] by simp
  from awaits_run [OF assms(12) inv0 bs1 assms(15,7) this]
  have a1: "awaits ridx ch (applyWait (lv_server L1))" by blast
  from awaits_run [OF assms(13) inv1 bs2 assms(15,7) this]
  have mono: "unat (lastTriggerDeadline (applyWait (lv_server L1))) \<le> unat (lastTriggerDeadline (applyWait (lv_server L2)))" by blast
  have ready: "proposeRead_wait CaseValue ch (lv_server L1) = Some None \<longleftrightarrow> ridx \<le> lastTriggerDeadline (applyWait (lv_server L1))"
    using awaits_closed [OF a1] by (simp add: proposeRead_wait_def)
  have sel: "unat (lastTriggerDeadline (applyWait (lv_server L1))) = n + length (lv_applied L1)" if "lv_point L1 = RunSelect"
    using inv1 that by (simp add: loop_inv_def Let_def)
  have "unat (lastTriggerDeadline (applyWait (lv_server L2))) \<le> n + length (lv_applied L2)"
    using inv2 by (simp add: loop_inv_def Let_def)
  with mono have upto: "unat ridx \<le> n + length (lv_applied L2)" if "ridx \<le> lastTriggerDeadline (applyWait (lv_server L1))"
    using that by (simp add: word_le_nat_alt)
  have db: "db_ok (sv_db (lv_server L2))" "\<forall>k. db_readable (sv_db (lv_server L2)) k"
      "db_value (sv_db (lv_server L2)) = db_value (sv_db (lv_server L)) ++ last_write (concat (map entry_writes (lv_applied L2)))"
    using run_db [OF run] assms(1,2,6) by (simp_all add: all_readable_def)
  then have "db_value (sv_db (lv_server L2)) = base ++ last_write (concat (map (entry_writes \<circ> eData) (take (n + length (lv_applied L2)) l)))"
    using applied_value [OF inv2 bs2 assms(15)] assms(9) by (simp flip: map_add_assoc)
  then show ?thesis using ready sel upto kv_store.get_result [OF db(1), of k b] db(2) by simp
qed

section \<open>Writes\<close>

text \<open>Events that concern the request \<open>reqid\<close> waiting on \<open>ch\<close>: those of its own handler, and a read
  state that carries its identifier.\<close>

fun concerns :: "u64 \<Rightarrow> nat \<Rightarrow> server_event \<Rightarrow> bool" where
  "concerns reqid ch (EvTake (RunRead rs)) \<longleftrightarrow> Uint64_be (rsRequestCtx rs) = Inr reqid"
| "concerns reqid ch (EvHandler (EvPutErr i e)) \<longleftrightarrow> i = reqid"
| "concerns reqid ch (EvHandler (EvPutWait pick c)) \<longleftrightarrow> c = ch"
| "concerns reqid ch (EvHandler (EvReadErr i e)) \<longleftrightarrow> i = reqid"
| "concerns reqid ch (EvHandler (EvIndex pick i c)) \<longleftrightarrow> i = reqid \<or> c = ch"
| "concerns reqid ch _ \<longleftrightarrow> False"

definition put_state :: "u64 \<Rightarrow> nat \<Rightarrow> bool \<Rightarrow> wait_value waitList \<Rightarrow> bool" where
  "put_state reqid ch seen w \<longleftrightarrow> wait_ok w \<and>
     (if seen then w_chans w ch = [WaitNil] \<and> ch \<notin> ran (w_m w) else w_m w reqid = Some ch)"

lemma put_state_triggers:
  assumes "put_state reqid ch seen w" "map_of ts reqid = (if d then Some WaitNil else None)"
  shows "put_state reqid ch (seen \<or> d) (trigger_all wait_Trigger w ts)"
proof -
  have w: "wait_ok w" using assms(1) by (simp add: put_state_def)
  note r = wait_list.trigger_all_registered [OF w, of ts]
  have ok: "wait_ok (trigger_all wait_Trigger w ts)" by (rule wait_list.ok_trigger_all [OF w])
  have ran: "ch \<notin> ran (w_m (trigger_all wait_Trigger w ts))" if "ch \<notin> ran (w_m w)"
    using that r by (auto simp: ran_def split: if_split_asm)
  show ?thesis
  proof (cases seen)
    case True
    then show ?thesis using assms(1) ok ran wait_list.unregistered_stays [OF w, of ch ts] by (simp add: put_state_def)
  next
    case False
    then have reg: "w_m w reqid = Some ch" using assms(1) by (simp add: put_state_def)
    have "ch \<notin> ran (w_m (trigger_all wait_Trigger w ts))" if d
      using that r wait_list.ok_inj [OF w reg] assms(2) by (auto simp: ran_def split: if_split_asm)
    then show ?thesis
      using False ok reg r [of reqid] wait_list.first_trigger_wins [OF w reg, of ts] assms(2) by (auto simp: put_state_def)
  qed
qed

lemma put_state_trigger: "put_state reqid ch seen w \<Longrightarrow> i \<noteq> reqid \<Longrightarrow> put_state reqid ch seen (wait_Trigger w i x)"
  using put_state_triggers [of reqid ch seen w "[(i, x)]" False] by simp

lemma put_state_register:
  assumes "put_state reqid ch seen w" "i \<noteq> reqid"
  shows "put_state reqid ch seen (snd (wait_Register w i))"
proof -
  obtain c w' where c: "wait_Register w i = (c, w')" by fastforce
  have "wait_ok w" using assms(1) by (simp add: put_state_def)
  note r = wait_list.ok_register [OF this c]
  have "ran ((w_m w)(i \<mapsto> c)) \<subseteq> insert c (ran (w_m w))" by (auto simp: ran_def)
  then show ?thesis using assms r c by (auto simp: put_state_def)
qed

lemma put_state_receive:
  "put_state reqid ch seen w \<Longrightarrow> c \<noteq> ch \<Longrightarrow> wait_receive w c = Some (x, w') \<Longrightarrow> put_state reqid ch seen w'"
  using wait_ok_receive [of w c x w'] by (auto simp: put_state_def wait_receive_def split: list.splits)

text \<open>The entry a put proposes.\<close>

lemma put_entry:
  assumes "EncodeRequest \<lparr>rqCmd = CmdPut, rqKey = key, rqValue = val, rqSeq = 0\<rparr> = Inr encoded"
  shows "entry_writes (marshalEnvelope reqid encoded) = [(key, val)]" "entry_triggers (marshalEnvelope reqid encoded) = [(reqid, WaitNil)]"
  using DecodeRequest_bytes [of "\<lparr>rqCmd = CmdPut, rqKey = key, rqValue = val, rqSeq = 0\<rparr>"] assms
  by (simp_all add: EncodeRequest_eq entry_writes_def entry_triggers_def split: if_split_asm)

lemma triggers_id: "(i, x) \<in> set (entry_triggers raw) \<Longrightarrow> \<exists>body. unmarshalEnvelope raw = Some (i, body)"
proof (cases "unmarshalEnvelope raw")
  case (Some p)
  assume i: "(i, x) \<in> set (entry_triggers raw)"
  obtain reqid body where p: "p = (reqid, body)" by (cases p)
  from DecodeRequest_cases [of body] have "i = reqid" using i Some p by (auto simp: entry_triggers_def)
  then show ?thesis using Some p by simp
qed (simp add: entry_triggers_def)

lemma batch_triggers:
  assumes "\<forall>raw \<in> set raws. \<forall>body. unmarshalEnvelope raw = Some (reqid, body) \<longrightarrow> raw = data" "entry_triggers data = [(reqid, WaitNil)]"
  shows "map_of (concat (map entry_triggers raws)) reqid = (if data \<in> set raws then Some WaitNil else None)"
  using assms(1)
proof (induction raws)
  case (Cons raw raws)
  show ?case
  proof (cases "raw = data")
    case False
    then have "map_of (entry_triggers raw) reqid = None" using Cons.prems triggers_id [of reqid _ raw] by (auto simp: map_of_eq_None_iff)
    then show ?thesis using Cons False by (simp add: map_add_def)
  qed (simp add: assms(2))
qed simp

text \<open>The entries whose waiter has been woken: all that are applied, but not the one the loop is
  about to wake.\<close>

definition woken :: "running \<Rightarrow> bytes list" where
  "woken L = (case lv_point L of RunWake i x raws thru \<Rightarrow> butlast (lv_applied L) | _ \<Rightarrow> lv_applied L)"

definition pending_wake :: "u64 \<Rightarrow> running \<Rightarrow> bool" where
  "pending_wake reqid L =
     (case lv_point L of
        RunWake i x raws thru \<Rightarrow>
          (if lv_applied L = [] then i \<noteq> reqid else entry_triggers (last (lv_applied L)) = [(i, x)])
      | _ \<Rightarrow> True)"

lemma woken_server [simp]: "woken (L\<lparr>lv_server := s\<rparr>) = woken L" "pending_wake reqid (L\<lparr>lv_server := s\<rparr>) = pending_wake reqid L"
  by (simp_all add: woken_def pending_wake_def split: run_point.split)

lemma handler_put_state:
  assumes "put_state reqid ch seen (sv_w s)" "handler_step h s = Inr s'" "\<not> concerns reqid ch (EvHandler h)" "reqIDGen s + 1 \<noteq> reqid"
  shows "put_state reqid ch seen (sv_w s')"
proof (cases h)
  case (EvPut k v)
  note p = put_state_register [OF assms(1,4)]
  then show ?thesis
    using EvPut assms(2,4) put_state_trigger [OF p assms(4)]
    by (auto simp: proposePut_start_def nextRequestID_def Let_def split: prod.splits sum.splits)
next
  case EvRead
  then show ?thesis
    using assms(2) put_state_register [OF assms(1,4)]
    by (auto simp: proposeRead_start_def nextRequestID_def Let_def split: prod.splits)
next
  case (EvPutWait pick c)
  then show ?thesis
    using assms(1-3) put_state_receive [OF assms(1), of c]
    by (auto simp: proposePut_wait_def and_then_Inr_iff split: wait_case.splits option.splits)
next
  case (EvIndex pick i c)
  then show ?thesis
    using assms(1-3) put_state_receive [OF assms(1), of c] put_state_trigger [OF assms(1), of i]
    by (auto simp: proposeRead_index_def and_then_Inr_iff split: wait_case.splits option.splits)
qed (use assms(1-3) in \<open>auto simp: proposePut_proposed_def proposeRead_asked_def proposeRead_enter_def intro: put_state_trigger split: prod.splits\<close>)

lemma wake_put_state:
  assumes "put_state reqid ch (data \<in> set (woken L)) (sv_w (lv_server L))" "pending_wake reqid L"
    and p: "lv_point L = RunWake i x raws thru"
    and "\<forall>raw \<in> set (lv_applied L). \<forall>body. unmarshalEnvelope raw = Some (reqid, body) \<longrightarrow> raw = data"
    and "entry_triggers data = [(reqid, WaitNil)]"
  shows "put_state reqid ch (data \<in> set (lv_applied L)) (wait_Trigger (sv_w (lv_server L)) i x)"
proof (cases "lv_applied L = []")
  case True
  then show ?thesis using assms(1,2) p put_state_trigger by (simp add: pending_wake_def woken_def)
next
  case False
  let ?raw = "last (lv_applied L)"
  have t: "entry_triggers ?raw = [(i, x)]" using assms(2) p False by (simp add: pending_wake_def)
  have set: "set (lv_applied L) = insert ?raw (set (woken L))"
    using p arg_cong [OF append_butlast_last_id [OF False], of set] by (auto simp: woken_def)
  show ?thesis
  proof (cases "i = reqid")
    case True
    then have "?raw = data" using triggers_id [of i x ?raw] t assms(4) False by auto
    then show ?thesis
      using put_state_triggers [OF assms(1), of "[(reqid, WaitNil)]" True] t assms(5) set True by simp
  next
    case False
    then have "?raw \<noteq> data" using t assms(5) by auto
    then show ?thesis using put_state_trigger [OF assms(1) False] set by auto
  qed
qed

lemma put_state_step:
  assumes "put_state reqid ch (data \<in> set (woken L)) (sv_w (lv_server L))" "pending_wake reqid L"
    and "server_step ev L = Inr L'" "\<not> concerns reqid ch ev" "reqIDGen (lv_server L) + 1 \<noteq> reqid"
    and "\<forall>raw \<in> set (lv_applied L'). \<forall>body. unmarshalEnvelope raw = Some (reqid, body) \<longrightarrow> raw = data"
    and "entry_triggers data = [(reqid, WaitNil)]"
  shows "put_state reqid ch (data \<in> set (woken L')) (sv_w (lv_server L')) \<and> pending_wake reqid L'"
proof (cases ev)
  case (EvTake e)
  then have "loop_take e L = Inr L'" using assms(3) by simp
  then show ?thesis
    by (cases rule: loop_take_cases)
      (use EvTake assms(1,2,4) in \<open>auto simp: woken_def pending_wake_def intro: put_state_trigger\<close>)
next
  case (EvNext f io cio)
  then have "loop_next f io cio L = Inr L'" using assms(3) by simp
  then show ?thesis
  proof (cases rule: loop_next_cases)
    case (entry raw raws thru)
    have "data \<noteq> raw" if "entry_triggers raw = []" using that assms(7) by auto
    with entry assms(1) show ?thesis
      by (cases raw rule: entry_triggers_cases)
        (auto simp: woken_def pending_wake_def)
  next
    case (wake i x raws thru)
    then show ?thesis using wake_put_state [OF assms(1,2) wake(1) _ assms(7)] assms(6) by (simp add: woken_def pending_wake_def)
  qed (use assms(1,2) in \<open>auto simp: woken_def pending_wake_def\<close>)
next
  case (EvHandler h)
  with assms(3) obtain s where "handler_step h (lv_server L) = Inr s" "L' = L\<lparr>lv_server := s\<rparr>" by (auto simp: and_then_Inr_iff)
  then show ?thesis
    using handler_put_state [OF assms(1), of h] assms(2,4,5) EvHandler by simp
qed

lemma step_reqIDGen:
  assumes "server_step ev L = Inr L'"
  shows "reqIDGen (lv_server L') = reqIDGen (lv_server L) \<or> reqIDGen (lv_server L') = reqIDGen (lv_server L) + 1"
proof (cases ev)
  case (EvHandler h)
  with assms obtain s where "handler_step h (lv_server L) = Inr s" "L' = L\<lparr>lv_server := s\<rparr>" by (auto simp: and_then_Inr_iff)
  then show ?thesis
    by (cases h) (auto simp: handler_defs split: option.splits sum.splits prod.splits wait_case.splits wait_value.splits)
qed (use assms in \<open>auto elim!: loop_take_cases loop_next_cases\<close>)

lemma id_not_reused: "j + 1 < 2 ^ 64 \<Longrightarrow> reqid + word_of_nat j + 1 \<noteq> (reqid :: u64)"
proof
  assume j: "j + 1 < 2 ^ 64" and "reqid + word_of_nat j + 1 = (reqid :: u64)"
  then have "(word_of_nat (Suc j) :: u64) = 0" by (simp add: add.assoc add.commute)
  then have "unat (word_of_nat (Suc j) :: u64) = 0" by (simp only: unat_0)
  moreover have "unat (word_of_nat (Suc j) :: u64) = Suc j" using j by (simp add: unat_of_nat del: of_nat_Suc)
  ultimately show False by simp
qed

lemma put_state_run:
  assumes "put_state reqid ch (data \<in> set (woken L)) (sv_w (lv_server L))" "pending_wake reqid L"
    and "server_run evs L = Inr L'" "\<forall>ev \<in> set evs. \<not> concerns reqid ch ev" "all_readable (lv_server L)"
    and "reqIDGen (lv_server L) = reqid + word_of_nat j" "j + length evs < 2 ^ 64"
    and "\<forall>raw \<in> set (lv_applied L'). \<forall>body. unmarshalEnvelope raw = Some (reqid, body) \<longrightarrow> raw = data"
    and "entry_triggers data = [(reqid, WaitNil)]"
  shows "put_state reqid ch (data \<in> set (woken L')) (sv_w (lv_server L'))"
  using assms
proof (induction evs arbitrary: L j)
  case (Cons ev evs)
  from Cons.prems(3) obtain L1 where L1: "server_step ev L = Inr L1" "server_run evs L1 = Inr L'" by (auto simp: and_then_Inr_iff)
  have ok: "all_readable (lv_server L1)" using step_db [OF L1(1) Cons.prems(5)] by blast
  have "set (lv_applied L1) \<subseteq> set (lv_applied L')" using run_db [OF L1(2) ok] by auto
  then have a: "\<forall>raw \<in> set (lv_applied L1). \<forall>body. unmarshalEnvelope raw = Some (reqid, body) \<longrightarrow> raw = data"
    using Cons.prems(8) by blast
  have "reqIDGen (lv_server L) + 1 \<noteq> reqid" using id_not_reused [of j reqid] Cons.prems(6,7) by simp
  then have p: "put_state reqid ch (data \<in> set (woken L1)) (sv_w (lv_server L1))" "pending_wake reqid L1"
    using put_state_step [OF Cons.prems(1,2) L1(1) _ _ a Cons.prems(9)] Cons.prems(4) by simp_all
  from step_reqIDGen [OF L1(1)] obtain j' where j': "reqIDGen (lv_server L1) = reqid + word_of_nat j'" "j' \<le> j + 1"
  proof
    assume "reqIDGen (lv_server L1) = reqIDGen (lv_server L) + 1"
    then show thesis using that [of "j + 1"] Cons.prems(6) by (simp add: ac_simps)
  qed (use that [of j] Cons.prems(6) in simp)
  then have "j' + length evs < 2 ^ 64" using Cons.prems(7) by simp
  then show ?case using Cons.IH [OF p L1(2) _ ok j'(1)] Cons.prems(4,8,9) by simp
qed simp

text \<open>C18. A put is answered with success exactly when the loop has woken the waiter of its entry,
  and not earlier, at whatever point of a round it starts and however the pieces of the loop and of the other handlers
  interleave. The loop wakes the waiter of an entry only after the entry is in the database: the
  database holds the effect of all applied entries in order, and those woken are all the applied ones
  but the one the loop is at. The premises say that the proposal was accepted and its own wait is the
  only one on its channel, that no other applied entry carries its request identifier, and that every
  key of the database can be read.\<close>

theorem put_answered_iff_applied:
  assumes "db_ok (sv_db (lv_server L))" "\<forall>k. db_readable (sv_db (lv_server L)) k" "wait_ok (sv_w (lv_server L))"
    and "lv_applied L = []" "proposePut_start key val (lv_server L) = (reqid, ch, Some data, s)"
    and "\<forall>x raws thru. lv_point L \<noteq> RunWake reqid x raws thru"
    and "server_run evs (L\<lparr>lv_server := s\<rparr>) = Inr L'"
    and "\<forall>ev \<in> set evs. \<not> concerns reqid ch ev" "length evs < 2 ^ 64"
    and "\<forall>raw \<in> set (lv_applied L'). \<forall>body. unmarshalEnvelope raw = Some (reqid, body) \<longrightarrow> raw = data"
  shows "((\<exists>s'. proposePut_wait CaseValue ch (lv_server L') = Some (Inr None, s')) \<longleftrightarrow> data \<in> set (woken L'))
    \<and> (proposePut_wait CaseValue ch (lv_server L') = None \<longleftrightarrow> data \<notin> set (woken L'))
    \<and> woken L' = (case lv_point L' of RunWake i x raws thru \<Rightarrow> butlast (lv_applied L') | _ \<Rightarrow> lv_applied L')
    \<and> db_value (sv_db (lv_server L')) = db_value (sv_db (lv_server L)) ++ last_write (concat (map entry_writes (lv_applied L')))
    \<and> entry_writes data = [(key, val)]"
proof -
  let ?rq = "\<lparr>rqCmd = CmdPut, rqKey = key, rqValue = val, rqSeq = 0\<rparr>" and ?s = "lv_server L"
  let ?L = "L\<lparr>lv_server := s\<rparr>"
  obtain c w where c: "wait_Register (sv_w ?s) (reqIDGen ?s + 1) = (c, w)" by fastforce
  obtain encoded where enc: "EncodeRequest ?rq = Inr encoded"
    using assms(5) c by (cases "EncodeRequest ?rq") (simp_all add: proposePut_start_def nextRequestID_def Let_def)
  then have w: "data = marshalEnvelope reqid encoded" "s = ?s\<lparr>reqIDGen := reqIDGen ?s + 1, sv_w := w\<rparr>" "reqid = reqIDGen ?s + 1" "c = ch"
    using assms(5) c by (auto simp add: proposePut_start_def nextRequestID_def Let_def)
  note e = put_entry [OF enc, of reqid, folded w(1)]
  have ok: "all_readable (lv_server ?L)" using assms(1,2) w(2) by (simp add: all_readable_def)
  have "woken ?L = []" using assms(4) by (simp add: woken_def split: run_point.split)
  moreover have "wait_ok w" "w_m w reqid = Some ch" using wait_list.ok_register [OF assms(3) c] w(2-4) by simp_all
  ultimately have st: "put_state reqid ch (data \<in> set (woken ?L)) (sv_w (lv_server ?L))"
    using w(2) by (simp add: put_state_def)
  have "pending_wake reqid ?L" using assms(4,6) by (auto simp: pending_wake_def split: run_point.split)
  from put_state_run [OF st this assms(7,8) ok, of 0] assms(9,10) e(2) w(2,3)
  have p: "put_state reqid ch (data \<in> set (woken L')) (sv_w (lv_server L'))" by simp
  have none: "w_chans (sv_w (lv_server L')) ch = []" if "data \<notin> set (woken L')"
    using p that wait_list.ok_registered [of "sv_w (lv_server L')" reqid ch] by (simp add: put_state_def)
  have "db_value (sv_db (lv_server L')) = db_value (sv_db ?s) ++ last_write (concat (map entry_writes (lv_applied L')))"
    using run_db [OF assms(7) ok] assms(4) w(2) by auto
  moreover have "((\<exists>s'. proposePut_wait CaseValue ch (lv_server L') = Some (Inr None, s')) \<longleftrightarrow> data \<in> set (woken L'))
    \<and> (proposePut_wait CaseValue ch (lv_server L') = None \<longleftrightarrow> data \<notin> set (woken L'))"
    using p none by (auto simp: proposePut_wait_def wait_receive_def put_state_def split: if_split_asm)
  ultimately show ?thesis using e(1) woken_def by blast
qed

text \<open>C20. Replicas that have applied the same entries answer every lookup alike, in whatever
  batches the entries came, wherever in a round their loops are and whatever their request handlers did
  meanwhile, provided they started with equal contents and every key of both databases can be read.\<close>

theorem replicas_agree:
  assumes "db_ok (sv_db (lv_server L))" "\<forall>k. db_readable (sv_db (lv_server L)) k" "lv_applied L = []"
    and "db_ok (sv_db (lv_server M))" "\<forall>k. db_readable (sv_db (lv_server M)) k" "lv_applied M = []"
    and "db_value (sv_db (lv_server L)) = db_value (sv_db (lv_server M))"
    and "server_run evs L = Inr L'" "server_run evs' M = Inr M'" "lv_applied L' = lv_applied M'"
  shows "fst (db_Get None b (sv_db (lv_server L')) k) = fst (db_Get None b' (sv_db (lv_server M')) k)"
  using run_db [OF assms(8)] run_db [OF assms(9)] assms(1-7,10)
    kv_store.get_result [of "sv_db (lv_server L')" k b] kv_store.get_result [of "sv_db (lv_server M')" k b']
  by (simp add: all_readable_def)

text \<open>C22. Request identifiers are counters of each server, so two servers give the same one
  to different puts. When the put of the other server is applied, the waiting put is answered with
  success although the database holds the other write only.\<close>

theorem colliding_request_ids:
  assumes "db_ok (sv_db s)" "wait_ok (sv_w s)" "reqIDGen s' = reqIDGen s"
    and "proposePut_start key val s = (reqid, ch, Some data, s1)" "proposePut_start key' val' s' = (reqid', ch', Some data', s1')"
  shows "\<exists>s2 s3. applyBatch f \<lparr>ap_data = [data'], appliedThru = i\<rparr> s1 = Inr s2 \<and> proposePut_wait CaseValue ch s2 = Some (Inr None, s3)
    \<and> db_value (sv_db s3) = (db_value (sv_db s))(key' \<mapsto> val')"
proof -
  let ?rq = "\<lambda>k v. \<lparr>rqCmd = CmdPut, rqKey = k, rqValue = v, rqSeq = 0\<rparr>"
  obtain c w where c: "wait_Register (sv_w s) (reqIDGen s + 1) = (c, w)" by fastforce
  have w: "sv_w s1 = w" "c = ch" "sv_db s1 = sv_db s" "reqid = reqIDGen s + 1"
    using assms(4) c by (auto simp: proposePut_start_def nextRequestID_def Let_def split: sum.splits)
  obtain encoded where "EncodeRequest (?rq key' val') = Inr encoded" "data' = marshalEnvelope reqid encoded"
    using assms(3,5) w(4) by (auto simp: proposePut_start_def nextRequestID_def Let_def split: sum.splits prod.splits)
  then have e: "entry_writes data' = [(key', val')]" "entry_triggers data' = [(reqid, WaitNil)]" using put_entry by blast+
  have r: "wait_ok w \<and> w_m w reqid = Some ch" using wait_list.ok_register [OF assms(2) c] w by simp
  then have "w_chans (wait_Trigger w reqid WaitNil) ch = [WaitNil]"
    using wait_list.first_trigger_wins [of w reqid ch "[(reqid, WaitNil)]"] by simp
  then show ?thesis
    using w(1-3) e kv_store.apply_writes_contents [OF assms(1), of f "[(key', val')]"]
    by (simp add: applyBatch_effect proposePut_wait_def wait_receive_def last_write_def)
qed

section \<open>A server to run\<close>

definition sample_server :: Server where
  "sample_server = \<lparr>sv_db = empty_db, sv_w = wait_New, applyWait = NewTimeList, reqIDGen = 0,
     sv_storage = \<lparr>disk = [], rw = \<lparr>segmentLimit = 100, segments = [], current = \<lparr>wfilename = [], wsize = 0, wpos = 0, wopen = True\<rparr>\<rparr>,
       sw = \<lparr>wfilename = [], wsize = 0, wpos = 0, wopen = True\<rparr>, hs = empty_HardState, entries = [],
       snap = empty_SnapshotMeta, segLastIdx = Map.empty, compactThreshold = DefaultCompactThreshold\<rparr>\<rparr>"

definition sample_put :: bytes where
  "sample_put = marshalEnvelope 1 (request_bytes \<lparr>rqCmd = CmdPut, rqKey = [97], rqValue = [1, 2], rqSeq = 0\<rparr>)"

definition sample_log :: "Entry list" where
  "sample_log = [\<lparr>eIndex = 1, eTerm = 1, eData = []\<rparr>, \<lparr>eIndex = 2, eTerm = 1, eData = sample_put\<rparr>]"

definition sample_live :: running where
  "sample_live = \<lparr>lv_server = sample_server, lv_point = RunSelect, lv_batches = [], lv_applied = []\<rparr>"

definition next_piece :: server_event where
  "next_piece = EvNext False good_io good_io"

definition sample_take :: server_event where
  "sample_take = EvTake (RunApply (ready_batch sample_log))"

lemma sample_facts [simp]:
  "db_ok (sv_db sample_server)" "db_readable (sv_db sample_server) k" "wait_ok (sv_w sample_server)" "time_ok (applyWait sample_server)"
  "lastTriggerDeadline (applyWait sample_server) = 0" "db_value (sv_db sample_server) = Map.empty" "reqIDGen sample_server = 0"
proof -
  have "mem_inv fresh_shard [] \<and> valueOpen (swal fresh_shard)"
    using fresh_shard_opened by (simp add: opened_def disk_writes_def) (simp add: fresh_shard_eq newWAL_engine_def)
  then show "db_ok (sv_db sample_server)" by (auto simp: db_ok_def sample_server_def empty_db_def)
  show "db_value (sv_db sample_server) = Map.empty"
    by (rule ext) (simp add: db_value_def sample_server_def shard_value_def, simp add: fresh_shard_eq)
  show "db_readable (sv_db sample_server) k"
    by (simp add: db_readable_def sample_server_def readable_def, simp add: fresh_shard_eq)
qed (simp_all add: sample_server_def wait_ok_New time_ok_New, simp add: NewTimeList_def)

lemma sample_encoded:
  "EncodeRequest \<lparr>rqCmd = CmdPut, rqKey = [97], rqValue = [1, 2], rqSeq = 0\<rparr>
     = Inr (request_bytes \<lparr>rqCmd = CmdPut, rqKey = [97], rqValue = [1, 2], rqSeq = 0\<rparr>)"
  by (simp add: EncodeRequest_eq fits_u32_def)

lemma sample_entry [simp]: "entry_writes sample_put = [([97], [1, 2])]" "entry_triggers sample_put = [(1, WaitNil)]" "entry_writes [] = []"
  using put_entry [OF sample_encoded, of 1] by (simp_all add: sample_put_def entry_writes_def unmarshalEnvelope_def envelopeHeaderSize_def)

lemma sample_log_facts:
  "numbered sample_log" "continues sample_log 0 [sample_log]" "concat (map (entry_writes \<circ> eData) sample_log) = [([97], [1, 2])]"
  "length sample_log = 2" "entry_triggers [] = []" "appliedThru (ready_batch sample_log) = 2" "ap_data (ready_batch sample_log) = [[], sample_put]"
  by (auto simp: numbered_def sample_log_def less_Suc_eq continues_def ready_batch_def batch_data_eq entry_triggers_def
      unmarshalEnvelope_def envelopeHeaderSize_def)

text \<open>The batch is received and its first entry passed over; the rest of the round.\<close>

lemma sample_first:
  "server_run [sample_take, next_piece] (sample_live\<lparr>lv_server := s\<rparr>) =
     Inr \<lparr>lv_server = s, lv_point = RunEntries [sample_put] 2, lv_batches = [ready_batch sample_log], lv_applied = [[]]\<rparr>"
  by (simp add: sample_take_def next_piece_def sample_live_def loop_take_def loop_next_def Let_def sample_log_facts
      applyEntry_store_effect kv_store.apply_writes_def)

lemma sample_rest:
  assumes "sv_storage s = sv_storage sample_server"
  shows "server_run (replicate 5 next_piece)
      \<lparr>lv_server = s, lv_point = RunEntries [sample_put] 2, lv_batches = aps, lv_applied = raws\<rparr> =
    Inr \<lparr>lv_server = s\<lparr>sv_db := kv_store.apply_writes False [([97], [1, 2])] (sv_db s), sv_w := wait_Trigger (sv_w s) 1 WaitNil,
          applyWait := timeList_Trigger (applyWait s) 2\<rparr>,
        lv_point = RunSelect, lv_batches = aps, lv_applied = raws @ [sample_put]\<rparr>"
proof -
  have evs: "replicate 5 next_piece = [next_piece, next_piece, next_piece, next_piece, next_piece]" by (simp add: numeral_eq_Suc)
  have "MaybeCompact good_io good_io (sv_storage s) 2 = Inr (sv_storage s, None)"
    by (simp add: assms MaybeCompact_def sample_server_def empty_SnapshotMeta_def DefaultCompactThreshold_def)
  then show ?thesis
    unfolding evs by (simp add: next_piece_def loop_next_def Let_def applyEntry_store_effect Trigger_def)
qed

lemma sample_round:
  assumes "sv_storage s = sv_storage sample_server"
  shows "server_run (sample_take # replicate 6 next_piece) (sample_live\<lparr>lv_server := s\<rparr>) =
    Inr \<lparr>lv_server = s\<lparr>sv_db := kv_store.apply_writes False [([97], [1, 2])] (sv_db s), sv_w := wait_Trigger (sv_w s) 1 WaitNil,
          applyWait := timeList_Trigger (applyWait s) 2\<rparr>,
        lv_point = RunSelect, lv_batches = [ready_batch sample_log], lv_applied = [[], sample_put]\<rparr>"
proof -
  have evs: "sample_take # replicate 6 next_piece = [sample_take, next_piece] @ replicate 5 next_piece"
    by (simp add: numeral_eq_Suc)
  show ?thesis unfolding evs server_run_append sample_first using sample_rest [OF assms] by simp
qed

lemma sample_live_facts [simp]:
  "lv_server sample_live = sample_server" "lv_point sample_live = RunSelect" "lv_batches sample_live = []" "lv_applied sample_live = []"
  by (simp_all add: sample_live_def)

theorem applying_refines_map_witness:
  "\<exists>s'. applyBatch False (ready_batch sample_log) sample_server = Inr s' \<and> db_value (sv_db s') = [[97] \<mapsto> [1, 2]]"
  using applying_refines_map [OF sample_facts(1), of False sample_log "eIndex (last sample_log)"]
  by (auto simp: ready_batch_def sample_log_facts last_write_def)

text \<open>The read enters its wait in the middle of the batch.\<close>

theorem read_waits_for_log_witness:
  "\<exists>L0 ch s L1. server_run [sample_take, next_piece] sample_live = Inr L0 \<and> proposeRead_enter 2 (lv_server L0) = (ch, s)
     \<and> server_run (replicate 5 next_piece) (L0\<lparr>lv_server := s\<rparr>) = Inr L1
     \<and> proposeRead_wait CaseValue ch (lv_server L1) = Some None \<and> fst (db_Get None True (sv_db (lv_server L1)) [97]) = Some [1, 2]"
proof -
  let ?L0 = "\<lparr>lv_server = sample_server, lv_point = RunEntries [sample_put] 2, lv_batches = [ready_batch sample_log], lv_applied = [[]]\<rparr>"
  have 0: "server_run [sample_take, next_piece] sample_live = Inr ?L0"
    using sample_first [of sample_server] by (simp only: sample_live_def) simp
  obtain ch aw where w: "timeList_Wait (applyWait sample_server) 2 = (ch, aw)" by fastforce
  let ?s = "sample_server\<lparr>applyWait := aw\<rparr>"
  have e: "proposeRead_enter 2 (lv_server ?L0) = (ch, ?s)" using w by (simp add: proposeRead_enter_def)
  have 1: "server_run (replicate 5 next_piece) (?L0\<lparr>lv_server := ?s\<rparr>) =
      Inr \<lparr>lv_server = ?s\<lparr>sv_db := kv_store.apply_writes False [([97], [1, 2])] (sv_db ?s), sv_w := wait_Trigger (sv_w ?s) 1 WaitNil,
          applyWait := timeList_Trigger (applyWait ?s) 2\<rparr>,
        lv_point = RunSelect, lv_batches = [ready_batch sample_log], lv_applied = [[]] @ [sample_put]\<rparr>" (is "_ = Inr ?L1")
    using sample_rest [of ?s "[ready_batch sample_log]" "[[]]"] by simp
  have "lastTriggerDeadline (applyWait (lv_server ?L1)) = 2" by (simp add: timeList_Trigger_def)
  then show ?thesis
    using read_waits_for_log [OF _ _ _ _ _ _ sample_log_facts(1) _ _ 0 e 1, of 0 Map.empty "[]" ?L1 "[sample_log]" True "[97]"]
      0 e 1 sample_log_facts(2-4) by (simp add: last_write_def)
qed

theorem put_answered_iff_applied_witness:
  "\<exists>ch s L. proposePut_start [97] [1, 2] sample_server = (1, ch, Some sample_put, s)
     \<and> server_run (sample_take # replicate 6 next_piece) (sample_live\<lparr>lv_server := s\<rparr>) = Inr L
     \<and> (\<exists>s'. proposePut_wait CaseValue ch (lv_server L) = Some (Inr None, s')) \<and> db_value (sv_db (lv_server L)) = [[97] \<mapsto> [1, 2]]"
proof -
  obtain ch w where w: "wait_Register (sv_w sample_server) 1 = (ch, w)" by fastforce
  let ?s = "sample_server\<lparr>reqIDGen := 1, sv_w := w\<rparr>"
  have p: "proposePut_start [97] [1, 2] (lv_server sample_live) = (1, ch, Some sample_put, ?s)"
    using w sample_encoded by (simp add: proposePut_start_def nextRequestID_def sample_put_def)
  obtain L where L: "server_run (sample_take # replicate 6 next_piece) (sample_live\<lparr>lv_server := ?s\<rparr>) = Inr L"
      "lv_point L = RunSelect" "lv_applied L = [[], sample_put]"
    using sample_round [of ?s] by auto
  have "\<forall>raw \<in> set (lv_applied L). \<forall>body. unmarshalEnvelope raw = Some (1, body) \<longrightarrow> raw = sample_put"
    by (simp add: L(3)) (simp add: unmarshalEnvelope_def envelopeHeaderSize_def)
  moreover have "\<forall>ev \<in> set (sample_take # replicate 6 next_piece). \<not> concerns 1 ch ev"
    by (simp add: sample_take_def next_piece_def)
  ultimately show ?thesis
    using put_answered_iff_applied [OF _ _ _ _ p _ L(1)] p L by (simp add: last_write_def)
qed

text \<open>One replica has finished the round, the other has not yet woken the waiter.\<close>

theorem replicas_agree_witness:
  "\<exists>L M. server_run (sample_take # replicate 6 next_piece) sample_live = Inr L
     \<and> server_run [sample_take, next_piece, next_piece] sample_live = Inr M \<and> lv_point M \<noteq> RunSelect
     \<and> fst (db_Get None True (sv_db (lv_server L)) [97]) = fst (db_Get None False (sv_db (lv_server M)) [97])"
proof -
  have s: "sample_live\<lparr>lv_server := sample_server\<rparr> = sample_live" by (simp add: sample_live_def)
  obtain L where L: "server_run (sample_take # replicate 6 next_piece) sample_live = Inr L" "lv_applied L = [[], sample_put]"
    using sample_round [of sample_server] s by auto
  have evs: "[sample_take, next_piece, next_piece] = [sample_take, next_piece] @ [next_piece]" by simp
  obtain M where M: "server_run [sample_take, next_piece, next_piece] sample_live = Inr M" "lv_applied M = [[], sample_put]" "lv_point M \<noteq> RunSelect"
    unfolding evs server_run_append using sample_first [of sample_server] s
    by (auto simp: next_piece_def loop_next_def applyEntry_store_effect)
  show ?thesis using replicas_agree [OF _ _ _ _ _ _ _ L(1) M(1), of True "[97]" False] L M by simp
qed

theorem colliding_request_ids_witness:
  "\<exists>ch s1 s2 s3 data'. proposePut_start [98] [3] sample_server = (1, ch, Some data', s1)
     \<and> applyBatch False \<lparr>ap_data = [sample_put], appliedThru = 1\<rparr> s1 = Inr s2
     \<and> proposePut_wait CaseValue ch s2 = Some (Inr None, s3) \<and> db_value (sv_db s3) = [[97] \<mapsto> [1, 2]]"
proof -
  obtain ch w where w: "wait_Register (sv_w sample_server) 1 = (ch, w)" by fastforce
  have e: "EncodeRequest \<lparr>rqCmd = CmdPut, rqKey = [98], rqValue = [3], rqSeq = 0\<rparr> = Inr (request_bytes \<lparr>rqCmd = CmdPut, rqKey = [98], rqValue = [3], rqSeq = 0\<rparr>)"
    by (simp add: EncodeRequest_eq fits_u32_def)
  have p: "\<exists>s1. proposePut_start [97] [1, 2] sample_server = (1, ch, Some sample_put, s1)"
    "\<exists>s1 data'. proposePut_start [98] [3] sample_server = (1, ch, Some data', s1)"
    using w sample_encoded e by (simp_all add: proposePut_start_def nextRequestID_def sample_put_def)
  then obtain s1 s1' data' where p: "proposePut_start [97] [1, 2] sample_server = (1, ch, Some sample_put, s1)"
    "proposePut_start [98] [3] sample_server = (1, ch, Some data', s1')" by blast
  from colliding_request_ids [OF sample_facts(1,3) refl p(2,1), of False 1] p(2) show ?thesis by auto
qed

end
