(* ===== verification/Stream_Transport.thy ===== *)
theory Stream_Transport
  imports Protocol Framing
begin

text \<open>
  \<open>transport/frame.go\<close>, \<open>transport/tcp.go\<close> and \<open>transport/adapter.go\<close>: length-prefixed frames on a
  connection. A connection is what its reader will still deliver and what its writer has put on
  the wire; either may end anywhere. Frames are an instance of \<open>framed_stream\<close>, so that a cut or
  broken stream yields exactly the frames that were written completely.
\<close>

section \<open>Connections\<close>

datatype net_error =
    NetEOF
  | NetUnexpectedEOF
  | NetTimeout
  | NetClosed
  | NetBroken
  | NetFrameTooLarge
  | NetInvalidFrame
  | NetInvalidTimeout
  | NetNoDeadline
  | NetInvalidPayload
  | NetCancelled

text \<open>What a reader will still deliver, and the error it reports after that; what a writer has
  put on the wire, and how many bytes it takes before it breaks (never, if \<open>None\<close>). A buffered
  writer that failed once refuses everything after.\<close>

record net_reader =
  avail :: bytes
  after :: net_error

record net_writer =
  sent :: bytes
  room :: "nat option"
  broken :: bool

text \<open>\<open>io.ReadFull\<close>.\<close>

definition ReadFull :: "net_reader \<Rightarrow> nat \<Rightarrow> (net_error + bytes) \<times> net_reader" where
  "ReadFull r n =
     (if n \<le> length (avail r) then (Inr (take n (avail r)), r\<lparr>avail := drop n (avail r)\<rparr>)
      else
        (Inl (if avail r \<noteq> [] \<and> after r = NetEOF then NetUnexpectedEOF else after r), r\<lparr>avail := []\<rparr>))"

definition conn_write :: "net_writer \<Rightarrow> bytes \<Rightarrow> net_error option \<times> net_writer" where
  "conn_write w b =
     (if broken w then (Some NetBroken, w)
      else
        (case room w of
           None \<Rightarrow> (None, w\<lparr>sent := sent w @ b\<rparr>)
         | Some k \<Rightarrow>
             if length b \<le> k then (None, w\<lparr>sent := sent w @ b, room := Some (k - length b)\<rparr>)
             else (Some NetBroken, w\<lparr>sent := sent w @ take k b, room := Some 0, broken := True\<rparr>)))"

section \<open>Framer\<close>

record Framer =
  fr_r :: net_reader
  fr_w :: net_writer
  maxPayload :: int
  readDL :: "net_error option option" \<comment> \<open>\<open>None\<close>: no deadlines; \<open>Some e\<close>: what \<open>SetReadDeadline\<close> returns\<close>
  writeDL :: "net_error option option"

definition DefaultMaxFrameSize :: int where "DefaultMaxFrameSize = 16777216"

definition NewFramer ::
  "net_reader \<Rightarrow> net_writer \<Rightarrow> net_error option option \<Rightarrow> net_error option option \<Rightarrow> Framer" where
  "NewFramer r w rdl wdl =
     \<lparr>fr_r = r, fr_w = w, maxPayload = DefaultMaxFrameSize, readDL = rdl, writeDL = wdl\<rparr>"

definition SetMaxPayload :: "Framer \<Rightarrow> int \<Rightarrow> Framer" where
  "SetMaxPayload f n = f\<lparr>maxPayload := n\<rparr>"

definition readFrameMax :: "net_reader \<Rightarrow> int \<Rightarrow> (net_error + bytes) \<times> net_reader" where
  "readFrameMax r maxP =
     (if maxP \<le> 0 then (Inl NetInvalidFrame, r)
      else
        (case ReadFull r 4 of
           (Inl e, r) \<Rightarrow> (Inl e, r)
         | (Inr hdr, r) \<Rightarrow>
             (let ln = unat (Uint32 hdr) in
              if int ln > maxP then (Inl NetFrameTooLarge, r)
              else if ln = 0 then (Inr [], r)
              else
                (case ReadFull r ln of
                   (Inl e, r) \<Rightarrow> (Inl e, r)
                 | (Inr payload, r) \<Rightarrow> (Inr payload, r)))))"

definition writeFrame :: "net_writer \<Rightarrow> bytes \<Rightarrow> net_error option \<times> net_writer" where
  "writeFrame w payload =
     (if length payload > unat (- 1 :: u32) then (Some NetFrameTooLarge, w)
      else
        (case conn_write w (PutUint32 (word_of_nat (length payload))) of
           (Some e, w) \<Rightarrow> (Some e, w)
         | (None, w) \<Rightarrow> conn_write w payload))"

definition framer_Read :: "Framer \<Rightarrow> (net_error + bytes) \<times> Framer" where
  "framer_Read f = (case readFrameMax (fr_r f) (maxPayload f) of (res, r) \<Rightarrow> (res, f\<lparr>fr_r := r\<rparr>))"

definition framer_Write :: "Framer \<Rightarrow> bytes \<Rightarrow> net_error option \<times> Framer" where
  "framer_Write f payload = (case writeFrame (fr_w f) payload of (e, w) \<Rightarrow> (e, f\<lparr>fr_w := w\<rparr>))"

text \<open>A deadline is \<open>None\<close> for the zero time. That it passes shows in what the connection
  delivers: a reader that ends in \<open>NetTimeout\<close>, a writer that breaks.\<close>

definition ReadWithDeadline :: "Framer \<Rightarrow> int option \<Rightarrow> (net_error + bytes) \<times> Framer" where
  "ReadWithDeadline f deadline =
     (if deadline = None then framer_Read f
      else
        (case readDL f of
           None \<Rightarrow> (Inl NetNoDeadline, f)
         | Some (Some e) \<Rightarrow> (Inl e, f)
         | Some None \<Rightarrow> framer_Read f))"

definition ReadWithTimeout :: "Framer \<Rightarrow> int \<Rightarrow> int \<Rightarrow> (net_error + bytes) \<times> Framer" where
  "ReadWithTimeout f now timeout =
     (if timeout < 0 then (Inl NetInvalidTimeout, f)
      else if timeout = 0 then framer_Read f
      else ReadWithDeadline f (Some (now + timeout)))"

definition WriteWithDeadline :: "Framer \<Rightarrow> bytes \<Rightarrow> int option \<Rightarrow> net_error option \<times> Framer" where
  "WriteWithDeadline f payload deadline =
     (if deadline = None then framer_Write f payload
      else
        (case writeDL f of
           None \<Rightarrow> (Some NetNoDeadline, f)
         | Some (Some e) \<Rightarrow> (Some e, f)
         | Some None \<Rightarrow> framer_Write f payload))"

definition WriteWithTimeout :: "Framer \<Rightarrow> bytes \<Rightarrow> int \<Rightarrow> int \<Rightarrow> net_error option \<times> Framer" where
  "WriteWithTimeout f payload now timeout =
     (if timeout < 0 then (Some NetInvalidTimeout, f)
      else if timeout = 0 then framer_Write f payload
      else WriteWithDeadline f payload (Some (now + timeout)))"

section \<open>tcp.go and adapter.go\<close>

record TcpStreamTransport =
  t_framer :: Framer
  t_closed :: bool

definition tcp_Send :: "TcpStreamTransport \<Rightarrow> int option \<Rightarrow> bytes \<Rightarrow> net_error option \<times> TcpStreamTransport" where
  "tcp_Send t ctx payload =
     (if t_closed t then (Some NetClosed, t)
      else
        (case (case ctx of Some d \<Rightarrow> WriteWithDeadline (t_framer t) payload (Some d)
                         | None \<Rightarrow> framer_Write (t_framer t) payload) of
           (e, f) \<Rightarrow> (e, t\<lparr>t_framer := f\<rparr>)))"

definition tcp_Receive :: "TcpStreamTransport \<Rightarrow> int option \<Rightarrow> (net_error + bytes) \<times> TcpStreamTransport" where
  "tcp_Receive t ctx =
     (if t_closed t then (Inl NetClosed, t)
      else
        (case (case ctx of Some d \<Rightarrow> ReadWithDeadline (t_framer t) (Some d) | None \<Rightarrow> framer_Read (t_framer t)) of
           (res, f) \<Rightarrow> (res, t\<lparr>t_framer := f\<rparr>)))"

definition tcp_Close :: "TcpStreamTransport \<Rightarrow> TcpStreamTransport" where
  "tcp_Close t = (if t_closed t then t else t\<lparr>t_closed := True\<rparr>)"

text \<open>\<open>TcpRequestTransport\<close> has the same fields.\<close>

definition tcp_Request :: "TcpStreamTransport \<Rightarrow> int option \<Rightarrow> bytes \<Rightarrow> (net_error + bytes) \<times> TcpStreamTransport" where
  "tcp_Request t ctx payload =
     (if t_closed t then (Inl NetClosed, t)
      else
        (case WriteWithDeadline (t_framer t) payload ctx of
           (Some e, f) \<Rightarrow> (Inl e, t\<lparr>t_framer := f\<rparr>)
         | (None, f) \<Rightarrow> (case ReadWithDeadline f ctx of (res, f) \<Rightarrow> (res, t\<lparr>t_framer := f\<rparr>))))"

definition streamAsRequest_Request :: "TcpStreamTransport \<Rightarrow> int option \<Rightarrow> bytes \<Rightarrow> (net_error + bytes) \<times> TcpStreamTransport" where
  "streamAsRequest_Request s ctx payload =
     (case tcp_Send s ctx payload of
        (Some e, s) \<Rightarrow> (Inl e, s)
      | (None, s) \<Rightarrow> tcp_Receive s ctx)"

section \<open>Frames on a stream\<close>

definition frame_bytes :: "bytes \<Rightarrow> bytes" where
  "frame_bytes p = PutUint32 (word_of_nat (length p)) @ p"

definition frame_ok :: "int \<Rightarrow> bytes \<Rightarrow> bool" where
  "frame_ok maxP p \<longleftrightarrow> int (length p) \<le> maxP \<and> fits_u32 p"

text \<open>One call of \<open>Read\<close> as a recogniser of chunks.\<close>

definition frame_next :: "int \<Rightarrow> bytes \<Rightarrow> bytes chunk" where
  "frame_next maxP b =
     (case readFrameMax \<lparr>avail = b, after = NetEOF\<rparr> maxP of
        (Inr p, r) \<Rightarrow> Chunk p (avail r)
      | (Inl e, r) \<Rightarrow> if b = [] then Chunk_End else Chunk_Torn)"

lemma length_frame_bytes [simp]: "length (frame_bytes p) = 4 + length p"
  by (simp add: frame_bytes_def)

lemma readFrame_whole:
  assumes "frame_ok maxP p" "0 < maxP"
  shows "readFrameMax \<lparr>avail = frame_bytes p @ rest, after = e\<rparr> maxP = (Inr p, \<lparr>avail = rest, after = e\<rparr>)"
  using assms by (auto simp: readFrameMax_def ReadFull_def frame_bytes_def frame_ok_def unat_length_u32 Let_def)

lemma readFrame_torn:
  assumes "frame_ok maxP p" "0 < maxP" "k < length (frame_bytes p)"
  shows "\<exists>x. readFrameMax \<lparr>avail = take k (frame_bytes p), after = e\<rparr> maxP = (Inl x, \<lparr>avail = [], after = e\<rparr>)"
proof (cases "k < 4")
  case True
  then show ?thesis using assms(2,3) by (simp add: readFrameMax_def ReadFull_def min_def)
next
  case False
  then have "take k (frame_bytes p) = PutUint32 (word_of_nat (length p)) @ take (k - 4) p" by (simp add: frame_bytes_def)
  moreover have "k - 4 < length p" using False assms(3) by simp
  ultimately show ?thesis
    using assms(1,2) by (auto simp: readFrameMax_def ReadFull_def frame_ok_def unat_length_u32 Let_def min_def)
qed

interpretation tcp_frames: framed_stream frame_bytes "frame_next maxP" "\<lambda>p. 0 < maxP \<and> frame_ok maxP p" for maxP
proof
  show "frame_next maxP [] = Chunk_End" by (simp add: frame_next_def readFrameMax_def ReadFull_def)
next
  fix x rest assume "0 < maxP \<and> frame_ok maxP x"
  then show "frame_next maxP (frame_bytes x @ rest) = Chunk x rest" by (simp add: frame_next_def readFrame_whole)
next
  fix x k assume "0 < maxP \<and> frame_ok maxP x" "0 < k" "k < length (frame_bytes x)"
  moreover from this have "take k (frame_bytes x) \<noteq> []" by (auto simp: frame_bytes_def)
  ultimately show "frame_next maxP (take k (frame_bytes x)) = Chunk_Torn"
    using readFrame_torn [of maxP x k NetEOF] by (auto simp: frame_next_def)
next
  fix x show "frame_bytes x \<noteq> []" by (simp add: frame_bytes_def)
qed

text \<open>The loop of a receiver: one frame after the other until \<open>Read\<close> fails.\<close>

lemma readFrame_consumes:
  "readFrameMax r maxP = (Inr p, r') \<Longrightarrow> length (avail r') < length (avail r)"
  by (auto simp: readFrameMax_def ReadFull_def Let_def split: if_split_asm)

function read_frames :: "net_reader \<Rightarrow> int \<Rightarrow> bytes list" where
  "read_frames r maxP =
     (case readFrameMax r maxP of
        (Inl e, r) \<Rightarrow> []
      | (Inr p, r) \<Rightarrow> p # read_frames r maxP)"
  by pat_completeness auto
termination
  by (relation "measure (\<lambda>(r, m). length (avail r))") (auto dest!: sym [of _ "readFrameMax _ _"] readFrame_consumes)

declare read_frames.simps [simp del]

lemma readFrame_after:
  "fst (readFrameMax \<lparr>avail = b, after = e\<rparr> maxP) = Inr p \<Longrightarrow>
     \<exists>c. readFrameMax \<lparr>avail = b, after = e'\<rparr> maxP = (Inr p, \<lparr>avail = c, after = e'\<rparr>)
       \<and> readFrameMax \<lparr>avail = b, after = e\<rparr> maxP = (Inr p, \<lparr>avail = c, after = e\<rparr>)"
  by (auto simp: readFrameMax_def ReadFull_def Let_def split: if_split_asm)

lemma read_frames_chunks: "read_frames \<lparr>avail = b, after = e\<rparr> maxP = fst (read_chunks (frame_next maxP) b)"
proof (induction b rule: length_induct)
  case (1 b)
  show ?case
  proof (cases "fst (readFrameMax \<lparr>avail = b, after = e\<rparr> maxP)")
    case (Inl x)
    moreover from this obtain y where "fst (readFrameMax \<lparr>avail = b, after = NetEOF\<rparr> maxP) = Inl y"
      using readFrame_after [of b NetEOF maxP _ e] by (cases "fst (readFrameMax \<lparr>avail = b, after = NetEOF\<rparr> maxP)") auto
    ultimately show ?thesis
      by (subst read_frames.simps, subst read_chunks.simps) (simp add: frame_next_def case_prod_beta)
  next
    case (Inr p)
    from readFrame_after [OF this, of NetEOF] obtain c where
      c: "readFrameMax \<lparr>avail = b, after = e\<rparr> maxP = (Inr p, \<lparr>avail = c, after = e\<rparr>)"
        "readFrameMax \<lparr>avail = b, after = NetEOF\<rparr> maxP = (Inr p, \<lparr>avail = c, after = NetEOF\<rparr>)" by auto
    then have "length c < length b" using readFrame_consumes by fastforce
    moreover have "frame_next maxP b = Chunk p c" using c by (simp add: frame_next_def)
    ultimately show ?thesis
      using 1 c by (subst read_frames.simps, subst read_chunks.simps) (simp add: case_prod_beta)
  qed
qed

section \<open>Writing and cutting a stream\<close>

definition write_frames :: "net_writer \<Rightarrow> bytes list \<Rightarrow> net_writer" where
  "write_frames = foldl (\<lambda>w p. snd (writeFrame w p))"

text \<open>What is on the wire is a prefix of what was to be written, all of it as long as nothing broke.\<close>

definition wire_of :: "net_writer \<Rightarrow> bytes \<Rightarrow> bool" where
  "wire_of w b \<longleftrightarrow> (\<exists>n. sent w = take n b) \<and> (\<not> broken w \<longrightarrow> sent w = b)"

lemma conn_write_wire:
  assumes "wire_of w b" "conn_write w c = (e, w')"
  shows "wire_of w' (b @ c)" "e = None \<Longrightarrow> \<not> broken w'"
proof -
  have p: "\<exists>n. b @ take k c = take n (b @ c)" for k by (rule exI [of _ "length b + k"]) simp
  have q: "\<exists>n. take k b = take n (b @ c)" for k
  proof (cases "k \<le> length b")
    case True
    then show ?thesis by (intro exI [of _ k]) simp
  next
    case False
    then show ?thesis by (intro exI [of _ "length b"]) simp
  qed
  have r: "\<exists>n. b @ c = take n (b @ c)" by (rule exI [of _ "length (b @ c)"]) simp
  show "wire_of w' (b @ c)" "e = None \<Longrightarrow> \<not> broken w'"
    using assms p q r by (auto simp: wire_of_def conn_write_def split: if_split_asm option.split_asm)
qed

lemma writeFrame_wire:
  assumes "wire_of w b" "fits_u32 p"
  shows "wire_of (snd (writeFrame w p)) (b @ frame_bytes p)"
proof -
  have len: "\<not> length p > unat (- 1 :: u32)"
    using assms(2) by (simp add: fits_u32_def unsigned_minus_1_eq_mask mask_eq_exp_minus_1)
  let ?h = "PutUint32 (word_of_nat (length p))"
  obtain e w1 where w1: "conn_write w ?h = (e, w1)" by fastforce
  show ?thesis
  proof (cases e)
    case None
    obtain e' w2 where "conn_write w1 p = (e', w2)" by fastforce
    with conn_write_wire [OF conn_write_wire(1) [OF assms(1) w1], of p] w1 len None show ?thesis
      by (simp add: writeFrame_def frame_bytes_def)
  next
    case (Some x)
    then have "broken w1" "sent w1 = sent w1" using w1 by (auto simp: conn_write_def split: if_split_asm option.split_asm)
    moreover obtain n where "sent w1 = take n (b @ ?h)" using conn_write_wire(1) [OF assms(1) w1] by (auto simp: wire_of_def)
    moreover have "\<exists>m. take n (b @ ?h) = take m ((b @ ?h) @ p)"
      by (rule exI [of _ "min n (length (b @ ?h))"]) (simp add: min_def)
    ultimately show ?thesis using w1 len Some by (auto simp: writeFrame_def frame_bytes_def wire_of_def)
  qed
qed

lemma write_frames_wire:
  assumes "wire_of w b" "\<forall>p \<in> set ps. fits_u32 p"
  shows "wire_of (write_frames w ps) (b @ concat (map frame_bytes ps))"
  using assms
proof (induction ps arbitrary: w b)
  case (Cons p ps)
  have "wire_of (snd (writeFrame w p)) (b @ frame_bytes p)" using Cons.prems by (intro writeFrame_wire) auto
  from Cons.IH [OF this] Cons.prems show ?case by (simp add: write_frames_def)
qed (simp add: write_frames_def)

text \<open>Messages framed onto a connection arrive whole, in order and unaltered: wherever the
  writer breaks and wherever the stream is cut, the receiver gets a prefix of the messages
  written, and all of them when nothing is lost.\<close>

lemma frames_in_order:
  assumes "0 < maxP" "\<forall>p \<in> set ps. frame_ok maxP p" "sent w = []" "\<not> broken w"
  shows "(\<exists>j. read_frames \<lparr>avail = take n (sent (write_frames w ps)), after = e\<rparr> maxP = take j ps)
    \<and> (\<not> broken (write_frames w ps) \<longrightarrow> read_frames \<lparr>avail = sent (write_frames w ps), after = e\<rparr> maxP = ps)"
proof -
  have "wire_of w []" using assms(3,4) by (simp add: wire_of_def)
  moreover have v: "\<forall>p \<in> set ps. 0 < maxP \<and> frame_ok maxP p" "\<forall>p \<in> set ps. fits_u32 p"
    using assms(1,2) by (auto simp: frame_ok_def)
  ultimately have w: "wire_of (write_frames w ps) (concat (map frame_bytes ps))"
    using write_frames_wire [of w "[]" ps] by simp
  then obtain k where "sent (write_frames w ps) = take k (concat (map frame_bytes ps))" by (auto simp: wire_of_def)
  then show ?thesis
    using w tcp_frames.read_prefix [OF v(1), of "min n k"] tcp_frames.read_all [OF v(1)]
      whole_frames_prefix [of "\<lambda>x. length (frame_bytes x)" "min n k" ps]
    by (auto simp: read_frames_chunks wire_of_def)
qed

end
