(* ===== verification/Peer_Transport.thy ===== *)
theory Peer_Transport
  imports Complex_Main Stream_Transport "HOL-Library.AList"
begin

text \<open>
  \<open>transport/raft/raft_transport.go\<close> and \<open>transport/raft/tcp_peer.go\<close>: how raft messages travel
  between nodes. \<open>Send\<close> sorts a batch into the channels of the peers, a peer's writer loop frames
  its channel onto connections, and the read loop of the other side hands what arrives to raft.
  The protobuf codec is a parameter.
\<close>

section \<open>tcp_peer.go\<close>

definition messageBufferSize :: nat where "messageBufferSize = 64"
definition backoffMin :: int where "backoffMin = 50000000"
definition backoffMax :: int where "backoffMax = 1000000000"

record tcpPeer =
  p_id :: u64
  p_addr :: string
  msgc :: "Message list"
  resetc :: bool \<comment> \<open>a token is in the channel\<close>
  p_stopped :: bool

definition newTCPPeer :: "u64 \<Rightarrow> string \<Rightarrow> tcpPeer" where
  "newTCPPeer i addr = \<lparr>p_id = i, p_addr = addr, msgc = [], resetc = False, p_stopped = False\<rparr>"

definition peer_push :: "tcpPeer \<Rightarrow> Message \<Rightarrow> tcpPeer" where
  "peer_push p m = (if length (msgc p) < messageBufferSize then p\<lparr>msgc := msgc p @ [m]\<rparr> else p)"

definition peer_Send :: "tcpPeer \<Rightarrow> Message list \<Rightarrow> tcpPeer" where
  "peer_Send p msgs = foldl peer_push p msgs"

definition peer_Stop :: "tcpPeer \<Rightarrow> tcpPeer" where
  "peer_Stop p = p\<lparr>p_stopped := True\<rparr>"

definition peer_Reset :: "tcpPeer \<Rightarrow> tcpPeer" where
  "peer_Reset p = p\<lparr>resetc := True\<rparr>"

text \<open>
  The delay before dial number \<open>failures + 1\<close> in nanoseconds; \<open>u\<close> stands for the random number
  from the interval [0, 1). Floating point numbers are rationals here.
\<close>

definition backoffDuration :: "int \<Rightarrow> rat \<Rightarrow> int" where
  "backoffDuration failures u =
     (let e = of_int backoffMin * 2 powi (failures - 1);
          e = (if e > of_int backoffMax then of_int backoffMax else e);
          jitter = 1 + 1 / 4 * (u * 2 - 1);
          d = \<lfloor>e * jitter\<rfloor>;
          d = (if d < backoffMin then backoffMin else d)
      in if d > backoffMax then backoffMax else d)"

text \<open>What ends the wait of \<open>backoff\<close>.\<close>

datatype wake = WakeStop | WakeReset | WakeTimer

definition backoff :: "wake \<Rightarrow> tcpPeer \<Rightarrow> bool \<times> tcpPeer" where
  "backoff cause p =
     (case cause of
        WakeStop \<Rightarrow> (False, p)
      | WakeReset \<Rightarrow> (True, p\<lparr>resetc := False\<rparr>)
      | WakeTimer \<Rightarrow> (True, p))"

text \<open>
  \<open>writeToConn\<close> on a connection with writer \<open>w\<close> takes messages until a write fails or the peer
  is stopped, here after the messages of the list. \<open>marshal\<close> stands for \<open>proto.Marshal\<close>. The
  result is the writer and the messages still in the channel; the message whose write failed
  is lost.
\<close>

fun writeToConn :: "(Message \<Rightarrow> bytes option) \<Rightarrow> net_writer \<Rightarrow> Message list \<Rightarrow> net_writer \<times> Message list" where
  "writeToConn marshal w [] = (w, [])"
| "writeToConn marshal w (m # ms) =
     (case marshal m of
        None \<Rightarrow> writeToConn marshal w ms
      | Some data \<Rightarrow>
          (case writeFrame w data of
             (Some e, w) \<Rightarrow> (w, ms)
           | (None, w) \<Rightarrow> writeToConn marshal w ms))"

text \<open>
  \<open>writerLoop\<close> against a sequence of dial outcomes: a failed dial with what ends the backoff, or
  a connection. The writers are collected in order; the count of failures restarts with each
  connection.
\<close>

datatype dial = DialFail wake | DialConn net_writer

fun writerLoop :: "(Message \<Rightarrow> bytes option) \<Rightarrow> dial list \<Rightarrow> nat \<Rightarrow> tcpPeer \<Rightarrow> net_writer list \<times> nat \<times> tcpPeer" where
  "writerLoop marshal [] failures p = ([], failures, p)"
| "writerLoop marshal (DialFail cause # ds) failures p =
     (case backoff cause p of
        (False, p) \<Rightarrow> ([], failures + 1, p)
      | (True, p) \<Rightarrow> writerLoop marshal ds (failures + 1) p)"
| "writerLoop marshal (DialConn w # ds) failures p =
     (case writeToConn marshal w (msgc p) of
        (w, rest) \<Rightarrow>
          (case writerLoop marshal ds 0 (p\<lparr>msgc := rest\<rparr>) of (ws, failures, p) \<Rightarrow> (w # ws, failures, p)))"

section \<open>raft_transport.go\<close>

datatype rt_error = RtRaftRequired | RtListenRequired | RtLoggerRequired | RtStarted | RtStopped | RtListen

record RaftTransport =
  rt_peers :: "(u64 \<times> tcpPeer) list"
  rt_started :: bool
  rt_stopped :: bool

definition NewRaftTransport :: "bool \<Rightarrow> bool \<Rightarrow> bool \<Rightarrow> rt_error + RaftTransport" where
  "NewRaftTransport has_raft has_listen has_logger =
     (if \<not> has_raft then Inl RtRaftRequired
      else if \<not> has_listen then Inl RtListenRequired
      else if \<not> has_logger then Inl RtLoggerRequired
      else Inr \<lparr>rt_peers = [], rt_started = False, rt_stopped = False\<rparr>)"

definition AddPeer :: "RaftTransport \<Rightarrow> u64 \<Rightarrow> string \<Rightarrow> RaftTransport" where
  "AddPeer r i addr =
     (if map_of (rt_peers r) i \<noteq> None then r
      else r\<lparr>rt_peers := AList.update i (newTCPPeer i addr) (rt_peers r)\<rparr>)"

definition add_group :: "Message \<Rightarrow> (u64 \<times> Message list) list \<Rightarrow> (u64 \<times> Message list) list" where
  "add_group m groups =
     AList.update (mTo m) ((case map_of groups (mTo m) of None \<Rightarrow> [] | Some l \<Rightarrow> l) @ [m]) groups"

definition send_group :: "u64 \<times> Message list \<Rightarrow> (u64 \<times> tcpPeer) list \<Rightarrow> (u64 \<times> tcpPeer) list" where
  "send_group g peers =
     (case map_of peers (fst g) of
        None \<Rightarrow> peers
      | Some p \<Rightarrow> AList.update (fst g) (peer_Send p (snd g)) peers)"

definition rt_Send :: "RaftTransport \<Rightarrow> Message list \<Rightarrow> RaftTransport" where
  "rt_Send r msgs =
     (if rt_stopped r then r
      else if msgs = [] then r
      else
        (let groups = fold add_group msgs []
         in r\<lparr>rt_peers := fold send_group groups (rt_peers r)\<rparr>))"

definition rt_Start :: "bool \<Rightarrow> RaftTransport \<Rightarrow> rt_error option \<times> RaftTransport" where
  "rt_Start listen_ok r =
     (if rt_stopped r then (Some RtStopped, r)
      else if rt_started r then (Some RtStarted, r)
      else if \<not> listen_ok then (Some RtListen, r)
      else (None, r\<lparr>rt_started := True\<rparr>))"

definition rt_Stop :: "RaftTransport \<Rightarrow> RaftTransport" where
  "rt_Stop r = r\<lparr>rt_stopped := True, rt_peers := map (\<lambda>(i, p). (i, peer_Stop p)) (rt_peers r)\<rparr>"

text \<open>
  \<open>readLoop\<close> on a connection: the messages handed to \<open>Process\<close>, in order, and the sender of the
  first one, whose writer is woken. \<open>unmarshal\<close> stands for \<open>proto.Unmarshal\<close>. Stopping the
  transport is the stream ending early.
\<close>

function readLoop :: "(bytes \<Rightarrow> Message option) \<Rightarrow> net_reader \<Rightarrow> bool \<Rightarrow> Message list \<times> u64 option" where
  "readLoop unmarshal r identified =
     (case readFrameMax r DefaultMaxFrameSize of
        (Inl e, r) \<Rightarrow> ([], None)
      | (Inr payload, r) \<Rightarrow>
          (case unmarshal payload of
             None \<Rightarrow> readLoop unmarshal r identified
           | Some msg \<Rightarrow>
               (case readLoop unmarshal r True of
                  (ms, woken) \<Rightarrow> (msg # ms, if identified then woken else Some (mFrom msg)))))"
  by pat_completeness auto
termination
  by (relation "measure (\<lambda>(u, r, i). length (avail r))") (auto dest!: sym [of _ "readFrameMax _ _"] readFrame_consumes)

declare readLoop.simps [simp del]

definition wake_peer :: "u64 option \<Rightarrow> RaftTransport \<Rightarrow> RaftTransport" where
  "wake_peer woken r =
     (case woken of
        None \<Rightarrow> r
      | Some i \<Rightarrow>
          (case map_of (rt_peers r) i of
             None \<Rightarrow> r
           | Some p \<Rightarrow> r\<lparr>rt_peers := AList.update i (peer_Reset p) (rt_peers r)\<rparr>))"

section \<open>Sending\<close>

lemma peer_push_queue: "msgc (peer_push p m) = take messageBufferSize (msgc p @ [m])" if "length (msgc p) \<le> messageBufferSize"
  using that by (auto simp: peer_push_def)

lemma peer_Send_queue:
  assumes "length (msgc p) \<le> messageBufferSize"
  shows "msgc (peer_Send p ms) = take messageBufferSize (msgc p @ ms)"
  using assms
proof (induction ms arbitrary: p)
  case (Cons m ms)
  have q: "msgc (peer_push p m) = take messageBufferSize (msgc p @ [m])" using Cons.prems by (rule peer_push_queue)
  with Cons.IH [of "peer_push p m"] have "msgc (peer_Send p (m # ms)) = take messageBufferSize (take messageBufferSize (msgc p @ [m]) @ ms)"
    by (simp add: peer_Send_def)
  also have "\<dots> = take messageBufferSize (msgc p @ m # ms)"
    using Cons.prems by (cases "length (msgc p) = messageBufferSize") auto
  finally show ?case .
qed (simp add: peer_Send_def)

lemma groups_filter:
  "map_of (fold add_group msgs g) to =
     (case filter (\<lambda>m. mTo m = to) msgs of
        [] \<Rightarrow> map_of g to
      | ml \<Rightarrow> Some ((case map_of g to of None \<Rightarrow> [] | Some l \<Rightarrow> l) @ ml))"
  by (induction msgs arbitrary: g) (auto simp: add_group_def update_conv' split: list.split option.split)

lemma groups_distinct: "distinct (map fst g) \<Longrightarrow> distinct (map fst (fold add_group msgs g))"
  by (induction msgs arbitrary: g) (auto simp: add_group_def distinct_update)

lemma send_groups:
  assumes "distinct (map fst g)"
  shows "map_of (fold send_group g peers) to =
    (case map_of g to of None \<Rightarrow> map_of peers to | Some ml \<Rightarrow> map_option (\<lambda>p. peer_Send p ml) (map_of peers to))"
  using assms
proof (induction g arbitrary: peers)
  case (Cons a g)
  obtain t ml where [simp]: "a = (t, ml)" by fastforce
  have "t \<notin> fst ` set g" using Cons.prems by simp
  then have "map_of g t = None" by (simp add: map_of_eq_None_iff)
  then show ?case
    using Cons by (auto simp: send_group_def update_conv' split: option.split)
qed simp

lemma peer_Send_Nil [simp]: "peer_Send p [] = p"
  by (simp add: peer_Send_def)

lemma peer_Send_addr: "p_addr (peer_Send p ms) = p_addr p"
  by (induction ms arbitrary: p) (auto simp: peer_Send_def peer_push_def)

lemma rt_Send_peer:
  assumes "\<not> rt_stopped r"
  shows "map_of (rt_peers (rt_Send r msgs)) to =
    map_option (\<lambda>p. peer_Send p (filter (\<lambda>m. mTo m = to) msgs)) (map_of (rt_peers r) to)"
  using assms groups_filter [of msgs "[]" to] groups_distinct [of "[]" msgs]
  by (auto simp: rt_Send_def Let_def send_groups option.map_ident split: list.split option.split)

text \<open>Handing a batch to the transport gives every peer exactly the messages addressed to it, in
  the order of the batch, cut off where its buffer is full.\<close>
theorem Send_routes:
  assumes "\<not> rt_stopped r" "map_of (rt_peers r) to = Some p" "length (msgc p) \<le> messageBufferSize"
  shows "\<exists>p'. map_of (rt_peers (rt_Send r msgs)) to = Some p' \<and> p_addr p' = p_addr p
    \<and> msgc p' = take messageBufferSize (msgc p @ filter (\<lambda>m. mTo m = to) msgs)"
  using assms rt_Send_peer [OF assms(1)] by (simp add: peer_Send_queue peer_Send_addr)

definition sample_transport :: RaftTransport where
  "sample_transport = \<lparr>rt_peers = [(2, newTCPPeer 2 ''a:1''), (3, newTCPPeer 3 ''b:1'')], rt_started = True, rt_stopped = False\<rparr>"

definition sample_batch :: "Message list" where
  "sample_batch = map (\<lambda>(to, i). (new_Message MsgHeartbeat)\<lparr>mTo := to, mIndex := i\<rparr>) [(2, 1), (3, 2), (2, 3)]"

theorem Send_routes_witness:
  "\<exists>p'. map_of (rt_peers (rt_Send sample_transport sample_batch)) 2 = Some p' \<and> map mIndex (msgc p') = [1, 3]"
proof -
  have "\<not> rt_stopped sample_transport" "map_of (rt_peers sample_transport) 2 = Some (newTCPPeer 2 ''a:1'')"
    "msgc (newTCPPeer 2 ''a:1'') = []" by (simp_all add: sample_transport_def newTCPPeer_def)
  with Send_routes [OF this(1,2), of sample_batch] obtain p' where
    "map_of (rt_peers (rt_Send sample_transport sample_batch)) 2 = Some p'"
    "msgc p' = take messageBufferSize (filter (\<lambda>m. mTo m = 2) sample_batch)" by auto
  then show ?thesis by (simp add: sample_batch_def messageBufferSize_def)
qed

section \<open>From one node to the next\<close>

lemma readLoop_frames: "fst (readLoop u r i) = List.map_filter u (read_frames r DefaultMaxFrameSize)"
proof (induction u r i rule: readLoop.induct)
  case (1 u r i)
  show ?case
    using 1 by (subst readLoop.simps, subst read_frames.simps) (auto simp: map_filter_simps split: sum.split prod.split option.split)
qed

lemma writeToConn_frames:
  assumes "\<forall>m \<in> set ms. \<forall>d. marshal m = Some d \<longrightarrow> fits_u32 d"
  shows "\<exists>k. fst (writeToConn marshal w ms) = write_frames w (take k (List.map_filter marshal ms))
    \<and> (\<not> broken (fst (writeToConn marshal w ms)) \<longrightarrow> length (List.map_filter marshal ms) \<le> k)"
  using assms
proof (induction ms arbitrary: w)
  case (Cons m ms)
  show ?case
  proof (cases "marshal m")
    case None
    with Cons show ?thesis by (simp add: map_filter_simps)
  next
    case (Some d)
    obtain e w' where w': "writeFrame w d = (e, w')" by fastforce
    show ?thesis
    proof (cases e)
      case None
      have "\<forall>m \<in> set ms. \<forall>d. marshal m = Some d \<longrightarrow> fits_u32 d" using Cons.prems by simp
      from Cons.IH [OF this, of w'] obtain k where "fst (writeToConn marshal w' ms) = write_frames w' (take k (List.map_filter marshal ms))"
        "\<not> broken (fst (writeToConn marshal w' ms)) \<longrightarrow> length (List.map_filter marshal ms) \<le> k"
        by blast
      with None Some w' show ?thesis by (intro exI [of _ "Suc k"]) (simp add: map_filter_simps write_frames_def)
    next
      case (Some x)
      have "fits_u32 d" using Cons.prems \<open>marshal m = Some d\<close> by simp
      then have "broken w'"
        using Some w' by (auto simp: writeFrame_def conn_write_def fits_u32_def unsigned_minus_1_eq_mask mask_eq_exp_minus_1
            split: if_split_asm option.split_asm)
      with Some w' \<open>marshal m = Some d\<close> show ?thesis by (intro exI [of _ 1]) (simp add: map_filter_simps write_frames_def)
    qed
  qed
qed (simp add: write_frames_def map_filter_simps)

lemma map_filter_inverse:
  assumes "\<And>m d. marshal m = Some d \<Longrightarrow> unmarshal d = Some m"
  shows "List.map_filter unmarshal (take j (List.map_filter marshal ms)) = take j (filter (\<lambda>m. marshal m \<noteq> None) ms)"
  using assms by (induction ms arbitrary: j) (auto simp: map_filter_simps take_Cons' split: option.split)

lemma length_map_filter: "length (List.map_filter f xs) = length (filter (\<lambda>x. f x \<noteq> None) xs)"
  by (simp add: List.map_filter_def comp_def)

text \<open>C32. A connection between two nodes loses only a tail: wherever the writer breaks and wherever
  the stream is cut, the messages handed to \<open>Process\<close> on the other side are the first ones taken
  from the peer's channel, in order and unaltered, and all of them if nothing breaks. \<open>marshal\<close>
  and \<open>unmarshal\<close> are the protobuf codec, of which only the round trip is assumed.\<close>
theorem link_delivers_prefix:
  assumes codec: "\<And>m d. marshal m = Some d \<Longrightarrow> unmarshal d = Some m"
    and size: "\<forall>m \<in> set ms. \<forall>d. marshal m = Some d \<longrightarrow> int (length d) \<le> DefaultMaxFrameSize"
    and conn: "sent w = []" "\<not> broken w"
  shows "(\<exists>j. fst (readLoop unmarshal \<lparr>avail = take n (sent (fst (writeToConn marshal w ms))), after = e\<rparr> False)
        = take j (filter (\<lambda>m. marshal m \<noteq> None) ms))
    \<and> (\<not> broken (fst (writeToConn marshal w ms)) \<longrightarrow>
        fst (readLoop unmarshal \<lparr>avail = sent (fst (writeToConn marshal w ms)), after = e\<rparr> False)
          = filter (\<lambda>m. marshal m \<noteq> None) ms)"
proof -
  have ok: "\<forall>m \<in> set ms. \<forall>d. marshal m = Some d \<longrightarrow> frame_ok DefaultMaxFrameSize d"
    using size by (auto simp: frame_ok_def fits_u32_def DefaultMaxFrameSize_def)
  then have "\<forall>m \<in> set ms. \<forall>d. marshal m = Some d \<longrightarrow> fits_u32 d" by (simp add: frame_ok_def)
  from writeToConn_frames [OF this, of w] obtain k where k: "fst (writeToConn marshal w ms) = write_frames w (take k (List.map_filter marshal ms))"
    "\<not> broken (fst (writeToConn marshal w ms)) \<longrightarrow> length (List.map_filter marshal ms) \<le> k"
    by blast
  let ?ps = "take k (List.map_filter marshal ms)"
  have "\<forall>p \<in> set ?ps. frame_ok DefaultMaxFrameSize p"
    using ok by (auto dest!: in_set_takeD simp: List.map_filter_def)
  from frames_in_order [OF _ this conn, of n e]
  obtain j where "read_frames \<lparr>avail = take n (sent (write_frames w ?ps)), after = e\<rparr> DefaultMaxFrameSize = take j ?ps"
    "\<not> broken (write_frames w ?ps) \<longrightarrow> read_frames \<lparr>avail = sent (write_frames w ?ps), after = e\<rparr> DefaultMaxFrameSize = ?ps"
    by (auto simp: DefaultMaxFrameSize_def)
  moreover have "take j ?ps = take (min j k) (List.map_filter marshal ms)" by simp
  ultimately show ?thesis
    using k map_filter_inverse [of marshal unmarshal, OF codec, of _ ms]
      map_filter_inverse [of marshal unmarshal, OF codec, of "length (List.map_filter marshal ms)" ms]
    by (auto simp: readLoop_frames length_map_filter)
qed

definition sample_message :: Message where
  "sample_message = (new_Message MsgHeartbeat)\<lparr>mTo := 2\<rparr>"

definition sample_marshal :: "Message \<Rightarrow> bytes option" where
  "sample_marshal m = (if m = sample_message then Some [1] else None)"

definition sample_unmarshal :: "bytes \<Rightarrow> Message option" where
  "sample_unmarshal d = (if d = [1] then Some sample_message else None)"

theorem link_delivers_prefix_witness:
  "\<exists>j. fst (readLoop sample_unmarshal \<lparr>avail = take 9 (sent (fst (writeToConn sample_marshal
      \<lparr>sent = [], room = Some 12, broken = False\<rparr> [sample_message, sample_message]))), after = NetEOF\<rparr> False)
      = take j [sample_message, sample_message]"
proof -
  have "unmarshal = sample_unmarshal \<Longrightarrow> sample_marshal m = Some d \<Longrightarrow> unmarshal d = Some m" for m d unmarshal
    by (simp add: sample_marshal_def sample_unmarshal_def split: if_split_asm)
  moreover have "\<forall>m \<in> set [sample_message, sample_message]. \<forall>d. sample_marshal m = Some d \<longrightarrow> int (length d) \<le> DefaultMaxFrameSize"
    by (simp add: sample_marshal_def DefaultMaxFrameSize_def)
  moreover have "filter (\<lambda>m. sample_marshal m \<noteq> None) [sample_message, sample_message] = [sample_message, sample_message]"
    by (simp add: sample_marshal_def)
  ultimately show ?thesis
    using link_delivers_prefix [of sample_marshal sample_unmarshal "[sample_message, sample_message]"
        "\<lparr>sent = [], room = Some 12, broken = False\<rparr>" 9 NetEOF] by auto
qed

lemma writeToConn_healthy:
  assumes "\<forall>m \<in> set ms. \<forall>d. marshal m = Some d \<longrightarrow> fits_u32 d" "room w = None" "\<not> broken w"
  shows "writeToConn marshal w ms = (w\<lparr>sent := sent w @ concat (map frame_bytes (List.map_filter marshal ms))\<rparr>, [])"
  using assms
proof (induction ms arbitrary: w)
  case (Cons m ms)
  have "writeFrame w d = (None, w\<lparr>sent := sent w @ frame_bytes d\<rparr>)" if "marshal m = Some d" for d
  proof -
    have "\<not> length d > unat (- 1 :: u32)"
      using Cons.prems(1) that by (simp add: fits_u32_def unsigned_minus_1_eq_mask mask_eq_exp_minus_1)
    then show ?thesis using Cons.prems(2,3) by (simp add: writeFrame_def conn_write_def frame_bytes_def)
  qed
  then show ?case
    using Cons.prems Cons.IH by (cases "marshal m") (simp_all add: map_filter_simps)
qed (simp add: map_filter_simps)

lemma read_frames_oversized:
  assumes "\<forall>p \<in> set ps. frame_ok DefaultMaxFrameSize p" "DefaultMaxFrameSize < int (length d)" "fits_u32 d"
  shows "read_frames \<lparr>avail = concat (map frame_bytes ps) @ frame_bytes d @ rest, after = e\<rparr> DefaultMaxFrameSize = ps"
  using assms(1)
proof (induction ps)
  case Nil
  have "readFrameMax \<lparr>avail = frame_bytes d @ rest, after = e\<rparr> DefaultMaxFrameSize =
      (Inl NetFrameTooLarge, \<lparr>avail = d @ rest, after = e\<rparr>)"
    using assms(2,3) by (simp add: readFrameMax_def ReadFull_def frame_bytes_def unat_length_u32 Let_def DefaultMaxFrameSize_def)
  then show ?case by (subst read_frames.simps) simp
next
  case (Cons p ps)
  have "0 < DefaultMaxFrameSize" by (simp add: DefaultMaxFrameSize_def)
  then show ?case
    using Cons readFrame_whole [of DefaultMaxFrameSize p "concat (map frame_bytes ps) @ frame_bytes d @ rest" e]
    by (subst read_frames.simps) simp
qed

text \<open>C33. A message of more than 16 MiB is sent without an error and never arrives. On a working connection the
  sender writes the frames of the messages before it, its own frame and the frames of those after it,
  and keeps none back. The receiver that reads exactly these bytes processes the messages before
  it and no other: it refuses the oversized frame and gives up the connection, and with it everything that follows.\<close>
theorem oversized_message_ends_link:
  assumes codec: "\<And>m d. marshal m = Some d \<Longrightarrow> unmarshal d = Some m"
    and size: "\<forall>x \<in> set ms. \<forall>b. marshal x = Some b \<longrightarrow> int (length b) \<le> DefaultMaxFrameSize"
      "\<forall>x \<in> set ms'. \<forall>b. marshal x = Some b \<longrightarrow> fits_u32 b"
    and big: "marshal m = Some d" "DefaultMaxFrameSize < int (length d)" "fits_u32 d"
    and conn: "sent w = []" "room w = None" "\<not> broken w"
    and wire: "wire = concat (map frame_bytes (List.map_filter marshal ms)) @ frame_bytes d
      @ concat (map frame_bytes (List.map_filter marshal ms'))"
  shows "writeToConn marshal w (ms @ m # ms') = (w\<lparr>sent := wire\<rparr>, [])
    \<and> fst (readLoop unmarshal \<lparr>avail = wire, after = e\<rparr> False) = filter (\<lambda>x. marshal x \<noteq> None) ms"
proof -
  have ok: "\<forall>x \<in> set ms. \<forall>b. marshal x = Some b \<longrightarrow> frame_ok DefaultMaxFrameSize b"
    using size(1) by (auto simp: frame_ok_def fits_u32_def DefaultMaxFrameSize_def)
  then have "\<forall>x \<in> set (ms @ m # ms'). \<forall>b. marshal x = Some b \<longrightarrow> fits_u32 b"
    using size(2) big by (auto simp: frame_ok_def)
  from writeToConn_healthy [OF this conn(2,3)] have w: "writeToConn marshal w (ms @ m # ms') = (w\<lparr>sent := wire\<rparr>, [])"
    using conn(1) big(1) wire by (simp add: map_filter_def)
  have "\<forall>p \<in> set (List.map_filter marshal ms). frame_ok DefaultMaxFrameSize p" using ok by (auto simp: List.map_filter_def)
  from read_frames_oversized [OF this big(2,3)]
  have "fst (readLoop unmarshal \<lparr>avail = wire, after = e\<rparr> False) = List.map_filter unmarshal (List.map_filter marshal ms)"
    by (simp add: readLoop_frames wire)
  then show ?thesis
    using w map_filter_inverse [of marshal unmarshal, OF codec, of "length (List.map_filter marshal ms)" ms]
    by (simp add: length_map_filter)
qed

definition big_marshal :: "Message \<Rightarrow> bytes option" where
  "big_marshal m = (if m = sample_message then Some [1]
     else if m = new_Message MsgApp then Some (make_bytes 16777217) else None)"

definition big_unmarshal :: "bytes \<Rightarrow> Message option" where
  "big_unmarshal d = (if d = [1] then Some sample_message else Some (new_Message MsgApp))"

theorem oversized_message_ends_link_witness:
  "\<exists>wire. writeToConn big_marshal \<lparr>sent = [], room = None, broken = False\<rparr> ([sample_message] @ new_Message MsgApp # [sample_message])
      = (\<lparr>sent = wire, room = None, broken = False\<rparr>, [])
    \<and> fst (readLoop big_unmarshal \<lparr>avail = wire, after = NetEOF\<rparr> False) = [sample_message]"
proof -
  have ne: "make_bytes 16777217 \<noteq> [1]" by (rule notI, drule arg_cong [of _ _ length]) simp
  have ne': "sample_message \<noteq> new_Message MsgApp" by (simp add: sample_message_def new_Message_def)
  have codec: "big_unmarshal d = Some m" if "big_marshal m = Some d" for m d
    using that ne by (auto simp: big_marshal_def big_unmarshal_def split: if_split_asm)
  have size: "\<forall>x \<in> set [sample_message]. \<forall>b. big_marshal x = Some b \<longrightarrow> int (length b) \<le> DefaultMaxFrameSize"
    "\<forall>x \<in> set [sample_message]. \<forall>b. big_marshal x = Some b \<longrightarrow> fits_u32 b"
    by (simp_all add: big_marshal_def DefaultMaxFrameSize_def fits_u32_def)
  have big: "big_marshal (new_Message MsgApp) = Some (make_bytes 16777217)" "DefaultMaxFrameSize < int (length (make_bytes 16777217))"
    "fits_u32 (make_bytes 16777217)"
    using ne' by (simp_all add: big_marshal_def fits_u32_def DefaultMaxFrameSize_def)
  have "filter (\<lambda>x. big_marshal x \<noteq> None) [sample_message] = [sample_message]" by (simp add: big_marshal_def)
  with oversized_message_ends_link [of big_marshal big_unmarshal, OF codec size big,
      of "\<lparr>sent = [], room = None, broken = False\<rparr>" _ NetEOF] show ?thesis by auto
qed

text \<open>C37. Whatever the number of failures and the random jitter, a peer waits between 50 milliseconds
  and one second before it dials again. The wait doubles with each failure until it reaches the second,
  give or take a quarter: with \<open>e\<close> for the doubled and capped delay it is at least \<open>3/4 e\<close>, rounded down,
  and at most \<open>5/4 e\<close>.\<close>

theorem backoff_bounded:
  fixes u e :: rat
  assumes "0 \<le> u" "u < 1" "1 \<le> failures"
    and "e = min (of_int backoffMin * 2 powi (failures - 1)) (of_int backoffMax)"
  shows "backoffMin \<le> backoffDuration failures u \<and> backoffDuration failures u \<le> backoffMax
    \<and> \<lfloor>3 / 4 * e\<rfloor> \<le> backoffDuration failures u \<and> of_int (backoffDuration failures u) \<le> 5 / 4 * e"
proof -
  let ?j = "1 + 1 / 4 * (u * 2 - 1)" and ?d = "backoffDuration failures u"
  have d: "?d = min (max \<lfloor>e * ?j\<rfloor> backoffMin) backoffMax"
    by (simp add: backoffDuration_def Let_def assms(4) min_def max_def not_less)
  have "(1 :: rat) \<le> 2 powi (failures - 1)" using assms(3) by (simp add: power_int_def)
  then have e: "of_int backoffMin \<le> e" "e \<le> of_int backoffMax" by (simp_all add: assms(4) backoffMin_def backoffMax_def)
  then have e0: "0 \<le> e" by (simp add: backoffMin_def)
  have j: "3 / 4 \<le> ?j" "?j \<le> 5 / 4" using assms(1,2) by (simp_all add: field_simps)
  have lo: "3 / 4 * e \<le> e * ?j" using mult_left_mono [OF j(1) e0] by (simp add: mult.commute)
  have hi: "e * ?j \<le> 5 / 4 * e" using mult_left_mono [OF j(2) e0] by (simp add: mult.commute)
  have "3 / 4 * e \<le> of_int backoffMax" using e e0 by linarith
  then have "\<lfloor>3 / 4 * e\<rfloor> \<le> backoffMax" by linarith
  moreover have "\<lfloor>3 / 4 * e\<rfloor> \<le> \<lfloor>e * ?j\<rfloor>" using lo by (rule floor_mono)
  ultimately have "\<lfloor>3 / 4 * e\<rfloor> \<le> ?d" unfolding d by simp
  moreover have "of_int ?d \<le> 5 / 4 * e"
  proof -
    have "of_int \<lfloor>e * ?j\<rfloor> \<le> 5 / 4 * e" using hi of_int_floor_le [of "e * ?j"] by linarith
    moreover have "of_int backoffMin \<le> 5 / 4 * e" using e(1) e0 by linarith
    ultimately show ?thesis unfolding d by (simp add: min_def max_def split: if_split)
  qed
  moreover have "backoffMin \<le> ?d \<and> ?d \<le> backoffMax" unfolding d by (simp add: backoffMin_def backoffMax_def)
  ultimately show ?thesis by blast
qed

theorem backoff_bounded_witness:
  "150000000 \<le> backoffDuration 3 (1 / 2) \<and> backoffDuration 3 (1 / 2) \<le> 250000000"
proof -
  have e: "200000000 = min (of_int backoffMin * 2 powi (3 - 1)) (of_int backoffMax :: rat)" by (simp add: backoffMin_def backoffMax_def)
  from backoff_bounded [OF _ _ _ e, of "1 / 2"] show ?thesis by simp
qed

end
