(* ===== verification/Multiplexed.thy ===== *)
theory Multiplexed
  imports Peer_Transport
begin

text \<open>
  \<open>transport/multiplexed_transport.go\<close>: requests and replies matched by id over one connection. The
  counter and table of pending requests, the semaphore, the read loop and closing are steps on one
  state; runs interleave them in any order. The lemmas show that ids are found, that replies reach
  the request they belong to, and the round trip between two transports.
\<close>

section \<open>State\<close>

datatype mux_error = MuxNet net_error | MuxClosed | MuxCancelled | MuxInvalidPayload

datatype loop_state = LoopIdle | LoopRunning | LoopEnded

text \<open>
  A response channel is a number; \<open>mx_chans\<close> gives the values in its buffer, whose capacity is one, and
  \<open>mx_blocked\<close> records a send to a full one. \<open>inflight\<close> counts the tokens in \<open>inflightSem\<close>, \<open>mx_closed\<close>
  tells whether \<open>closeCh\<close> is closed. Looking up a pending request and removing it, two critical
  sections in the read loop, and the send to its channel are one step here; so are the three critical
  sections of a request that is sent: allocating its id, registering it and writing its frame.
\<close>

record MultiplexedTransport =
  mx_framer :: Framer
  pendingRequests :: "(u32 \<times> nat) list"
  nextId :: u32
  inflight :: nat
  maxInflight :: nat
  readLoop_state :: loop_state
  mx_closed :: bool
  lastRecvId :: u32
  mx_chans :: "nat \<Rightarrow> (mux_error + bytes) list"
  mx_nextChan :: nat
  mx_blocked :: bool

definition DefaultMaxInflight :: int where "DefaultMaxInflight = 128"

definition NewMultiplexedTransportWithLimit :: "Framer \<Rightarrow> int \<Rightarrow> MultiplexedTransport" where
  "NewMultiplexedTransportWithLimit f limit =
     (let limit = (if limit \<le> 0 then DefaultMaxInflight else limit)
      in \<lparr>mx_framer = f, pendingRequests = [], nextId = 0, inflight = 0, maxInflight = nat limit, readLoop_state = LoopIdle,
          mx_closed = False, lastRecvId = 0, mx_chans = (\<lambda>_. []), mx_nextChan = 0, mx_blocked = False\<rparr>)"

definition NewMultiplexedTransport :: "Framer \<Rightarrow> MultiplexedTransport" where
  "NewMultiplexedTransport f = NewMultiplexedTransportWithLimit f DefaultMaxInflight"

section \<open>Operations\<close>

text \<open>The loop of \<open>allocateID\<close> ends when it meets an id that is not in use.\<close>

partial_function (option) allocateID :: "MultiplexedTransport \<Rightarrow> (u32 \<times> MultiplexedTransport) option" where
  "allocateID t =
     (let rid = nextId t + 1;
          t = t\<lparr>nextId := rid\<rparr>
      in if map_of (pendingRequests t) rid = None then Some (rid, t) else allocateID t)"

definition tagged :: "u32 \<Rightarrow> bytes \<Rightarrow> bytes" where
  "tagged rid payload = put_bytes (put_bytes (make_bytes (4 + length payload)) 0 (PutUint32 rid)) 4 payload"

definition mux_write :: "Framer \<Rightarrow> int option \<Rightarrow> bytes \<Rightarrow> net_error option \<times> Framer" where
  "mux_write f ctx buf =
     (case ctx of Some d \<Rightarrow> WriteWithDeadline f buf (Some d) | None \<Rightarrow> framer_Write f buf)"

definition mux_Send :: "MultiplexedTransport \<Rightarrow> int option \<Rightarrow> bytes \<Rightarrow> mux_error option \<times> MultiplexedTransport" where
  "mux_Send t ctx payload =
     (if length payload = 0 then (Some MuxInvalidPayload, t)
      else
        (let rid = lastRecvId t;
             t = t\<lparr>lastRecvId := 0\<rparr>
         in case mux_write (mx_framer t) ctx (tagged rid payload) of
              (e, f) \<Rightarrow> (map_option MuxNet e, t\<lparr>mx_framer := f\<rparr>)))"

definition receiveInternal :: "MultiplexedTransport \<Rightarrow> int option \<Rightarrow> (mux_error + u32 \<times> bytes) \<times> MultiplexedTransport" where
  "receiveInternal t ctx =
     (case (case ctx of Some d \<Rightarrow> ReadWithDeadline (mx_framer t) (Some d) | None \<Rightarrow> framer_Read (mx_framer t)) of
        (Inl e, f) \<Rightarrow> (Inl (MuxNet e), t\<lparr>mx_framer := f\<rparr>)
      | (Inr payload, f) \<Rightarrow>
          (let t = t\<lparr>mx_framer := f\<rparr> in
           if length payload \<le> 4 then (Inl MuxInvalidPayload, t)
           else (Inr (Uint32 (take 4 payload), drop 4 payload), t)))"

definition mux_Receive :: "MultiplexedTransport \<Rightarrow> int option \<Rightarrow> (mux_error + bytes) \<times> MultiplexedTransport" where
  "mux_Receive t ctx =
     (case receiveInternal t ctx of
        (Inl e, t) \<Rightarrow> (Inl e, t)
      | (Inr (rid, payload), t) \<Rightarrow> (Inr payload, t\<lparr>lastRecvId := rid\<rparr>))"

text \<open>
  \<open>Request\<close> in three parts, between which other goroutines run. A \<open>select\<close> takes any of its ready
  cases; the choice is an argument and the result is \<open>None\<close> when that case is not ready.
\<close>

datatype acquire_case = AcquireSem | AcquireClosed | AcquireDone

definition Request_acquire ::
  "acquire_case \<Rightarrow> bool \<Rightarrow> bytes \<Rightarrow> MultiplexedTransport \<Rightarrow> (mux_error option \<times> MultiplexedTransport) option" where
  "Request_acquire pick ctx_done payload t =
     (if length payload = 0 then Some (Some MuxInvalidPayload, t)
      else
        (let t = (if readLoop_state t = LoopIdle then t\<lparr>readLoop_state := LoopRunning\<rparr> else t) in
         case pick of
           AcquireSem \<Rightarrow> if inflight t < maxInflight t then Some (None, t\<lparr>inflight := inflight t + 1\<rparr>) else None
         | AcquireClosed \<Rightarrow> if mx_closed t then Some (Some MuxClosed, t) else None
         | AcquireDone \<Rightarrow> if ctx_done then Some (Some MuxCancelled, t) else None))"

definition release :: "MultiplexedTransport \<Rightarrow> MultiplexedTransport" where
  "release t = t\<lparr>inflight := inflight t - 1\<rparr>"

definition Request_send ::
  "int option \<Rightarrow> bytes \<Rightarrow> MultiplexedTransport \<Rightarrow> ((mux_error + u32 \<times> nat) \<times> MultiplexedTransport) option" where
  "Request_send ctx payload t =
     (case allocateID t of
        None \<Rightarrow> None
      | Some (requestId, t) \<Rightarrow>
          (let respCh = mx_nextChan t;
               t = t\<lparr>mx_nextChan := respCh + 1, pendingRequests := AList.update requestId respCh (pendingRequests t)\<rparr>
           in case mux_write (mx_framer t) ctx (tagged requestId payload) of
                (Some e, f) \<Rightarrow>
                  Some (Inl (MuxNet e), release (t\<lparr>mx_framer := f, pendingRequests := AList.delete requestId (pendingRequests t)\<rparr>))
              | (None, f) \<Rightarrow> Some (Inr (requestId, respCh), t\<lparr>mx_framer := f\<rparr>)))"

datatype await_case = AwaitResp | AwaitDone | AwaitClosed

definition Request_await ::
  "await_case \<Rightarrow> bool \<Rightarrow> u32 \<Rightarrow> nat \<Rightarrow> MultiplexedTransport \<Rightarrow> ((mux_error + bytes) \<times> MultiplexedTransport) option" where
  "Request_await pick ctx_done requestId respCh t =
     (case pick of
        AwaitResp \<Rightarrow>
          (case mx_chans t respCh of
             [] \<Rightarrow> None
           | resp # rest \<Rightarrow> Some (resp, release (t\<lparr>mx_chans := (mx_chans t)(respCh := rest)\<rparr>)))
      | AwaitDone \<Rightarrow>
          if ctx_done then Some (Inl MuxCancelled, release (t\<lparr>pendingRequests := AList.delete requestId (pendingRequests t)\<rparr>)) else None
      | AwaitClosed \<Rightarrow> if mx_closed t then Some (Inl MuxClosed, release t) else None)"

definition mux_put :: "MultiplexedTransport \<Rightarrow> nat \<Rightarrow> mux_error + bytes \<Rightarrow> MultiplexedTransport" where
  "mux_put t ch resp =
     (if mx_chans t ch = [] then t\<lparr>mx_chans := (mx_chans t)(ch := [resp])\<rparr> else t\<lparr>mx_blocked := True\<rparr>)"

definition cleanup :: "MultiplexedTransport \<Rightarrow> MultiplexedTransport" where
  "cleanup t =
     (if mx_closed t then t
      else
        (let t = t\<lparr>mx_closed := True\<rparr>
         in (fold (\<lambda>(rid, ch) t. mux_put t ch (Inl MuxClosed)) (pendingRequests t) t)\<lparr>pendingRequests := []\<rparr>))"

text \<open>One round of the read loop.\<close>

definition readLoop_round :: "MultiplexedTransport \<Rightarrow> MultiplexedTransport" where
  "readLoop_round t =
     (case framer_Read (mx_framer t) of
        (Inl e, f) \<Rightarrow> cleanup (t\<lparr>mx_framer := f, readLoop_state := LoopEnded\<rparr>)
      | (Inr payload, f) \<Rightarrow>
          (let t = t\<lparr>mx_framer := f\<rparr> in
           if length payload < 4 then t
           else
             (let requestID = Uint32 (take 4 payload);
                  payloadData = drop 4 payload
              in if requestID = 0 then t
                 else
                   (case map_of (pendingRequests t) requestID of
                      None \<Rightarrow> t
                    | Some ch \<Rightarrow>
                        mux_put (t\<lparr>pendingRequests := AList.delete requestID (pendingRequests t)\<rparr>) ch (Inr payloadData)))))"

text \<open>After \<open>Close\<close> the connection delivers and takes nothing more.\<close>

definition mux_Close :: "MultiplexedTransport \<Rightarrow> MultiplexedTransport" where
  "mux_Close t =
     (let f = mx_framer t;
          f = f\<lparr>fr_r := \<lparr>avail = [], after = NetClosed\<rparr>, fr_w := (fr_w f)\<lparr>broken := True\<rparr>\<rparr>
      in cleanup (t\<lparr>mx_framer := f\<rparr>))"

section \<open>Allocation of ids\<close>

lemma tagged_eq: "tagged rid p = PutUint32 rid @ p"
  by (simp add: tagged_def make_bytes_add put_bytes_def)

lemma allocateID_free:
  assumes "map_of (pendingRequests t) (nextId t + 1 + of_nat d) = None"
  shows "\<exists>e \<le> d. allocateID t = Some (nextId t + 1 + of_nat e, t\<lparr>nextId := nextId t + 1 + of_nat e\<rparr>)
    \<and> map_of (pendingRequests t) (nextId t + 1 + of_nat e) = None
    \<and> (\<forall>i < e. map_of (pendingRequests t) (nextId t + 1 + of_nat i) \<noteq> None)"
  using assms
proof (induction d arbitrary: t)
  case 0
  then show ?case by (subst allocateID.simps) (simp add: Let_def)
next
  case (Suc d)
  show ?case
  proof (cases "map_of (pendingRequests t) (nextId t + 1)")
    case None
    then show ?thesis by (intro exI [of _ 0]) (subst allocateID.simps, simp add: Let_def)
  next
    case (Some ch)
    let ?t = "t\<lparr>nextId := nextId t + 1\<rparr>"
    have "map_of (pendingRequests ?t) (nextId ?t + 1 + of_nat d) = None" using Suc.prems by (simp add: algebra_simps)
    from Suc.IH [OF this] obtain e where e: "e \<le> d" "allocateID ?t = Some (nextId ?t + 1 + of_nat e, ?t\<lparr>nextId := nextId ?t + 1 + of_nat e\<rparr>)"
      "map_of (pendingRequests t) (nextId ?t + 1 + of_nat e) = None" "\<forall>i < e. map_of (pendingRequests t) (nextId ?t + 1 + of_nat i) \<noteq> None" by auto
    have "\<forall>i < Suc e. map_of (pendingRequests t) (nextId t + 1 + of_nat i) \<noteq> None"
      using e(4) Some by (auto simp: less_Suc_eq_0_disj algebra_simps)
    moreover have "allocateID t = allocateID ?t" using Some by (subst allocateID.simps) (simp add: Let_def)
    ultimately show ?thesis using e(1-3) by (intro exI [of _ "Suc e"]) (simp add: algebra_simps)
  qed
qed

text \<open>C36. \<open>allocateID\<close> returns whenever fewer than
  \<open>2\<^sup>3\<^sup>2\<close> requests are pending: the first id after the last one
  used, with wrap-around, that no pending request has.\<close>

theorem allocateID_returns:
  assumes "length (pendingRequests t) < 2 ^ 32"
  shows "\<exists>rid. allocateID t = Some (rid, t\<lparr>nextId := rid\<rparr>) \<and> map_of (pendingRequests t) rid = None
    \<and> (\<forall>i. 0 < i \<and> i < rid - nextId t \<longrightarrow> map_of (pendingRequests t) (nextId t + i) \<noteq> None)"
proof -
  let ?K = "fst ` set (pendingRequests t)"
  have "card ?K \<le> length (pendingRequests t)" by (metis card_image_le card_length finite_set order_trans)
  then have "card ?K < card (UNIV :: u32 set)" using assms by (simp add: card_word)
  then obtain x where "x \<notin> ?K" by (metis UNIV_I finite subset_antisym subsetI less_irrefl)
  then have "map_of (pendingRequests t) (nextId t + 1 + of_nat (unat (x - nextId t - 1))) = None"
    by (simp add: map_of_eq_None_iff)
  from allocateID_free [OF this] obtain e where e: "e \<le> unat (x - nextId t - 1)"
    "allocateID t = Some (nextId t + 1 + of_nat e, t\<lparr>nextId := nextId t + 1 + of_nat e\<rparr>)"
    "map_of (pendingRequests t) (nextId t + 1 + of_nat e) = None"
    "\<forall>i < e. map_of (pendingRequests t) (nextId t + 1 + of_nat i) \<noteq> None" by blast
  have "map_of (pendingRequests t) (nextId t + i) \<noteq> None" if "0 < i" "i < 1 + of_nat e" for i :: u32
  proof -
    have "unat (1 + of_nat e :: u32) \<le> 1 + e" by (metis One_nat_def of_nat_Suc plus_1_eq_Suc unat_of_nat mod_less_eq_dividend)
    then have "unat i - 1 < e" using that by (simp add: word_less_nat_alt)
    moreover have "nextId t + 1 + of_nat (unat i - 1) = nextId t + i" using that(1) by (simp add: word_less_nat_alt of_nat_diff)
    ultimately show ?thesis using e(4) by metis
  qed
  then show ?thesis using e(2,3) by (intro exI [of _ "nextId t + 1 + of_nat e"]) (simp add: algebra_simps)
qed

section \<open>Runs\<close>

text \<open>Requests that have been sent with their id and channel, and frames taken by the read loop.\<close>

datatype mux_event = Sent u32 nat | Frame u32 bytes

definition frame_event :: "MultiplexedTransport \<Rightarrow> mux_event list" where
  "frame_event t =
     (case fst (framer_Read (mx_framer t)) of
        Inl e \<Rightarrow> []
      | Inr p \<Rightarrow> if length p < 4 then [] else [Frame (Uint32 (take 4 p)) (drop 4 p)])"

inductive mux_run :: "MultiplexedTransport \<Rightarrow> mux_event list \<Rightarrow> MultiplexedTransport \<Rightarrow> bool" for t0 where
  start: "mux_run t0 [] t0"
| acquire: "mux_run t0 evs t \<Longrightarrow> Request_acquire pick dn payload t = Some (e, t') \<Longrightarrow> mux_run t0 evs t'"
| send: "mux_run t0 evs t \<Longrightarrow> Request_send ctx payload t = Some (Inr (rid, ch), t') \<Longrightarrow> mux_run t0 (evs @ [Sent rid ch]) t'"
| send_fails: "mux_run t0 evs t \<Longrightarrow> Request_send ctx payload t = Some (Inl e, t') \<Longrightarrow> mux_run t0 evs t'"
| await: "mux_run t0 evs t \<Longrightarrow> Request_await pick dn rid ch t = Some (r, t') \<Longrightarrow> mux_run t0 evs t'"
| read: "mux_run t0 evs t \<Longrightarrow> readLoop_state t = LoopRunning \<Longrightarrow> mux_run t0 (evs @ frame_event t) (readLoop_round t)"
| stream_send: "mux_run t0 evs t \<Longrightarrow> mux_Send t ctx payload = (e, t') \<Longrightarrow> mux_run t0 evs t'"
| stream_receive: "mux_run t0 evs t \<Longrightarrow> mux_Receive t ctx = (r, t') \<Longrightarrow> mux_run t0 evs t'"
| close: "mux_run t0 evs t \<Longrightarrow> mux_run t0 evs (mux_Close t)"

text \<open>Every pending request has a channel of its own, still empty, and has seen no frame with its id.
  A value in a channel is the first frame with the id of the request.\<close>

definition unanswered :: "mux_event list \<Rightarrow> u32 \<Rightarrow> nat \<Rightarrow> bool" where
  "unanswered evs rid ch \<longleftrightarrow> (\<exists>a b. evs = a @ Sent rid ch # b \<and> (\<forall>q. Frame rid q \<notin> set b))"

definition answered :: "mux_event list \<Rightarrow> u32 \<Rightarrow> nat \<Rightarrow> bytes \<Rightarrow> bool" where
  "answered evs rid ch p \<longleftrightarrow> (\<exists>a b c. evs = a @ Sent rid ch # b @ Frame rid p # c \<and> (\<forall>q. Frame rid q \<notin> set b))"

definition pending_ok :: "MultiplexedTransport \<Rightarrow> bool" where
  "pending_ok t \<longleftrightarrow> distinct (map fst (pendingRequests t)) \<and> distinct (map snd (pendingRequests t))
     \<and> (\<forall>rid ch. (rid, ch) \<in> set (pendingRequests t) \<longrightarrow> ch < mx_nextChan t \<and> mx_chans t ch = [])
     \<and> (\<forall>ch \<ge> mx_nextChan t. mx_chans t ch = []) \<and> \<not> mx_blocked t"

definition sent_ok :: "mux_event list \<Rightarrow> nat \<Rightarrow> bool" where
  "sent_ok evs n \<longleftrightarrow> (\<forall>rid ch. Sent rid ch \<in> set evs \<longrightarrow> ch < n \<and> (\<forall>rid'. Sent rid' ch \<in> set evs \<longrightarrow> rid = rid'))"

definition routed :: "mux_event list \<Rightarrow> MultiplexedTransport \<Rightarrow> bool" where
  "routed evs t \<longleftrightarrow> pending_ok t \<and> sent_ok evs (mx_nextChan t)
     \<and> (\<forall>rid ch. (rid, ch) \<in> set (pendingRequests t) \<longrightarrow> rid \<noteq> 0 \<longrightarrow> unanswered evs rid ch)
     \<and> (\<forall>ch p. Inr p \<in> set (mx_chans t ch) \<longrightarrow> (\<exists>rid. rid \<noteq> 0 \<and> answered evs rid ch p))"

lemma delete_subset: "set (AList.delete k xs) \<subseteq> set xs"
  by (auto simp: AList.delete_eq)

lemma distinct_delete: "distinct (map f xs) \<Longrightarrow> distinct (map f (AList.delete k xs))"
  by (simp add: AList.delete_eq distinct_map_filter)

text \<open>Steps that only drop pending requests or take values out of channels.\<close>

lemma routed_mono:
  assumes "routed evs t" "set (pendingRequests t') \<subseteq> set (pendingRequests t)" "distinct (map fst (pendingRequests t'))"
    "distinct (map snd (pendingRequests t'))" "\<And>ch. set (mx_chans t' ch) \<subseteq> set (mx_chans t ch)"
    "mx_nextChan t' = mx_nextChan t" "mx_blocked t' = mx_blocked t"
  shows "routed evs t'"
proof -
  have c: "mx_chans t ch = [] \<Longrightarrow> mx_chans t' ch = []" for ch using assms(5) [of ch] by simp
  have s: "(rid, ch) \<in> set (pendingRequests t') \<Longrightarrow> (rid, ch) \<in> set (pendingRequests t)" for rid ch using assms(2) by blast
  have "pending_ok t'" using assms(1,3,4,6,7) c s by (simp add: routed_def pending_ok_def) blast
  moreover have "unanswered evs rid ch" if "(rid, ch) \<in> set (pendingRequests t')" "rid \<noteq> 0" for rid ch
    using assms(1) s [OF that(1)] that(2) by (simp add: routed_def)
  moreover have "\<exists>rid. rid \<noteq> 0 \<and> answered evs rid ch p" if "Inr p \<in> set (mx_chans t' ch)" for ch p
    using assms(1) subsetD [OF assms(5) that] by (simp add: routed_def)
  ultimately show ?thesis using assms(1,6) by (simp add: routed_def)
qed

lemma routed_cong:
  "routed evs t \<Longrightarrow> pendingRequests t' = pendingRequests t \<Longrightarrow> mx_chans t' = mx_chans t \<Longrightarrow> mx_nextChan t' = mx_nextChan t \<Longrightarrow>
    mx_blocked t' = mx_blocked t \<Longrightarrow> routed evs t'"
  by (simp add: routed_def pending_ok_def)

lemma mux_fail_pending:
  assumes "\<forall>ch \<in> snd ` set kvs. mx_chans t ch = []" "distinct (map snd kvs)"
  shows "fold (\<lambda>(rid, ch) t. mux_put t ch (Inl MuxClosed)) kvs t =
    t\<lparr>mx_chans := (\<lambda>ch. if ch \<in> snd ` set kvs then [Inl MuxClosed] else mx_chans t ch)\<rparr>"
  using assms
proof (induction kvs arbitrary: t)
  case (Cons kv kvs)
  obtain r c where kv: "kv = (r, c)" by (cases kv)
  let ?t = "t\<lparr>mx_chans := (mx_chans t)(c := [Inl MuxClosed])\<rparr>"
  have "mux_put t c (Inl MuxClosed) = ?t" using Cons.prems(1) kv by (simp add: mux_put_def)
  moreover have "\<forall>ch \<in> snd ` set kvs. mx_chans ?t ch = []" "distinct (map snd kvs)" using Cons.prems kv by auto
  from Cons.IH [OF this] have "fold (\<lambda>(rid, ch) t. mux_put t ch (Inl MuxClosed)) kvs ?t =
      t\<lparr>mx_chans := (\<lambda>ch. if ch \<in> snd ` set kvs then [Inl MuxClosed] else mx_chans ?t ch)\<rparr>" by simp
  moreover have "(\<lambda>ch. if ch \<in> snd ` set kvs then [Inl MuxClosed] else mx_chans ?t ch) =
      (\<lambda>ch. if ch \<in> snd ` set (kv # kvs) then [Inl MuxClosed] else mx_chans t ch)" by (auto simp: kv)
  ultimately show ?case by (simp add: kv)
qed simp

lemma routed_cleanup:
  assumes "routed evs t"
  shows "routed evs (cleanup t)"
proof (cases "mx_closed t")
  case False
  have p: "\<forall>ch \<in> snd ` set (pendingRequests t). mx_chans t ch = []" "distinct (map snd (pendingRequests t))"
    using assms by (auto simp: routed_def pending_ok_def)
  have "cleanup t = t\<lparr>mx_closed := True, mx_chans := (\<lambda>ch. if ch \<in> snd ` set (pendingRequests t) then [Inl MuxClosed] else mx_chans t ch), pendingRequests := []\<rparr>"
    using mux_fail_pending [of "pendingRequests t" "t\<lparr>mx_closed := True\<rparr>"] p False by (simp add: cleanup_def Let_def cong: if_cong)
  with assms show ?thesis by (auto simp: routed_def pending_ok_def) (meson leD)
qed (simp add: cleanup_def assms)

lemma unanswered_append:
  assumes "unanswered evs rid ch" "\<forall>q. Frame rid q \<notin> set es"
  shows "unanswered (evs @ es) rid ch"
proof -
  obtain a b where "evs @ es = a @ Sent rid ch # (b @ es)" "\<forall>q. Frame rid q \<notin> set (b @ es)"
    using assms by (auto simp: unanswered_def)
  then show ?thesis unfolding unanswered_def by blast
qed

lemma answered_append:
  assumes "answered evs rid ch p"
  shows "answered (evs @ es) rid ch p"
proof -
  obtain a b c where "evs @ es = a @ Sent rid ch # b @ Frame rid p # (c @ es)" "\<forall>q. Frame rid q \<notin> set b"
    using assms by (auto simp: answered_def)
  then show ?thesis unfolding answered_def by blast
qed

lemma answered_now:
  assumes "unanswered evs rid ch"
  shows "answered (evs @ [Frame rid p]) rid ch p"
proof -
  obtain a b where "evs @ [Frame rid p] = a @ Sent rid ch # b @ Frame rid p # []" "\<forall>q. Frame rid q \<notin> set b"
    using assms by (auto simp: unanswered_def)
  then show ?thesis unfolding answered_def by blast
qed

text \<open>A frame for a pending request, a frame for none, and a new request.\<close>

lemma routed_deliver:
  assumes "routed evs t" and m: "(r, ch) \<in> set (pendingRequests t)" and u: "unanswered evs r ch" "r \<noteq> 0"
  shows "routed (evs @ [Frame r q]) (t\<lparr>mx_framer := f, pendingRequests := AList.delete r (pendingRequests t), mx_chans := (mx_chans t)(ch := [Inr q])\<rparr>)"
proof -
  let ?t = "t\<lparr>mx_framer := f, pendingRequests := AList.delete r (pendingRequests t), mx_chans := (mx_chans t)(ch := [Inr q])\<rparr>"
  have ok: "pending_ok t" using assms(1) by (simp add: routed_def)
  have d: "(rid, c) \<in> set (pendingRequests ?t) \<Longrightarrow> (rid, c) \<in> set (pendingRequests t) \<and> rid \<noteq> r" for rid c
    by (auto simp: AList.delete_eq)
  have okp: "c < mx_nextChan t \<and> mx_chans t c = []" if "(rid, c) \<in> set (pendingRequests t)" for rid c
    using ok that unfolding pending_ok_def by blast
  have ne: "c \<noteq> ch" if "(rid, c) \<in> set (pendingRequests ?t)" for rid c
  proof
    assume "c = ch"
    then have "(rid, ch) = (r, ch)" using d [OF that] m ok inj_onD [of snd "set (pendingRequests t)" "(rid, ch)" "(r, ch)"]
      by (auto simp: pending_ok_def distinct_map)
    then show False using d [OF that] by simp
  qed
  have "c < mx_nextChan ?t \<and> mx_chans ?t c = []" if "(rid, c) \<in> set (pendingRequests ?t)" for rid c
    using okp [of rid c] d [OF that] ne [OF that] by simp
  moreover have "mx_chans ?t c = []" if "mx_nextChan ?t \<le> c" for c
    using ok that okp [OF m] by (auto simp: pending_ok_def)
  moreover have "distinct (map fst (pendingRequests ?t))" "distinct (map snd (pendingRequests ?t))" "\<not> mx_blocked ?t"
    using ok by (simp_all add: pending_ok_def distinct_delete)
  ultimately have "pending_ok ?t" unfolding pending_ok_def by blast
  moreover have "sent_ok (evs @ [Frame r q]) (mx_nextChan ?t)" using assms(1) by (simp add: routed_def sent_ok_def)
  moreover have "unanswered (evs @ [Frame r q]) rid c" if "(rid, c) \<in> set (pendingRequests ?t)" "rid \<noteq> 0" for rid c
    using assms(1) d [OF that(1)] that(2) by (intro unanswered_append) (auto simp: routed_def)
  moreover have "\<exists>rid. rid \<noteq> 0 \<and> answered (evs @ [Frame r q]) rid c p" if "Inr p \<in> set (mx_chans ?t c)" for c p
  proof (cases "c = ch")
    case True
    then show ?thesis using that answered_now [OF u(1)] u(2) by auto
  next
    case False
    then have "Inr p \<in> set (mx_chans t c)" using that by simp
    then obtain rid where "rid \<noteq> 0" "answered evs rid c p" using assms(1) unfolding routed_def by blast
    then show ?thesis using answered_append by blast
  qed
  ultimately show ?thesis unfolding routed_def by blast
qed

lemma routed_ignore:
  assumes "routed evs t" "r = 0 \<or> r \<notin> fst ` set (pendingRequests t)"
  shows "routed (evs @ [Frame r q]) t"
proof -
  have "unanswered (evs @ [Frame r q]) rid ch" if "(rid, ch) \<in> set (pendingRequests t)" "rid \<noteq> 0" for rid ch
  proof (rule unanswered_append)
    show "unanswered evs rid ch" using assms(1) that unfolding routed_def by blast
    show "\<forall>q'. Frame rid q' \<notin> set [Frame r q]" using assms(2) that by force
  qed
  moreover have "\<exists>rid. rid \<noteq> 0 \<and> answered (evs @ [Frame r q]) rid ch p" if "Inr p \<in> set (mx_chans t ch)" for ch p
    using assms(1) that answered_append unfolding routed_def by blast
  moreover have "sent_ok (evs @ [Frame r q]) (mx_nextChan t)" using assms(1) by (simp add: routed_def sent_ok_def)
  ultimately show ?thesis using assms(1) by (simp add: routed_def)
qed

lemma routed_register:
  assumes "routed evs t" "map_of (pendingRequests t) r = None"
  shows "routed (evs @ [Sent r (mx_nextChan t)]) (t\<lparr>nextId := r, mx_nextChan := mx_nextChan t + 1, pendingRequests := AList.update r (mx_nextChan t) (pendingRequests t), mx_framer := f\<rparr>)"
proof -
  let ?c = "mx_nextChan t" and ?evs = "evs @ [Sent r (mx_nextChan t)]"
  let ?t = "t\<lparr>nextId := r, mx_nextChan := ?c + 1, pendingRequests := AList.update r ?c (pendingRequests t), mx_framer := f\<rparr>"
  have ok: "pending_ok t" and s: "sent_ok evs ?c" using assms(1) by (simp_all add: routed_def)
  have emp: "mx_chans t ?c = []" using ok by (simp add: pending_ok_def)
  have u: "AList.update r ?c ps = ps @ [(r, ?c)]" if "r \<notin> fst ` set ps" for ps
    using that by (induction ps) auto
  have new: "pendingRequests ?t = pendingRequests t @ [(r, ?c)]" using u assms(2) by (simp add: map_of_eq_None_iff)
  have okp: "c < ?c \<and> mx_chans t c = []" if "(rid, c) \<in> set (pendingRequests t)" for rid c
    using ok that unfolding pending_ok_def by blast
  have "distinct (map fst (pendingRequests ?t))" using ok assms(2) unfolding new by (auto simp: pending_ok_def map_of_eq_None_iff)
  moreover have "distinct (map snd (pendingRequests ?t))" using ok okp unfolding new by (fastforce simp: pending_ok_def)
  moreover have "c < mx_nextChan ?t \<and> mx_chans ?t c = []" if "(rid, c) \<in> set (pendingRequests ?t)" for rid c
    using okp [of rid c] emp that unfolding new by (auto simp: less_Suc_eq)
  moreover have "\<not> mx_blocked ?t" "mx_chans ?t c = []" if "mx_nextChan ?t \<le> c" for c using ok that by (auto simp: pending_ok_def)
  ultimately have "pending_ok ?t" using ok unfolding pending_ok_def by simp
  moreover have "sent_ok ?evs (mx_nextChan ?t)"
    using s unfolding sent_ok_def by (auto simp: less_Suc_eq)
  moreover have "unanswered ?evs rid c" if "(rid, c) \<in> set (pendingRequests ?t)" "rid \<noteq> 0" for rid c
  proof (cases "(rid, c) \<in> set (pendingRequests t)")
    case True
    then have "unanswered evs rid c" using assms(1) that(2) unfolding routed_def by blast
    then show ?thesis by (intro unanswered_append) simp_all
  next
    case False
    then have "rid = r" "c = ?c" using that(1) unfolding new by auto
    then show ?thesis unfolding unanswered_def by (intro exI [of _ evs] exI [of _ "[]"]) simp
  qed
  moreover have "\<exists>rid. rid \<noteq> 0 \<and> answered ?evs rid ch p" if "Inr p \<in> set (mx_chans ?t ch)" for ch p
  proof -
    have "Inr p \<in> set (mx_chans t ch)" using that by simp
    then show ?thesis using assms(1) answered_append unfolding routed_def by blast
  qed
  ultimately show ?thesis unfolding routed_def by blast
qed

lemma routed_read:
  assumes "routed evs t"
  shows "routed (evs @ frame_event t) (readLoop_round t)"
proof (cases "framer_Read (mx_framer t)")
  case (Pair res f)
  show ?thesis
  proof (cases res)
    case (Inl e)
    have "routed evs (t\<lparr>mx_framer := f, readLoop_state := LoopEnded\<rparr>)" using assms by (rule routed_cong) simp_all
    then show ?thesis using routed_cleanup Pair Inl by (simp add: readLoop_round_def frame_event_def)
  next
    case (Inr p)
    have f: "routed evs (t\<lparr>mx_framer := f\<rparr>)" using assms by (rule routed_cong) simp_all
    show ?thesis
    proof (cases "length p < 4")
      case True
      then show ?thesis using f Pair Inr by (simp add: readLoop_round_def frame_event_def)
    next
      case False
      define r q where rq: "r = Uint32 (take 4 p)" "q = drop 4 p"
      have ev: "frame_event t = [Frame r q]" using Pair Inr False by (simp add: frame_event_def rq)
      show ?thesis
      proof (cases "r = 0 \<or> map_of (pendingRequests t) r = None")
        case True
        then have "readLoop_round t = t\<lparr>mx_framer := f\<rparr>"
          using Pair Inr False by (auto simp: readLoop_round_def rq Let_def)
        moreover have "routed (evs @ [Frame r q]) (t\<lparr>mx_framer := f\<rparr>)"
          using f True by (intro routed_ignore) (auto simp: map_of_eq_None_iff image_iff)
        ultimately show ?thesis by (simp add: ev)
      next
        case False
        then obtain ch where ch: "map_of (pendingRequests t) r = Some ch" "r \<noteq> 0" by auto
        have m: "(r, ch) \<in> set (pendingRequests t)" using ch(1) by (rule map_of_SomeD)
        then have e: "mx_chans t ch = []" and u: "unanswered evs r ch" using assms ch(2) by (auto simp: routed_def pending_ok_def)
        let ?t = "t\<lparr>mx_framer := f, pendingRequests := AList.delete r (pendingRequests t), mx_chans := (mx_chans t)(ch := [Inr q])\<rparr>"
        have "readLoop_round t = ?t"
          using Pair Inr \<open>\<not> length p < 4\<close> ch e by (simp add: readLoop_round_def rq Let_def mux_put_def)
        then show ?thesis using routed_deliver [OF assms m u ch(2)] by (simp add: ev)
      qed
    qed
  qed
qed

lemma allocateID_Some:
  assumes "allocateID t = Some y"
  shows "map_of (pendingRequests t) (fst y) = None \<and> snd y = t\<lparr>nextId := fst y\<rparr>"
proof (rule allocateID.raw_induct [OF _ assms], goal_cases)
  case (1 f t y)
  then show ?case
    using 1(1) [of "t\<lparr>nextId := nextId t + 1\<rparr>" y] by (auto simp: Let_def split: if_split_asm)
qed

lemma Request_send_cases:
  assumes "Request_send ctx payload t = Some (res, t')"
  obtains f r where "map_of (pendingRequests t) r = None" "res = Inr (r, mx_nextChan t)"
      "t' = t\<lparr>nextId := r, mx_nextChan := mx_nextChan t + 1, pendingRequests := AList.update r (mx_nextChan t) (pendingRequests t), mx_framer := f\<rparr>"
      "mux_write (mx_framer t) ctx (tagged r payload) = (None, f)"
    | f r e where "map_of (pendingRequests t) r = None" "res = Inl (MuxNet e)"
      "t' = release (t\<lparr>nextId := r, mx_nextChan := mx_nextChan t + 1, pendingRequests := pendingRequests t, mx_framer := f\<rparr>)"
proof -
  obtain r t1 where a: "allocateID t = Some (r, t1)" using assms by (auto simp: Request_send_def split: option.split_asm)
  from allocateID_Some [OF this] have r: "map_of (pendingRequests t) r = None" "t1 = t\<lparr>nextId := r\<rparr>" by auto
  have d: "AList.delete r (AList.update r (mx_nextChan t) (pendingRequests t)) = pendingRequests t"
    using r(1) by (simp add: AList.delete_update_same AList.delete_idem map_of_eq_None_iff)
  obtain w f where w: "mux_write (mx_framer t) ctx (tagged r payload) = (w, f)" by fastforce
  show thesis
  proof (cases w)
    case None
    then show thesis using that(1) [OF r(1), of f] assms a r(2) w by (simp add: Request_send_def Let_def)
  next
    case (Some e)
    then show thesis using that(2) [OF r(1), of e f] assms a r(2) w d by (simp add: Request_send_def Let_def)
  qed
qed

lemma mux_run_routed:
  assumes "mux_run t0 evs t" "routed [] t0"
  shows "routed evs t"
  using assms(1)
proof induction
  case start
  then show ?case by (fact assms(2))
next
  case (acquire evs t pick dn payload e t')
  then show ?case
    by (intro routed_cong [OF acquire.IH])
      (auto simp: Request_acquire_def Let_def split: if_split_asm acquire_case.split_asm)
next
  case (send evs t ctx payload rid ch t')
  then show ?case by (auto elim!: Request_send_cases intro: routed_register)
next
  case (send_fails evs t ctx payload e t')
  from send_fails.hyps(2) obtain f r where
    "t' = release (t\<lparr>nextId := r, mx_nextChan := mx_nextChan t + 1, pendingRequests := pendingRequests t, mx_framer := f\<rparr>)"
    by (auto elim: Request_send_cases)
  with send_fails.IH show ?case by (auto simp: routed_def pending_ok_def release_def sent_ok_def less_Suc_eq)
next
  case (await evs t pick dn rid ch r t')
  have ok: "pending_ok t" using await.IH by (simp add: routed_def)
  show ?case
    using await.hyps(2) ok
    by (intro routed_mono [OF await.IH])
      (auto simp: Request_await_def release_def pending_ok_def distinct_delete dest: delete_subset [THEN subsetD]
        split: await_case.split_asm if_split_asm list.split_asm)
next
  case (read evs t)
  then show ?case by (simp add: routed_read)
next
  case (stream_send evs t ctx payload e t')
  then show ?case
    by (intro routed_cong [OF stream_send.IH]) (auto simp: mux_Send_def Let_def split: if_split_asm prod.split_asm)
next
  case (stream_receive evs t ctx r t')
  then show ?case
    by (intro routed_cong [OF stream_receive.IH])
      (auto simp: mux_Receive_def receiveInternal_def Let_def split: if_split_asm prod.split_asm sum.split_asm option.split_asm)
next
  case (close evs t)
  then show ?case unfolding mux_Close_def Let_def by (intro routed_cleanup routed_cong [OF close.IH]) simp_all
qed

lemma new_routed: "routed [] (NewMultiplexedTransportWithLimit f n)"
  by (simp add: NewMultiplexedTransportWithLimit_def Let_def routed_def pending_ok_def sent_ok_def)

lemma answered_sent: "answered evs rid ch p \<Longrightarrow> Sent rid ch \<in> set evs"
  by (auto simp: answered_def)

text \<open>C34. Over any interleaving of requests, timeouts, the read loop and closing, a request
  that gets a reply
  gets the first frame with its own id that the read loop took after the request was sent. A
  request whose id is 0, the first one after the counter has wrapped around, never gets one.\<close>

theorem response_reaches_its_request:
  assumes "mux_run (NewMultiplexedTransportWithLimit f n) evs t" "Sent rid ch \<in> set evs"
    "Request_await AwaitResp dn rid ch t = Some (Inr p, t')"
  shows "rid \<noteq> 0 \<and> (\<exists>a b c. evs = a @ Sent rid ch # b @ Frame rid p # c \<and> (\<forall>q. Frame rid q \<notin> set b))"
proof -
  have r: "routed evs t" by (rule mux_run_routed [OF assms(1) new_routed])
  have "Inr p \<in> set (mx_chans t ch)" using assms(3) by (auto simp: Request_await_def split: list.split_asm)
  then obtain rid' where "rid' \<noteq> 0" "answered evs rid' ch p" using r unfolding routed_def by blast
  moreover from this(2) have "rid' = rid" using r assms(2) answered_sent unfolding routed_def sent_ok_def by blast
  ultimately show ?thesis by (simp add: answered_def)
qed

section \<open>A request and its reply\<close>

text \<open>Bytes that arrive at a transport.\<close>

definition arrives :: "bytes \<Rightarrow> MultiplexedTransport \<Rightarrow> MultiplexedTransport" where
  "arrives b t = t\<lparr>mx_framer := (mx_framer t)\<lparr>fr_r := \<lparr>avail = b, after = NetEOF\<rparr>\<rparr>\<rparr>"

definition healthy :: "MultiplexedTransport \<Rightarrow> bool" where
  "healthy t \<longleftrightarrow> \<not> broken (fr_w (mx_framer t)) \<and> room (fr_w (mx_framer t)) = None \<and> 0 < maxPayload (mx_framer t)"

lemma write_healthy:
  assumes "healthy t" "fits_u32 p"
  shows "framer_Write (mx_framer t) p = (None, (mx_framer t)\<lparr>fr_w := (fr_w (mx_framer t))\<lparr>sent := sent (fr_w (mx_framer t)) @ frame_bytes p\<rparr>\<rparr>)"
proof -
  have len: "\<not> length p > unat (- 1 :: u32)"
    using assms(2) by (simp add: fits_u32_def unsigned_minus_1_eq_mask mask_eq_exp_minus_1)
  then show ?thesis using assms(1) by (simp add: framer_Write_def writeFrame_def conn_write_def healthy_def frame_bytes_def)
qed

lemma request_on_wire:
  assumes "mux_run (NewMultiplexedTransportWithLimit f n) evs c" "Request_send None p c = Some (Inr (cid, ch), c')"
    "healthy c" "fits_u32 (tagged cid p)"
  shows "sent (fr_w (mx_framer c')) = sent (fr_w (mx_framer c)) @ frame_bytes (tagged cid p)"
    "map_of (pendingRequests c') cid = Some ch" "mx_chans c' ch = []" "maxPayload (mx_framer c') = maxPayload (mx_framer c)"
proof -
  from assms(2) obtain fr where free: "ch = mx_nextChan c"
    and c': "c' = c\<lparr>nextId := cid, mx_nextChan := mx_nextChan c + 1, pendingRequests := AList.update cid (mx_nextChan c) (pendingRequests c), mx_framer := fr\<rparr>"
    and w: "mux_write (mx_framer c) None (tagged cid p) = (None, fr)"
    by (auto elim!: Request_send_cases)
  have fr: "fr = (mx_framer c)\<lparr>fr_w := (fr_w (mx_framer c))\<lparr>sent := sent (fr_w (mx_framer c)) @ frame_bytes (tagged cid p)\<rparr>\<rparr>"
    using w write_healthy [OF assms(3,4)] by (simp add: mux_write_def)
  have "routed evs c" by (rule mux_run_routed [OF assms(1) new_routed])
  then have "mx_chans c ch = []" using free by (simp add: routed_def pending_ok_def)
  then show "sent (fr_w (mx_framer c')) = sent (fr_w (mx_framer c)) @ frame_bytes (tagged cid p)"
    "map_of (pendingRequests c') cid = Some ch" "mx_chans c' ch = []" "maxPayload (mx_framer c') = maxPayload (mx_framer c)"
    by (simp_all add: c' fr free update_conv')
qed

lemma reply_delivered:
  assumes "map_of (pendingRequests c) cid = Some ch" "mx_chans c ch = []" "cid \<noteq> 0"
    "frame_ok (maxPayload (mx_framer c)) (tagged cid reply)" "0 < maxPayload (mx_framer c)"
  shows "\<exists>c'. Request_await AwaitResp False cid ch (readLoop_round (arrives (frame_bytes (tagged cid reply)) c)) = Some (Inr reply, c')"
proof -
  have "readFrameMax \<lparr>avail = frame_bytes (tagged cid reply), after = NetEOF\<rparr> (maxPayload (mx_framer c)) = (Inr (tagged cid reply), \<lparr>avail = [], after = NetEOF\<rparr>)"
    using readFrame_whole [OF assms(4,5), of "[]" NetEOF] by simp
  note rd = this [unfolded tagged_eq]
  show ?thesis
    using assms(1-3) by (simp add: readLoop_round_def arrives_def framer_Read_def Let_def rd tagged_eq mux_put_def Request_await_def)
qed

text \<open>C35. A request written by one transport is received by the other with its payload; the
  reply sent next is
  tagged with the same id and, read by the first, is what the waiting request returns.\<close>

theorem request_reply_roundtrip:
  assumes "mux_run (NewMultiplexedTransportWithLimit f n) evs c" "Request_send None payload c = Some (Inr (rid, ch), c')" "rid \<noteq> 0"
    "healthy c" "healthy s" "payload \<noteq> []" "reply \<noteq> []"
    "frame_ok (maxPayload (mx_framer s)) (tagged rid payload)" "frame_ok (maxPayload (mx_framer c)) (tagged rid reply)"
  shows "\<exists>sent_bytes s1 s2 sent_reply c3.
    sent (fr_w (mx_framer c')) = sent (fr_w (mx_framer c)) @ sent_bytes
    \<and> mux_Receive (arrives sent_bytes s) None = (Inr payload, s1)
    \<and> mux_Send s1 None reply = (None, s2) \<and> sent (fr_w (mx_framer s2)) = sent (fr_w (mx_framer s)) @ sent_reply
    \<and> Request_await AwaitResp False rid ch (readLoop_round (arrives sent_reply c')) = Some (Inr reply, c3)"
proof -
  let ?b = "frame_bytes (tagged rid payload)" and ?q = "frame_bytes (tagged rid reply)"
  have fits: "fits_u32 (tagged rid payload)" "fits_u32 (tagged rid reply)" using assms(8,9) by (simp_all add: frame_ok_def)
  note w = request_on_wire [OF assms(1,2,4) fits(1)]
  define s1 where "s1 = (arrives [] s)\<lparr>lastRecvId := rid\<rparr>"
  have rd: "readFrameMax \<lparr>avail = ?b, after = NetEOF\<rparr> (maxPayload (mx_framer s)) = (Inr (tagged rid payload), \<lparr>avail = [], after = NetEOF\<rparr>)"
    using readFrame_whole [OF assms(8), of "[]" NetEOF] assms(5) by (simp add: healthy_def)
  have rcv: "mux_Receive (arrives ?b s) None = (Inr payload, s1)"
    using assms(6) by (simp add: mux_Receive_def receiveInternal_def framer_Read_def arrives_def rd [unfolded tagged_eq] tagged_eq s1_def Let_def)
  have h1: "healthy (s1\<lparr>lastRecvId := 0\<rparr>)" using assms(5) by (simp add: healthy_def s1_def arrives_def)
  define s2 where "s2 = snd (mux_Send s1 None reply)"
  have snd: "mux_Send s1 None reply = (None, s2)" "sent (fr_w (mx_framer s2)) = sent (fr_w (mx_framer s)) @ ?q"
    using assms(7) write_healthy [OF h1 fits(2)]
    by (simp_all add: mux_Send_def s2_def Let_def mux_write_def, simp_all add: s1_def arrives_def)
  have "\<exists>c3. Request_await AwaitResp False rid ch (readLoop_round (arrives ?q c')) = Some (Inr reply, c3)"
    using reply_delivered [OF w(2,3) assms(3)] assms(4,9) w(4) by (simp add: healthy_def)
  then show ?thesis using w(1) rcv snd by blast
qed

section \<open>Sample transports\<close>

definition sample_framer :: Framer where
  "sample_framer = NewFramer \<lparr>avail = [], after = NetEOF\<rparr> \<lparr>sent = [], room = None, broken = False\<rparr> None None"

definition sample_mux :: MultiplexedTransport where
  "sample_mux = NewMultiplexedTransportWithLimit sample_framer 0"

lemma sample_mux_healthy: "healthy sample_mux"
  by (simp add: healthy_def sample_mux_def NewMultiplexedTransportWithLimit_def sample_framer_def NewFramer_def DefaultMaxFrameSize_def)

lemma sample_alloc: "allocateID sample_mux = Some (1, sample_mux\<lparr>nextId := 1\<rparr>)"
  by (subst allocateID.simps) (simp add: Let_def sample_mux_def NewMultiplexedTransportWithLimit_def)

lemma sample_send:
  "\<exists>c. Request_send None [7] sample_mux = Some (Inr (1, 0), c) \<and> map_of (pendingRequests c) 1 = Some 0 \<and> mx_chans c 0 = []
    \<and> maxPayload (mx_framer c) = DefaultMaxFrameSize"
proof -
  have "fits_u32 (tagged 1 [7])" by (simp add: fits_u32_def tagged_eq)
  from write_healthy [OF sample_mux_healthy this] sample_alloc show ?thesis
    by (simp add: Request_send_def Let_def mux_write_def)
      (simp add: sample_mux_def NewMultiplexedTransportWithLimit_def Let_def sample_framer_def NewFramer_def)
qed

theorem allocateID_returns_witness:
  "\<exists>rid. allocateID (sample_mux\<lparr>pendingRequests := [(1, 0), (2, 1)]\<rparr>) = Some (rid, sample_mux\<lparr>pendingRequests := [(1, 0), (2, 1)], nextId := rid\<rparr>)
    \<and> map_of (pendingRequests (sample_mux\<lparr>pendingRequests := [(1, 0), (2, 1)]\<rparr>)) rid = None"
proof -
  have "length (pendingRequests (sample_mux\<lparr>pendingRequests := [(1, 0), (2, 1)]\<rparr>)) < 2 ^ 32" by simp
  from allocateID_returns [OF this] show ?thesis by blast
qed

text \<open>A transport on which the reply to the first request is about to arrive.\<close>

definition answered_mux :: MultiplexedTransport where
  "answered_mux = NewMultiplexedTransportWithLimit (sample_framer\<lparr>fr_r := \<lparr>avail = frame_bytes (tagged 1 [9]), after = NetEOF\<rparr>\<rparr>) 0"

theorem response_reaches_its_request_witness:
  "\<exists>evs t t'. mux_run answered_mux evs t \<and> Request_await AwaitResp False 1 0 t = Some (Inr [9], t')
    \<and> (\<exists>a b c. evs = a @ Sent 1 0 # b @ Frame 1 [9] # c \<and> (\<forall>q. Frame 1 q \<notin> set b))"
proof -
  define t1 where "t1 = answered_mux\<lparr>readLoop_state := LoopRunning, inflight := 1\<rparr>"
  have "Request_acquire AcquireSem False [7] answered_mux = Some (None, t1)"
    by (simp add: Request_acquire_def t1_def answered_mux_def NewMultiplexedTransportWithLimit_def Let_def DefaultMaxInflight_def)
  then have r1: "mux_run answered_mux [] t1" using mux_run.start by (rule mux_run.acquire [rotated])
  have "allocateID t1 = Some (1, t1\<lparr>nextId := 1\<rparr>)"
    by (subst allocateID.simps) (simp add: Let_def t1_def answered_mux_def NewMultiplexedTransportWithLimit_def)
  moreover have "healthy t1"
    by (simp add: healthy_def t1_def answered_mux_def NewMultiplexedTransportWithLimit_def sample_framer_def NewFramer_def DefaultMaxFrameSize_def)
  moreover have "fits_u32 (tagged 1 [7])" by (simp add: fits_u32_def tagged_eq)
  ultimately obtain t2 where t2: "Request_send None [7] t1 = Some (Inr (1, 0), t2)" "readLoop_state t2 = LoopRunning"
    "fr_r (mx_framer t2) = \<lparr>avail = frame_bytes (tagged 1 [9]), after = NetEOF\<rparr>" "maxPayload (mx_framer t2) = DefaultMaxFrameSize"
    "pendingRequests t2 = [(1, 0)]" "mx_chans t2 0 = []"
    using write_healthy [of t1 "tagged 1 [7]"]
    by (simp add: Request_send_def Let_def mux_write_def)
      (simp add: t1_def answered_mux_def NewMultiplexedTransportWithLimit_def Let_def sample_framer_def NewFramer_def)
  have "readFrameMax \<lparr>avail = frame_bytes (tagged 1 [9]), after = NetEOF\<rparr> DefaultMaxFrameSize = (Inr (tagged 1 [9]), \<lparr>avail = [], after = NetEOF\<rparr>)"
    using readFrame_whole [of DefaultMaxFrameSize "tagged 1 [9]" "[]" NetEOF] by (simp add: frame_ok_def DefaultMaxFrameSize_def tagged_eq fits_u32_def)
  note rd = this [unfolded tagged_eq]
  have run: "mux_run answered_mux [Sent 1 0, Frame 1 [9]] (readLoop_round t2)"
    using mux_run.read [OF mux_run.send [OF r1 t2(1)] t2(2)]
    by (simp add: frame_event_def framer_Read_def t2(3,4) rd tagged_eq)
  moreover obtain t' where "Request_await AwaitResp False 1 0 (readLoop_round t2) = Some (Inr [9], t')"
    by (simp add: readLoop_round_def framer_Read_def t2(3-6) rd tagged_eq Let_def mux_put_def Request_await_def)
  moreover have "\<exists>a b c. [Sent 1 0, Frame 1 [9]] = a @ Sent 1 0 # b @ Frame 1 [9] # c \<and> (\<forall>q. Frame 1 q \<notin> set b)"
    using response_reaches_its_request [OF run [unfolded answered_mux_def] _ calculation(2)] by simp
  ultimately show ?thesis by blast
qed

theorem request_reply_roundtrip_witness:
  "\<exists>c' sent_bytes s1 s2 sent_reply c3. Request_send None [7] sample_mux = Some (Inr (1, 0), c')
    \<and> sent (fr_w (mx_framer c')) = sent (fr_w (mx_framer sample_mux)) @ sent_bytes
    \<and> mux_Receive (arrives sent_bytes sample_mux) None = (Inr [7], s1)
    \<and> mux_Send s1 None [9] = (None, s2) \<and> sent (fr_w (mx_framer s2)) = sent (fr_w (mx_framer sample_mux)) @ sent_reply
    \<and> Request_await AwaitResp False 1 0 (readLoop_round (arrives sent_reply c')) = Some (Inr [9], c3)"
proof -
  have r: "mux_run (NewMultiplexedTransportWithLimit sample_framer 0) [] sample_mux" by (simp add: sample_mux_def mux_run.start)
  obtain c' where s: "Request_send None [7] sample_mux = Some (Inr (1, 0), c')" using sample_send by blast
  have f: "frame_ok (maxPayload (mx_framer sample_mux)) (tagged 1 [7])" "frame_ok (maxPayload (mx_framer sample_mux)) (tagged 1 [9])"
    by (simp_all add: frame_ok_def tagged_eq fits_u32_def sample_mux_def NewMultiplexedTransportWithLimit_def sample_framer_def NewFramer_def DefaultMaxFrameSize_def)
  from request_reply_roundtrip [OF r s one_neq_zero sample_mux_healthy sample_mux_healthy list.distinct(2) list.distinct(2) f] s
  show ?thesis by blast
qed

end
