(* ===== verification/Dispatch.thy ===== *)
theory Dispatch
  imports Server Multiplexed
begin

text \<open>
  From a client's request to its answer: \<open>server/config.go\<close>, the options part of \<open>server/server.go\<close>,
  \<open>server/dispatcher.go\<close>, the handlers of \<open>server/handler_kv.go\<close>, \<open>handler_http.go\<close> and
  \<open>handler_grpc.go\<close>. The property follows one request from the client's transport through the
  dispatcher and back; the other lemmas relate the three front ends and check the options.
\<close>

section \<open>Options\<close>

record Options =
  optID :: u64
  optNetwork :: string
  optHost :: string
  optPort :: nat
  optDataDir :: string
  ReadTimeout :: int
  WriteTimeout :: int
  MaxFrameSize :: int

definition defaultHost :: string where "defaultHost = ''127.0.0.1''"
definition defaultNetwork :: string where "defaultNetwork = ''tcp''"
definition supportedNetworks :: "string list" where "supportedNetworks = [''tcp'', ''tcp4'', ''tcp6'', ''unix'']"
definition defaultReadTimeout :: int where "defaultReadTimeout = 5 * 1000000000"
definition defaultWriteTimeout :: int where "defaultWriteTimeout = 5 * 1000000000"
definition defaultMaxFrameSize :: int where "defaultMaxFrameSize = 16 * 2 ^ 20"

definition applyDefaults :: "Options \<Rightarrow> Options" where
  "applyDefaults o1 =
     (let o1 = (if ReadTimeout o1 \<le> 0 then o1\<lparr>ReadTimeout := defaultReadTimeout\<rparr> else o1);
          o1 = (if WriteTimeout o1 \<le> 0 then o1\<lparr>WriteTimeout := defaultWriteTimeout\<rparr> else o1)
      in if MaxFrameSize o1 \<le> 0 then o1\<lparr>MaxFrameSize := defaultMaxFrameSize\<rparr> else o1)"

datatype option_error = DataDirRequired | UnsupportedNetwork string | SocketPathRequired | ZeroID

definition validate :: "Options \<Rightarrow> option_error option" where
  "validate opts =
     (if optDataDir opts = '''' then Some DataDirRequired
      else if optNetwork opts \<noteq> '''' \<and> optNetwork opts \<notin> set supportedNetworks then Some (UnsupportedNetwork (optNetwork opts))
      else if optNetwork opts = ''unix'' \<and> optHost opts = '''' then Some SocketPathRequired
      else if optID opts = 0 then Some ZeroID
      else None)"

definition network :: "Options \<Rightarrow> string" where
  "network opts = (if optNetwork opts = '''' then defaultNetwork else optNetwork opts)"

definition httpHost :: "Options \<Rightarrow> string" where
  "httpHost opts = (let host = optHost opts in if host = '''' then defaultHost else host)"

definition listenAddr :: "Options \<Rightarrow> string" where
  "listenAddr opts =
     (let net = network opts in
      if net = ''unix'' then optHost opts
      else
        (let host = (if optHost opts = '''' then defaultHost else optHost opts) in
         if net = ''tcp6'' \<and> host \<noteq> '''' \<and> hd host \<noteq> CHR ''['' then ''['' @ host @ '']:'' @ dec_digits (optPort opts)
         else host @ '':'' @ dec_digits (optPort opts)))"

section \<open>dispatcher.go and handler_kv.go\<close>

datatype reply_error = ReplyProto proto_error | ReplyTransport mux_error | ReplyServer server_error

text \<open>\<open>now\<close> is the time at the call; the deadline of a write lies \<open>WriteTimeout\<close> later.\<close>

definition writeResponse ::
  "Options \<Rightarrow> int \<Rightarrow> MultiplexedTransport \<Rightarrow> Response \<Rightarrow> reply_error option \<times> MultiplexedTransport" where
  "writeResponse opts now t resp =
     (case EncodeResponse resp of
        Inl e \<Rightarrow> (Some (ReplyProto e), t)
      | Inr p \<Rightarrow> (case mux_Send t (Some (now + WriteTimeout opts)) p of (e, t) \<Rightarrow> (map_option ReplyTransport e, t)))"

definition responseWithStatus :: "Options \<Rightarrow> int \<Rightarrow> MultiplexedTransport \<Rightarrow> u8 \<Rightarrow> reply_error option \<times> MultiplexedTransport" where
  "responseWithStatus opts now t st = writeResponse opts now t \<lparr>rsStatus = st, rsValue = [], rsSeq = 0\<rparr>"

definition responseStatusError :: "Options \<Rightarrow> int \<Rightarrow> MultiplexedTransport \<Rightarrow> reply_error option \<times> MultiplexedTransport" where
  "responseStatusError opts now t = responseWithStatus opts now t StatusError"

text \<open>
  The handlers from the point where \<open>proposeRead\<close> or \<open>proposePut\<close> has returned \<open>res\<close>. \<open>bad\<close> and \<open>b\<close>
  are what the disk does if the lookup has to read the value file.
\<close>

definition handleGet ::
  "Options \<Rightarrow> int \<Rightarrow> server_error option \<Rightarrow> nat option \<Rightarrow> bool \<Rightarrow> Request \<Rightarrow> MultiplexedTransport \<Rightarrow> Server
   \<Rightarrow> reply_error option \<times> MultiplexedTransport \<times> Server" where
  "handleGet opts now res bad b rq t s =
     (case res of
        Some e \<Rightarrow>
          (case (if e = SrvDeadline then responseWithStatus opts now t StatusTimeout else responseStatusError opts now t) of
             (err, t) \<Rightarrow> (err, t, s))
      | None \<Rightarrow>
          (case db_Get bad b (sv_db s) (rqKey rq) of
             (val, db) \<Rightarrow>
               (let s = s\<lparr>sv_db := db\<rparr> in
                case val of
                  None \<Rightarrow>
                    (case writeResponse opts now t \<lparr>rsStatus = StatusNotFound, rsValue = [], rsSeq = 0\<rparr> of (err, t) \<Rightarrow> (err, t, s))
                | Some v \<Rightarrow>
                    (case writeResponse opts now t \<lparr>rsStatus = StatusOK, rsValue = v, rsSeq = 0\<rparr> of (err, t) \<Rightarrow> (err, t, s)))))"

definition handlePut ::
  "Options \<Rightarrow> int \<Rightarrow> server_error option \<Rightarrow> MultiplexedTransport \<Rightarrow> reply_error option \<times> MultiplexedTransport" where
  "handlePut opts now res t =
     (case res of
        Some e \<Rightarrow> (Some (ReplyServer e), t)
      | None \<Rightarrow> responseWithStatus opts now t StatusOK)"

datatype HandlerFunc = HandleGet | HandlePut

text \<open>The table built by \<open>registerRequestHandlers\<close>.\<close>

definition requestHandlers :: "u8 \<rightharpoonup> HandlerFunc" where
  "requestHandlers = [CmdGet \<mapsto> HandleGet, CmdPut \<mapsto> HandlePut]"

text \<open>
  A round of \<open>handleRequest\<close> up to the call of a handler and from there on. It ends the loop, goes
  on to the next round or has a handler to call.
\<close>

datatype dispatch = Return | Continue | Call HandlerFunc Request

definition reject :: "Options \<Rightarrow> int \<Rightarrow> MultiplexedTransport \<Rightarrow> dispatch \<times> MultiplexedTransport" where
  "reject opts now t =
     (case writeResponse opts now t \<lparr>rsStatus = StatusError, rsValue = [], rsSeq = 0\<rparr> of
        (Some e, t) \<Rightarrow> (Return, t)
      | (None, t) \<Rightarrow> (Continue, t))"

definition handleRequest_read ::
  "Options \<Rightarrow> int \<Rightarrow> int \<Rightarrow> MultiplexedTransport \<Rightarrow> panic + dispatch \<times> MultiplexedTransport" where
  "handleRequest_read opts timeout now t =
     (let readCtx = (if timeout > 0 then Some (now + timeout) else None) in
      case mux_Receive t readCtx of
        (Inl e, t) \<Rightarrow> Inr (Return, t)
      | (Inr p, t) \<Rightarrow>
          and_then (DecodeRequest p) (\<lambda>res.
            case res of
              Inl e \<Rightarrow> Inr (reject opts now t)
            | Inr rq \<Rightarrow>
                (case requestHandlers (rqCmd rq) of
                   None \<Rightarrow> Inr (reject opts now t)
                 | Some h \<Rightarrow> Inr (Call h rq, t))))"

definition handleRequest_call ::
  "Options \<Rightarrow> int \<Rightarrow> server_error option \<Rightarrow> nat option \<Rightarrow> bool \<Rightarrow> HandlerFunc \<Rightarrow> Request \<Rightarrow> MultiplexedTransport \<Rightarrow> Server
   \<Rightarrow> dispatch \<times> MultiplexedTransport \<times> Server" where
  "handleRequest_call opts now res bad b h rq t s =
     (case (case h of
              HandleGet \<Rightarrow> handleGet opts now res bad b rq t s
            | HandlePut \<Rightarrow> (case handlePut opts now res t of (err, t) \<Rightarrow> (err, t, s))) of
        (None, t, s) \<Rightarrow> (Continue, t, s)
      | (Some err, t, s) \<Rightarrow> (case reject opts now t of (d, t) \<Rightarrow> (d, t, s)))"

definition handleRequest_round ::
  "Options \<Rightarrow> int \<Rightarrow> int \<Rightarrow> int \<Rightarrow> server_error option \<Rightarrow> nat option \<Rightarrow> bool \<Rightarrow> MultiplexedTransport \<Rightarrow> Server
   \<Rightarrow> panic + dispatch \<times> MultiplexedTransport \<times> Server" where
  "handleRequest_round opts timeout now later res bad b t s =
     and_then (handleRequest_read opts timeout now t) (\<lambda>(d, t).
       case d of Call h rq \<Rightarrow> Inr (handleRequest_call opts later res bad b h rq t s) | _ \<Rightarrow> Inr (d, t, s))"

section \<open>handler_http.go and handler_grpc.go\<close>

text \<open>
  The other two front ends, again from the point where the proposal has returned; the texts that go
  with an error code are left out. \<open>MaxBytesReader\<close> fails a body longer than \<open>MaxFrameSize\<close>; \<open>cut_off\<close>
  tells that reading the body fails for another reason.
\<close>

datatype http_reply = HttpError nat | HttpOK bytes

definition httpGet ::
  "server_error option \<Rightarrow> nat option \<Rightarrow> bool \<Rightarrow> bytes \<Rightarrow> Server \<Rightarrow> http_reply \<times> Server" where
  "httpGet res bad b key s =
     (case res of
        Some e \<Rightarrow> (HttpError (if e = SrvDeadline then 504 else 503), s)
      | None \<Rightarrow>
          (case db_Get bad b (sv_db s) key of
             (val, db) \<Rightarrow>
               (case val of
                  None \<Rightarrow> (HttpError 404, s\<lparr>sv_db := db\<rparr>)
                | Some v \<Rightarrow> (HttpOK v, s\<lparr>sv_db := db\<rparr>))))"

definition httpPut_read :: "Options \<Rightarrow> bool \<Rightarrow> bytes \<Rightarrow> http_reply + bytes" where
  "httpPut_read opts cut_off body =
     (if cut_off \<or> int (length body) > MaxFrameSize opts then Inl (HttpError 413) else Inr body)"

definition httpPut_done :: "server_error option \<Rightarrow> http_reply" where
  "httpPut_done res = (case res of Some e \<Rightarrow> HttpError 503 | None \<Rightarrow> HttpOK [])"

datatype grpc_code = GrpcInternal | GrpcNotFound

definition grpc_Put :: "server_error option \<Rightarrow> grpc_code + unit" where
  "grpc_Put res = (case res of Some e \<Rightarrow> Inl GrpcInternal | None \<Rightarrow> Inr ())"

definition grpc_Get :: "server_error option \<Rightarrow> nat option \<Rightarrow> bool \<Rightarrow> bytes \<Rightarrow> Server \<Rightarrow> (grpc_code + bytes) \<times> Server" where
  "grpc_Get res bad b key s =
     (case res of
        Some e \<Rightarrow> (Inl GrpcInternal, s)
      | None \<Rightarrow>
          (case db_Get bad b (sv_db s) key of
             (val, db) \<Rightarrow>
               (case val of
                  None \<Rightarrow> (Inl GrpcNotFound, s\<lparr>sv_db := db\<rparr>)
                | Some v \<Rightarrow> (Inr v, s\<lparr>sv_db := db\<rparr>))))"

section \<open>Options and front ends\<close>

text \<open>Defaults leave no limit at zero and change nothing that is set; validated options give an address.\<close>

lemma applyDefaults_positive:
  "0 < ReadTimeout (applyDefaults o1) \<and> 0 < WriteTimeout (applyDefaults o1) \<and> 0 < MaxFrameSize (applyDefaults o1)"
  "applyDefaults (applyDefaults o1) = applyDefaults o1"
  "validate (applyDefaults o1) = validate o1"
  by (simp_all add: applyDefaults_def Let_def validate_def defaultReadTimeout_def defaultWriteTimeout_def defaultMaxFrameSize_def)

lemma listenAddr_nonempty: "validate opts = None \<Longrightarrow> listenAddr opts \<noteq> [] \<and> network opts \<in> set supportedNetworks"
  by (auto simp: validate_def listenAddr_def network_def Let_def supportedNetworks_def defaultNetwork_def split: if_splits)

section \<open>One answer for every request\<close>

definition status :: "u8 \<Rightarrow> Response" where
  "status st = \<lparr>rsStatus = st, rsValue = [], rsSeq = 0\<rparr>"

text \<open>The answer a client is owed.\<close>

definition answer :: "bytes \<Rightarrow> server_error option \<Rightarrow> (bytes \<Rightarrow> bytes option) \<Rightarrow> Response" where
  "answer p res lookup =
     (case DecodeRequest p of
        Inr (Inr rq) \<Rightarrow>
          if rqCmd rq = CmdGet then
            (case res of
               Some e \<Rightarrow> status (if e = SrvDeadline then StatusTimeout else StatusError)
             | None \<Rightarrow>
                 (case lookup (rqKey rq) of
                    None \<Rightarrow> status StatusNotFound
                  | Some v \<Rightarrow> \<lparr>rsStatus = StatusOK, rsValue = v, rsSeq = 0\<rparr>))
          else if rqCmd rq = CmdPut \<and> res = None then status StatusOK
          else status StatusError
      | _ \<Rightarrow> status StatusError)"

text \<open>The three front ends give a reader the same result.\<close>

lemma front_ends_agree:
  assumes "DecodeRequest p = Inr (Inr rq)" "rqCmd rq = CmdGet"
  shows "answer p res (\<lambda>k. fst (db_Get bad b (sv_db s) k)) = \<lparr>rsStatus = StatusOK, rsValue = v, rsSeq = 0\<rparr>
      \<longleftrightarrow> fst (httpGet res bad b (rqKey rq) s) = HttpOK v"
    "fst (httpGet res bad b (rqKey rq) s) = HttpOK v \<longleftrightarrow> fst (grpc_Get res bad b (rqKey rq) s) = Inr v"
    "answer p res (\<lambda>k. fst (db_Get bad b (sv_db s) k)) = status StatusNotFound \<longleftrightarrow> fst (httpGet res bad b (rqKey rq) s) = HttpError 404"
    "fst (httpGet res bad b (rqKey rq) s) = HttpError 404 \<longleftrightarrow> fst (grpc_Get res bad b (rqKey rq) s) = Inl GrpcNotFound"
proof -
  obtain val db where g: "db_Get bad b (sv_db s) (rqKey rq) = (val, db)" by fastforce
  have a: "answer p res (\<lambda>k. fst (db_Get bad b (sv_db s) k)) =
      (case res of Some e \<Rightarrow> status (if e = SrvDeadline then StatusTimeout else StatusError)
       | None \<Rightarrow> (case val of None \<Rightarrow> status StatusNotFound | Some v \<Rightarrow> \<lparr>rsStatus = StatusOK, rsValue = v, rsSeq = 0\<rparr>))"
    using assms g by (simp add: answer_def split: option.split)
  have h: "fst (httpGet res bad b (rqKey rq) s) =
      (case res of Some e \<Rightarrow> HttpError (if e = SrvDeadline then 504 else 503) | None \<Rightarrow> (case val of None \<Rightarrow> HttpError 404 | Some v \<Rightarrow> HttpOK v))"
    "fst (grpc_Get res bad b (rqKey rq) s) =
      (case res of Some e \<Rightarrow> Inl GrpcInternal | None \<Rightarrow> (case val of None \<Rightarrow> Inl GrpcNotFound | Some v \<Rightarrow> Inr v))"
    using g by (simp_all add: httpGet_def grpc_Get_def split: option.split)
  show "answer p res (\<lambda>k. fst (db_Get bad b (sv_db s) k)) = \<lparr>rsStatus = StatusOK, rsValue = v, rsSeq = 0\<rparr>
      \<longleftrightarrow> fst (httpGet res bad b (rqKey rq) s) = HttpOK v"
    "answer p res (\<lambda>k. fst (db_Get bad b (sv_db s) k)) = status StatusNotFound \<longleftrightarrow> fst (httpGet res bad b (rqKey rq) s) = HttpError 404"
    unfolding a h by (simp_all add: status_def split: option.split)
  show "fst (httpGet res bad b (rqKey rq) s) = HttpOK v \<longleftrightarrow> fst (grpc_Get res bad b (rqKey rq) s) = Inr v"
    "fst (httpGet res bad b (rqKey rq) s) = HttpError 404 \<longleftrightarrow> fst (grpc_Get res bad b (rqKey rq) s) = Inl GrpcNotFound"
    unfolding h by (simp_all split: option.split)
qed

text \<open>A connection that works and supports deadlines.\<close>

definition live :: "MultiplexedTransport \<Rightarrow> bool" where
  "live t \<longleftrightarrow> healthy t \<and> readDL (mx_framer t) = Some None \<and> writeDL (mx_framer t) = Some None"

definition replied :: "Response \<Rightarrow> MultiplexedTransport \<Rightarrow> MultiplexedTransport" where
  "replied r t = t\<lparr>lastRecvId := 0, mx_framer := (mx_framer t)\<lparr>fr_w := (fr_w (mx_framer t))\<lparr>sent :=
     sent (fr_w (mx_framer t)) @ frame_bytes (tagged (lastRecvId t) (response_bytes r))\<rparr>\<rparr>\<rparr>"

lemma writeResponse_live:
  assumes "live t" "EncodeResponse r = Inr (response_bytes r)" "fits_u32 (tagged (lastRecvId t) (response_bytes r))"
  shows "writeResponse opts now t r = (None, replied r t)"
proof -
  have "healthy (t\<lparr>lastRecvId := 0\<rparr>)" using assms(1) by (simp add: live_def healthy_def)
  from write_healthy [OF this assms(3)]
  have "mux_write (mx_framer t) (Some d) (tagged (lastRecvId t) (response_bytes r)) = (None, mx_framer (replied r t))" for d
    using assms(1) by (simp add: mux_write_def WriteWithDeadline_def live_def replied_def)
  moreover have "response_bytes r \<noteq> []" by (simp add: response_bytes_def)
  ultimately show ?thesis using assms(2) by (simp add: writeResponse_def mux_Send_def Let_def) (simp add: replied_def)
qed

lemma EncodeResponse_status: "st \<le> StatusTimeout \<Longrightarrow> EncodeResponse (status st) = Inr (response_bytes (status st))"
  by (simp add: EncodeResponse_eq status_def fits_u32_def word_less_nat_alt word_le_nat_alt)

lemma fits_status: "fits_u32 (tagged cid (response_bytes (status st)))"
  by (simp add: fits_u32_def tagged_eq response_bytes_def status_def)

lemma write_status: "live t \<Longrightarrow> st \<le> StatusTimeout \<Longrightarrow> writeResponse opts now t (status st) = (None, replied (status st) t)"
  by (rule writeResponse_live [OF _ EncodeResponse_status fits_status])

lemma reject_live: "live t \<Longrightarrow> reject opts now t = (Continue, replied (status StatusError) t)"
  using write_status [of t StatusError opts now] by (simp add: reject_def status_def)

lemma call_answers:
  assumes "live t" "DecodeRequest p = Inr (Inr rq)" "requestHandlers (rqCmd rq) = Some h"
    and "r = answer p res (\<lambda>k. fst (db_Get bad b (sv_db s) k))" "fits_u32 (tagged (lastRecvId t) (response_bytes r))"
  shows "\<exists>s'. handleRequest_call opts now res bad b h rq t s = (Continue, replied r t, s')"
proof (cases "rqCmd rq = CmdGet")
  case True
  then have h: "h = HandleGet" using assms(3) by (simp add: requestHandlers_def)
  show ?thesis
  proof (cases res)
    case None
    obtain val db where g: "db_Get bad b (sv_db s) (rqKey rq) = (val, db)" by fastforce
    show ?thesis
    proof (cases val)
      case None
      then have "r = status StatusNotFound" using assms(2,4) True \<open>res = None\<close> g by (simp add: answer_def)
      then show ?thesis
        using write_status [OF assms(1), of StatusNotFound] h g \<open>res = None\<close> None
        by (simp add: handleRequest_call_def handleGet_def Let_def) (simp add: status_def word_le_nat_alt)
    next
      case (Some v)
      then have r: "r = \<lparr>rsStatus = StatusOK, rsValue = v, rsSeq = 0\<rparr>" using assms(2,4) True \<open>res = None\<close> g by (simp add: answer_def)
      then have "fits_u32 v" using assms(5) by (simp add: fits_u32_def tagged_eq response_bytes_def)
      then have "writeResponse opts now t r = (None, replied r t)"
        using writeResponse_live [OF assms(1) _ assms(5)] r by (simp add: EncodeResponse_eq)
      then show ?thesis using h g \<open>res = None\<close> Some r by (simp add: handleRequest_call_def handleGet_def Let_def)
    qed
  next
    case (Some e)
    then have "r = status (if e = SrvDeadline then StatusTimeout else StatusError)" using assms(2,4) True by (simp add: answer_def)
    then show ?thesis
      using write_status [OF assms(1), of StatusTimeout] write_status [OF assms(1), of StatusError] h Some
      by (simp add: handleRequest_call_def handleGet_def responseStatusError_def responseWithStatus_def) (simp add: status_def word_le_nat_alt)
  qed
next
  case False
  then have h: "h = HandlePut" "rqCmd rq = CmdPut" using assms(3) by (auto simp: requestHandlers_def split: if_split_asm)
  show ?thesis
  proof (cases res)
    case None
    then have "r = status StatusOK" using assms(2,4) h by (simp add: answer_def)
    then show ?thesis
      using write_status [OF assms(1), of StatusOK] h None
      by (simp add: handleRequest_call_def handlePut_def responseWithStatus_def) (simp add: status_def word_le_nat_alt)
  next
    case (Some e)
    then have "r = status StatusError" using assms(2,4) h by (simp add: answer_def)
    then show ?thesis using reject_live [OF assms(1)] h Some by (simp add: handleRequest_call_def handlePut_def)
  qed
qed

lemma receive_live:
  assumes "live t" "frame_ok (maxPayload (mx_framer t)) (tagged cid p)" "p \<noteq> []"
  shows "mux_Receive (arrives (frame_bytes (tagged cid p)) t) ctx = (Inr p, (arrives [] t)\<lparr>lastRecvId := cid\<rparr>)"
proof -
  have "readFrameMax \<lparr>avail = frame_bytes (tagged cid p), after = NetEOF\<rparr> (maxPayload (mx_framer t)) = (Inr (tagged cid p), \<lparr>avail = [], after = NetEOF\<rparr>)"
    using readFrame_whole [OF assms(2), of "[]" NetEOF] assms(1) by (simp add: live_def healthy_def)
  note rd = this [unfolded tagged_eq]
  show ?thesis
    using assms(1,3)
    by (cases ctx) (simp_all add: mux_Receive_def receiveInternal_def ReadWithDeadline_def framer_Read_def arrives_def rd tagged_eq live_def Let_def)
qed

lemma round_answers:
  assumes "live t" "frame_ok (maxPayload (mx_framer t)) (tagged cid p)" "p \<noteq> []"
    and "r = answer p res (\<lambda>k. fst (db_Get bad b (sv_db s) k))" "fits_u32 (tagged cid (response_bytes r))"
  shows "\<exists>t' s'. handleRequest_round opts timeout now later res bad b (arrives (frame_bytes (tagged cid p)) t) s = Inr (Continue, t', s')
    \<and> live t' \<and> sent (fr_w (mx_framer t')) = sent (fr_w (mx_framer t)) @ frame_bytes (tagged cid (response_bytes r))"
proof -
  let ?t = "(arrives [] t)\<lparr>lastRecvId := cid\<rparr>"
  have l: "live ?t" "lastRecvId ?t = cid" using assms(1) by (simp_all add: live_def healthy_def arrives_def)
  have w: "live (replied r ?t) \<and> sent (fr_w (mx_framer (replied r ?t))) = sent (fr_w (mx_framer t)) @ frame_bytes (tagged cid (response_bytes r))"
    using l(1) by (simp add: live_def healthy_def replied_def) (simp add: arrives_def)
  note rcv = receive_live [OF assms(1-3)]
  have rej: "reject opts now ?t = (Continue, replied r ?t)" if "r = status StatusError" using reject_live [OF l(1)] that by simp
  from DecodeRequest_cases [of p]
  have "\<exists>s'. handleRequest_round opts timeout now later res bad b (arrives (frame_bytes (tagged cid p)) t) s = Inr (Continue, replied r ?t, s')"
  proof
    assume "DecodeRequest p = Inr (Inl ErrInvalidMessage)"
    then show ?thesis using rej assms(4) rcv by (simp add: handleRequest_round_def handleRequest_read_def answer_def Let_def)
  next
    assume "\<exists>rq. DecodeRequest p = Inr (Inr rq) \<and> 22 + length (rqKey rq) + length (rqValue rq) \<le> length p"
    then obtain rq where d: "DecodeRequest p = Inr (Inr rq)" by blast
    show ?thesis
    proof (cases "requestHandlers (rqCmd rq)")
      case None
      then have "r = status StatusError" using assms(4) d by (auto simp: answer_def requestHandlers_def split: if_split_asm)
      then show ?thesis using rej rcv d None by (simp add: handleRequest_round_def handleRequest_read_def Let_def)
    next
      case (Some h)
      then show ?thesis
        using call_answers [OF l(1) d Some assms(4), of opts later] l(2) assms(5) rcv d
        by (auto simp: handleRequest_round_def handleRequest_read_def Let_def)
    qed
  qed
  with w show ?thesis by blast
qed

text \<open>C19. Every request gets one answer, its own. On working connections a client that sends a request
  puts one frame on the wire, the request tagged with its identifier. The server that reads this frame handles it
  without a panic, puts exactly one frame on the wire, the answer tagged with the same identifier, and
  stays ready for the next request. The client's pending call returns that answer, and it decodes to
  the answer owed: the looked-up value, not found, success, timeout or error, also for requests that
  cannot be decoded or name no command.\<close>

theorem client_gets_the_answer:
  assumes "mux_run (NewMultiplexedTransportWithLimit f n) evs c" "Request_send None p c = Some (Inr (cid, ch), c')"
    and "cid \<noteq> 0" "healthy c" "live t" "p \<noteq> []" "frame_ok (maxPayload (mx_framer t)) (tagged cid p)"
    and "r = answer p res (\<lambda>k. fst (db_Get bad b (sv_db s) k))" "frame_ok (maxPayload (mx_framer c)) (tagged cid (response_bytes r))"
  shows "\<exists>t' s' c3. sent (fr_w (mx_framer c')) = sent (fr_w (mx_framer c)) @ frame_bytes (tagged cid p)
    \<and> handleRequest_round opts timeout now later res bad b (arrives (frame_bytes (tagged cid p)) t) s = Inr (Continue, t', s')
    \<and> live t' \<and> sent (fr_w (mx_framer t')) = sent (fr_w (mx_framer t)) @ frame_bytes (tagged cid (response_bytes r))
    \<and> Request_await AwaitResp False cid ch (readLoop_round (arrives (frame_bytes (tagged cid (response_bytes r))) c'))
        = Some (Inr (response_bytes r), c3)
    \<and> DecodeResponse (response_bytes r) = Inr (Inr r)"
proof -
  have fits: "fits_u32 (tagged cid p)" "fits_u32 (tagged cid (response_bytes r))" using assms(7,9) by (simp_all add: frame_ok_def)
  note w = request_on_wire [OF assms(1,2,4) fits(1)]
  obtain t' s' where round: "handleRequest_round opts timeout now later res bad b (arrives (frame_bytes (tagged cid p)) t) s = Inr (Continue, t', s')"
    "live t'" "sent (fr_w (mx_framer t')) = sent (fr_w (mx_framer t)) @ frame_bytes (tagged cid (response_bytes r))"
    using round_answers [OF assms(5,7,6,8) fits(2)] by blast
  obtain c3 where c3: "Request_await AwaitResp False cid ch (readLoop_round (arrives (frame_bytes (tagged cid (response_bytes r))) c')) = Some (Inr (response_bytes r), c3)"
    using reply_delivered [OF w(2,3) assms(3)] assms(4,9) w(4) by (auto simp: healthy_def)
  have "rsStatus r \<le> StatusTimeout \<and> (rsStatus r \<noteq> StatusOK \<longrightarrow> rsValue r = [])"
    using assms(8) by (auto simp: answer_def status_def word_le_nat_alt split: sum.splits option.splits if_splits)
  moreover have "fits_u32 (rsValue r)" using fits(2) by (simp add: fits_u32_def tagged_eq response_bytes_def)
  ultimately have "DecodeResponse (response_bytes r) = Inr (Inr r)"
    using DecodeResponse_bytes [of r] by (simp add: word_le_nat_alt)
  then show ?thesis using w(1) round c3 by blast
qed

definition sample_conn :: MultiplexedTransport where
  "sample_conn = NewMultiplexedTransport (NewFramer \<lparr>avail = [], after = NetEOF\<rparr> \<lparr>sent = [], room = None, broken = False\<rparr> (Some None) (Some None))"

definition sample_opts :: Options where
  "sample_opts = applyDefaults \<lparr>optID = 1, optNetwork = [], optHost = [], optPort = 4000, optDataDir = ''data'', ReadTimeout = 0, WriteTimeout = 0, MaxFrameSize = 0\<rparr>"

definition sample_get :: bytes where
  "sample_get = request_bytes \<lparr>rqCmd = CmdGet, rqKey = [97], rqValue = [], rqSeq = 0\<rparr>"

definition filled_server :: Server where
  "filled_server = sample_server\<lparr>sv_db := db_PutAsync False (sv_db sample_server) [97] [1, 2]\<rparr>"

lemma sample_answer:
  "answer sample_get None (\<lambda>k. fst (db_Get None True (sv_db filled_server) k)) = \<lparr>rsStatus = StatusOK, rsValue = [1, 2], rsSeq = 0\<rparr>"
proof -
  have "DecodeRequest sample_get = Inr (Inr \<lparr>rqCmd = CmdGet, rqKey = [97], rqValue = [], rqSeq = 0\<rparr>)"
    using DecodeRequest_bytes [of "\<lparr>rqCmd = CmdGet, rqKey = [97], rqValue = [], rqSeq = 0\<rparr>"] by (simp add: sample_get_def fits_u32_def)
  moreover have "fst (db_Get None True (sv_db filled_server) [97]) = Some [1, 2]"
    using kv_store.get_result [OF kv_store.put_inv [OF sample_facts(1)]] kv_store.put_contents [OF sample_facts(1)] kv_store.put_ok [OF sample_facts(1)]
    by (simp add: filled_server_def)
  ultimately show ?thesis by (simp add: answer_def)
qed

theorem client_gets_the_answer_witness:
  "\<exists>c' t' s' c3. Request_send None sample_get sample_mux = Some (Inr (1, 0), c')
    \<and> sent (fr_w (mx_framer c')) = sent (fr_w (mx_framer sample_mux)) @ frame_bytes (tagged 1 sample_get)
    \<and> handleRequest_round sample_opts 5 0 1 None None True (arrives (frame_bytes (tagged 1 sample_get)) sample_conn) filled_server = Inr (Continue, t', s')
    \<and> sent (fr_w (mx_framer t')) = frame_bytes (tagged 1 (response_bytes \<lparr>rsStatus = StatusOK, rsValue = [1, 2], rsSeq = 0\<rparr>))
    \<and> Request_await AwaitResp False 1 0
        (readLoop_round (arrives (frame_bytes (tagged 1 (response_bytes \<lparr>rsStatus = StatusOK, rsValue = [1, 2], rsSeq = 0\<rparr>))) c')) = Some (Inr (response_bytes \<lparr>rsStatus = StatusOK, rsValue = [1, 2], rsSeq = 0\<rparr>), c3)"
proof -
  have f: "fits_u32 (tagged 1 sample_get)" by (simp add: fits_u32_def tagged_eq sample_get_def request_bytes_def)
  from write_healthy [OF sample_mux_healthy this] sample_alloc
  obtain c' where c': "Request_send None sample_get sample_mux = Some (Inr (1, 0), c')"
    by (simp add: Request_send_def Let_def mux_write_def) (simp add: sample_mux_def NewMultiplexedTransportWithLimit_def Let_def)
  have m: "maxPayload (mx_framer sample_mux) = DefaultMaxFrameSize" "maxPayload (mx_framer sample_conn) = DefaultMaxFrameSize"
    "sent (fr_w (mx_framer sample_conn)) = []" "live sample_conn"
    by (simp_all add: sample_mux_def sample_conn_def NewMultiplexedTransport_def NewMultiplexedTransportWithLimit_def sample_framer_def NewFramer_def
        live_def healthy_def DefaultMaxFrameSize_def Let_def)
  have ok: "frame_ok DefaultMaxFrameSize (tagged 1 sample_get)"
    "frame_ok DefaultMaxFrameSize (tagged 1 (response_bytes \<lparr>rsStatus = StatusOK, rsValue = [1, 2], rsSeq = 0\<rparr>))"
    by (simp_all add: frame_ok_def tagged_eq fits_u32_def DefaultMaxFrameSize_def sample_get_def request_bytes_def response_bytes_def)
  have r: "mux_run (NewMultiplexedTransportWithLimit sample_framer 0) [] sample_mux" by (simp add: sample_mux_def mux_run.start)
  have ne: "sample_get \<noteq> []" by (simp add: sample_get_def request_bytes_def)
  from client_gets_the_answer [OF r c' one_neq_zero sample_mux_healthy m(4) ne ok(1) [folded m(2)] sample_answer [symmetric] ok(2) [folded m(1)], of sample_opts 5 0 1] c' m(3)
  show ?thesis by auto
qed

end
