(* ===== verification/Lifecycle.thy ===== *)
theory Lifecycle
  imports Dispatch
begin

text \<open>
  Creating, starting and stopping a server: \<open>NewServer\<close>, \<open>initializeRaftHost\<close>, \<open>Start\<close> and \<open>Shutdown\<close>
  of \<open>server/server.go\<close> and the directory lock of \<open>server/lock.go\<close>. What the operating system
  answers is an argument. The lemmas say what is up after a start, what is released when it
  fails and after a shutdown; the property shows what a failed start leaves behind.
\<close>

section \<open>lock.go\<close>

datatype lock_error = LockMkdir | LockOpen | LockBusy | LockSystem | LockUnlock | LockClose

text \<open>What the operating system does: whether the directory can be made, the file opened, and what
  \<open>lockFile\<close> returns. The result is the error or the lock, here whether it still has its file.\<close>

definition acquireDataDirLock :: "bool \<Rightarrow> bool \<Rightarrow> lock_error option \<Rightarrow> lock_error + bool" where
  "acquireDataDirLock mkdir_ok open_ok lockFile =
     (if \<not> mkdir_ok then Inl LockMkdir
      else if \<not> open_ok then Inl LockOpen
      else (case lockFile of Some e \<Rightarrow> Inl e | None \<Rightarrow> Inr True))"

definition lock_Close :: "bool \<Rightarrow> bool \<Rightarrow> bool \<Rightarrow> lock_error list \<times> bool" where
  "lock_Close unlock_ok close_ok has_file =
     (if \<not> has_file then ([], False)
      else ((if unlock_ok then [] else [LockUnlock]) @ (if close_ok then [] else [LockClose]), False))"

section \<open>NewServer\<close>

datatype new_error = NewOptions option_error | NewTransport rt_error | NewStorage raft_error | NewHost

text \<open>
  \<open>initializeRaftHost\<close> on the directory \<open>d\<close>. The listen address it builds is never empty, so the
  transport has one; \<open>others\<close> are the identifiers and addresses of the other nodes.
\<close>

definition initializeRaftHost ::
  "u64 \<Rightarrow> (u64 \<times> string) list \<Rightarrow> (nat \<Rightarrow> nat) \<Rightarrow> disk_io \<Rightarrow> disk
   \<Rightarrow> panic + (new_error + RaftTransport \<times> DurableStorage \<times> raftHost \<times> node)" where
  "initializeRaftHost nid others rnd io d =
     (case NewRaftTransport True True True of
        Inl e \<Rightarrow> Inr (Inl (NewTransport e))
      | Inr rt \<Rightarrow>
          (let rt = fold (\<lambda>(i, addr) rt. AddPeer rt i addr) others rt in
           case NewDurableStorage io d of
             (_, Inl e) \<Rightarrow> Inr (Inl (NewStorage e))
           | (_, Inr rs) \<Rightarrow>
               and_then (NewRaftHost \<lparr>hcID = nid, hcPeers = map fst others, hcStorage = Some rs, hcTransport = True,
                                      hcHeartbeatTick = 0, hcElectionTick = 0\<rparr> rnd io) (\<lambda>host.
                 case host of
                   None \<Rightarrow> Inr (Inl NewHost)
                 | Some (h, n) \<Rightarrow> Inr (Inr (rt, rs, h, n)))))"

definition NewServer ::
  "Options \<Rightarrow> (u64 \<times> string) list \<Rightarrow> (nat \<Rightarrow> nat) \<Rightarrow> disk_io \<Rightarrow> disk
   \<Rightarrow> panic + (new_error + Options \<times> RaftTransport \<times> DurableStorage \<times> raftHost \<times> node)" where
  "NewServer opts others rnd io d =
     (case validate opts of
        Some e \<Rightarrow> Inr (Inl (NewOptions e))
      | None \<Rightarrow>
          and_then (initializeRaftHost (optID opts) others rnd io d) (\<lambda>r.
            case r of Inl e \<Rightarrow> Inr (Inl e) | Inr x \<Rightarrow> Inr (Inr (applyDefaults opts, x))))"

section \<open>Start and Shutdown\<close>

text \<open>
  What a server has running. A part is not there yet, up, or down again. The context is up until it
  is cancelled; \<open>lc_run\<close> is the goroutine of the apply loop, down when it is known to have ended.
\<close>

datatype part = Absent | Up | Down

record lifecycle =
  lc_started :: bool
  lc_ctx :: part
  lc_lock :: part
  lc_db :: part
  lc_ln :: part
  lc_transport :: RaftTransport
  lc_host :: part
  lc_run :: part
  lc_http :: part
  lc_grpc :: part
  lc_storage :: part

text \<open>The outcomes of the calls \<open>Start\<close> makes; \<open>None\<close> for a front end that is not configured.\<close>

record start_io =
  ioLock :: "lock_error + bool"
  ioDB :: bool
  ioListen :: bool
  ioRaftListen :: bool
  ioHTTP :: "bool option"
  ioGRPC :: "bool option"

datatype start_error = ErrAlreadyStarted | ErrDBInUse | StartLock lock_error | StartDB | StartListen | StartRaft rt_error | StartHTTP | StartGRPC

definition takedown :: "part \<Rightarrow> part" where
  "takedown p = (if p = Up then Down else p)"

text \<open>The deferred function of a failed start: it closes what the three local variables hold.\<close>

definition undo_start :: "bool \<Rightarrow> bool \<Rightarrow> bool \<Rightarrow> lifecycle \<Rightarrow> lifecycle" where
  "undo_start has_lock has_db has_ln s =
     (let s = s\<lparr>lc_ctx := takedown (lc_ctx s)\<rparr>;
          s = (if has_ln then s\<lparr>lc_ln := takedown (lc_ln s)\<rparr> else s);
          s = (if has_db then s\<lparr>lc_db := takedown (lc_db s)\<rparr> else s);
          s = (if has_lock then s\<lparr>lc_lock := takedown (lc_lock s)\<rparr> else s)
      in s\<lparr>lc_started := False\<rparr>)"

definition start_http :: "start_io \<Rightarrow> lifecycle \<Rightarrow> start_error option \<times> lifecycle" where
  "start_http io s =
     (case ioHTTP io of
        None \<Rightarrow> (None, s)
      | Some False \<Rightarrow> (Some StartHTTP, s)
      | Some True \<Rightarrow> (None, s\<lparr>lc_http := Up\<rparr>))"

definition start_grpc :: "start_io \<Rightarrow> lifecycle \<Rightarrow> start_error option \<times> lifecycle" where
  "start_grpc io s =
     (case ioGRPC io of
        None \<Rightarrow> (None, s)
      | Some False \<Rightarrow> (Some StartGRPC, s)
      | Some True \<Rightarrow> (None, s\<lparr>lc_grpc := Up\<rparr>))"

text \<open>From the raft subsystem on; the lock, the database and the listener are there. A server made by
  \<open>NewServer\<close> has its raft subsystem, so the test for it is left out.\<close>

definition start_rest :: "start_io \<Rightarrow> lifecycle \<Rightarrow> start_error option \<times> lifecycle" where
  "start_rest io s =
     (case rt_Start (ioRaftListen io) (lc_transport s) of
        (Some e, rt) \<Rightarrow> (Some (StartRaft e), s\<lparr>lc_transport := rt\<rparr>)
      | (None, rt) \<Rightarrow>
          (let s = s\<lparr>lc_transport := rt, lc_host := (if lc_host s = Absent then Up else lc_host s), lc_run := Up\<rparr> in
           case start_http io s of
             (Some e, s) \<Rightarrow> (Some e, s)
           | (None, s) \<Rightarrow> start_grpc io s))"

definition Start :: "start_io \<Rightarrow> lifecycle \<Rightarrow> start_error option \<times> lifecycle" where
  "Start io s =
     (if lc_started s then (Some ErrAlreadyStarted, s)
      else
        (let s = s\<lparr>lc_started := True\<rparr> in
         case ioLock io of
           Inl e \<Rightarrow> (Some (if e = LockBusy then ErrDBInUse else StartLock e), undo_start False False False s)
         | Inr _ \<Rightarrow>
             (let s = s\<lparr>lc_lock := Up, lc_ctx := Up\<rparr> in
              if \<not> ioDB io then (Some StartDB, undo_start True False False s)
              else
                (let s = s\<lparr>lc_db := Up\<rparr> in
                 if \<not> ioListen io then (Some StartListen, undo_start True True False s)
                 else
                   (case start_rest io (s\<lparr>lc_ln := Up\<rparr>) of
                      (Some e, s) \<Rightarrow> (Some e, undo_start True True True s)
                    | (None, s) \<Rightarrow> (None, s))))))"

text \<open>
  \<open>Shutdown\<close>. \<open>drained\<close> tells which case its \<open>select\<close> takes; only the other one waits for the apply
  loop, which may otherwise still run (\<open>run_ended\<close>). The remaining arguments are the errors of
  closing the database and the lock.
\<close>

datatype stop_error = ErrNotStarted | StopErrors "engine_error list" "lock_error list"

definition Shutdown ::
  "bool \<Rightarrow> bool \<Rightarrow> engine_error list \<Rightarrow> lock_error list \<Rightarrow> lifecycle \<Rightarrow> stop_error option \<times> lifecycle" where
  "Shutdown drained run_ended db_err lock_err s =
     (if \<not> lc_started s then (Some ErrNotStarted, s)
      else
        (let s = s\<lparr>lc_ln := takedown (lc_ln s), lc_http := takedown (lc_http s), lc_grpc := takedown (lc_grpc s), lc_ctx := takedown (lc_ctx s)\<rparr>;
             s = (if drained \<and> \<not> run_ended then s else s\<lparr>lc_run := takedown (lc_run s)\<rparr>);
             derr = (if lc_db s = Absent then [] else db_err);
             s = s\<lparr>lc_db := takedown (lc_db s)\<rparr>;
             lerr = (if lc_lock s = Absent then [] else lock_err);
             s = s\<lparr>lc_lock := takedown (lc_lock s), lc_host := takedown (lc_host s), lc_transport := rt_Stop (lc_transport s),
                   lc_storage := takedown (lc_storage s), lc_started := False\<rparr>
         in (if derr = [] \<and> lerr = [] then None else Some (StopErrors derr lerr), s)))"

section \<open>What starting and stopping achieve\<close>

text \<open>A server as \<open>NewServer\<close> returns it.\<close>

definition new_lifecycle :: "RaftTransport \<Rightarrow> lifecycle" where
  "new_lifecycle rt = \<lparr>lc_started = False, lc_ctx = Absent, lc_lock = Absent, lc_db = Absent, lc_ln = Absent, lc_transport = rt,
     lc_host = Absent, lc_run = Absent, lc_http = Absent, lc_grpc = Absent, lc_storage = Up\<rparr>"

lemma takedown_not_Up [simp]: "takedown p \<noteq> Up"
  by (simp add: takedown_def)

lemma undo_start_fields [simp]:
  "\<not> lc_started (undo_start a b c s)" "lc_transport (undo_start a b c s) = lc_transport s" "lc_host (undo_start a b c s) = lc_host s"
  "lc_http (undo_start a b c s) = lc_http s" "lc_lock (undo_start a b c s) = (if a then takedown (lc_lock s) else lc_lock s)"
  "lc_db (undo_start a b c s) = (if b then takedown (lc_db s) else lc_db s)" "lc_ln (undo_start a b c s) = (if c then takedown (lc_ln s) else lc_ln s)"
  by (simp_all add: undo_start_def Let_def)

lemma front_ends_keep:
  assumes "start_http io s = (e, s') \<or> start_grpc io s = (e, s')"
  shows "lc_lock s' = lc_lock s" "lc_db s' = lc_db s" "lc_ln s' = lc_ln s" "lc_ctx s' = lc_ctx s" "lc_started s' = lc_started s"
    "lc_run s' = lc_run s" "lc_host s' = lc_host s" "lc_transport s' = lc_transport s"
  using assms by (auto simp: start_http_def start_grpc_def split: option.splits bool.splits)

lemma start_rest_keeps:
  assumes "start_rest io s = (e, s')"
  shows "lc_lock s' = lc_lock s \<and> lc_db s' = lc_db s \<and> lc_ln s' = lc_ln s \<and> lc_ctx s' = lc_ctx s \<and> lc_started s' = lc_started s"
    "e = None \<Longrightarrow> lc_run s' = Up \<and> rt_started (lc_transport s')"
proof -
  obtain e1 rt where r: "rt_Start (ioRaftListen io) (lc_transport s) = (e1, rt)" by fastforce
  let ?s = "s\<lparr>lc_transport := rt, lc_host := (if lc_host s = Absent then Up else lc_host s), lc_run := Up\<rparr>"
  obtain e2 s2 where h: "start_http io ?s = (e2, s2)" by fastforce
  have up: "rt_started rt" if "e1 = None" using r that by (auto simp: rt_Start_def split: if_split_asm)
  obtain e3 s3 where g: "start_grpc io s2 = (e3, s3)" by fastforce
  note k = front_ends_keep [OF disjI1 [OF h]] front_ends_keep [OF disjI2 [OF g]]
  have eq: "start_rest io s = (case e1 of Some x \<Rightarrow> (Some (StartRaft x), s\<lparr>lc_transport := rt\<rparr>)
      | None \<Rightarrow> (case start_http io ?s of (Some x, s1) \<Rightarrow> (Some x, s1) | (None, s1) \<Rightarrow> start_grpc io s1))"
    by (simp only: start_rest_def r Let_def prod.case)
  have s': "s' = (if e1 = None then if e2 = None then s3 else s2 else s\<lparr>lc_transport := rt\<rparr>)" "e = None \<Longrightarrow> e1 = None"
    using eq assms h g by (auto split: option.splits)
  show "lc_lock s' = lc_lock s \<and> lc_db s' = lc_db s \<and> lc_ln s' = lc_ln s \<and> lc_ctx s' = lc_ctx s \<and> lc_started s' = lc_started s"
    unfolding s'(1) using k by simp
  show "lc_run s' = Up \<and> rt_started (lc_transport s')" if "e = None"
    unfolding s'(1) using k up s'(2) [OF that] by simp
qed

lemma Start_rest:
  assumes "\<not> lc_started s" "ioLock io = Inr b" "ioDB io" "ioListen io"
    and "start_rest io (s\<lparr>lc_started := True, lc_lock := Up, lc_ctx := Up, lc_db := Up, lc_ln := Up\<rparr>) = (e, s')"
  shows "Start io s = (e, if e = None then s' else undo_start True True True s')"
proof -
  have "Start io s = (case start_rest io (s\<lparr>lc_started := True, lc_lock := Up, lc_ctx := Up, lc_db := Up, lc_ln := Up\<rparr>) of
      (Some e, s) \<Rightarrow> (Some e, undo_start True True True s) | (None, s) \<Rightarrow> (None, s))"
    unfolding Start_def Let_def using assms(1-4) by (simp only: if_False if_True not_True_eq_False sum.case simp_thms)
  then show ?thesis by (simp only: assms(5)) (cases e; simp)
qed

text \<open>A failed start gives back the data directory and the address of the server and leaves it not started.\<close>

lemma failed_start_releases:
  assumes "\<not> lc_started s" "lc_lock s \<noteq> Up" "lc_db s \<noteq> Up" "lc_ln s \<noteq> Up" "Start io s = (Some e, s')"
  shows "\<not> lc_started s' \<and> lc_lock s' \<noteq> Up \<and> lc_db s' \<noteq> Up \<and> lc_ln s' \<noteq> Up"
proof -
  obtain e1 s1 where r: "start_rest io (s\<lparr>lc_started := True, lc_lock := Up, lc_ctx := Up, lc_db := Up, lc_ln := Up\<rparr>) = (e1, s1)" by fastforce
  show ?thesis
    using assms r by (cases "ioLock io"; cases e1) (auto simp: Start_def Let_def split: if_split_asm)
qed

lemma successful_start:
  assumes "\<not> lc_started s" "Start io s = (None, s')"
  shows "lc_started s' \<and> lc_lock s' = Up \<and> lc_db s' = Up \<and> lc_ln s' = Up \<and> lc_ctx s' = Up \<and> lc_run s' = Up \<and> rt_started (lc_transport s')"
proof -
  obtain e1 s1 where r: "start_rest io (s\<lparr>lc_started := True, lc_lock := Up, lc_ctx := Up, lc_db := Up, lc_ln := Up\<rparr>) = (e1, s1)" by fastforce
  show ?thesis
    using assms r start_rest_keeps [OF r] by (cases "ioLock io"; cases e1) (auto simp: Start_def Let_def split: if_split_asm)
qed

text \<open>A shutdown takes everything down; only after a forced one is the apply loop known to have ended.\<close>

lemma shutdown_takes_down:
  assumes "lc_started s" "Shutdown drained run_ended db_err lock_err s = (r, s')"
  shows "\<not> lc_started s' \<and> lc_lock s' \<noteq> Up \<and> lc_db s' \<noteq> Up \<and> lc_ln s' \<noteq> Up \<and> lc_ctx s' \<noteq> Up \<and> lc_host s' \<noteq> Up \<and> lc_http s' \<noteq> Up \<and> lc_grpc s' \<noteq> Up
    \<and> rt_stopped (lc_transport s') \<and> (\<not> drained \<longrightarrow> lc_run s' \<noteq> Up)"
  using assms by (cases "drained \<and> \<not> run_ended") (auto simp: Shutdown_def rt_Stop_def Let_def)

text \<open>C38. A start that fails because the HTTP or the gRPC address is taken closes the
  database and reports the server as not started, but leaves the raft transport and the raft host
  running, and after a gRPC failure the HTTP server too. A shutdown then refuses to do anything, and
  every further start fails because the raft transport is already started.\<close>

theorem failed_front_end_leaves_raft_running:
  assumes "NewRaftTransport True True True = Inr rt" "s = new_lifecycle rt" "ioLock io = Inr True" "ioDB io" "ioListen io" "ioRaftListen io"
    and "ioHTTP io = Some False \<or> ioHTTP io \<noteq> Some False \<and> ioGRPC io = Some False"
    and "Start io s = (err, s')"
  shows "err \<in> {Some StartHTTP, Some StartGRPC} \<and> \<not> lc_started s' \<and> lc_db s' = Down
    \<and> rt_started (lc_transport s') \<and> \<not> rt_stopped (lc_transport s') \<and> lc_host s' = Up \<and> (ioHTTP io = Some True \<longrightarrow> lc_http s' = Up)
    \<and> fst (Shutdown drained run_ended db_err lock_err s') = Some ErrNotStarted
    \<and> (ioLock io' = Inr True \<longrightarrow> ioDB io' \<longrightarrow> ioListen io' \<longrightarrow> fst (Start io' s') = Some (StartRaft RtStarted))"
proof -
  let ?s = "s\<lparr>lc_started := True, lc_lock := Up, lc_ctx := Up, lc_db := Up, lc_ln := Up\<rparr>"
  let ?r = "?s\<lparr>lc_transport := rt\<lparr>rt_started := True\<rparr>, lc_host := Up, lc_run := Up\<rparr>"
  have rt: "\<not> rt_started rt" "\<not> rt_stopped rt" using assms(1) by (auto simp: NewRaftTransport_def)
  have s: "\<not> lc_started s" "lc_transport s = rt" "lc_host s = Absent" by (simp_all add: assms(2) new_lifecycle_def)
  have up: "rt_Start (ioRaftListen io) rt = (None, rt\<lparr>rt_started := True\<rparr>)" using rt assms(6) by (simp add: rt_Start_def)
  have eq: "start_rest io ?s = (case start_http io ?r of (Some x, s1) \<Rightarrow> (Some x, s1) | (None, s1) \<Rightarrow> start_grpc io s1)"
    using s(2,3) up by (simp add: start_rest_def)
  obtain e s1 where r: "start_rest io ?s = (Some e, s1)" "e = StartHTTP \<or> e = StartGRPC"
    "lc_transport s1 = rt\<lparr>rt_started := True\<rparr>" "lc_host s1 = Up" "ioHTTP io = Some True \<longrightarrow> lc_http s1 = Up"
  proof (cases "ioHTTP io = Some False")
    case True
    then have "start_rest io ?s = (Some StartHTTP, ?r)" unfolding eq by (simp add: start_http_def)
    then show thesis by (rule that) (use True in simp_all)
  next
    case False
    then have g: "ioGRPC io = Some False" using assms(7) by simp
    define s1 where "s1 = (if ioHTTP io = Some True then ?r\<lparr>lc_http := Up\<rparr> else ?r)"
    have "start_http io ?r = (None, s1)" using False by (auto simp: start_http_def s1_def split: option.split bool.split)
    then have "start_rest io ?s = (Some StartGRPC, s1)" unfolding eq using g by (simp add: start_grpc_def)
    then show thesis by (rule that) (simp_all add: s1_def)
  qed
  have st: "err = Some e" "s' = undo_start True True True s1" using Start_rest [OF s(1) assms(3-5) r(1)] assms(8) by simp_all
  have again: "rt_Start b (rt\<lparr>rt_started := True\<rparr>) = (Some RtStarted, rt\<lparr>rt_started := True\<rparr>)" for b using rt(2) by (simp add: rt_Start_def)
  have "lc_db s' = Down" using start_rest_keeps(1) [OF r(1)] st(2) by (simp add: takedown_def)
  moreover have "fst (Start io' s') = Some (StartRaft RtStarted)" if "ioLock io' = Inr True" "ioDB io'" "ioListen io'"
  proof -
    have "start_rest io' (s'\<lparr>lc_started := True, lc_lock := Up, lc_ctx := Up, lc_db := Up, lc_ln := Up\<rparr>)
        = (Some (StartRaft RtStarted), s'\<lparr>lc_started := True, lc_lock := Up, lc_ctx := Up, lc_db := Up, lc_ln := Up, lc_transport := rt\<lparr>rt_started := True\<rparr>\<rparr>)"
      using st(2) r(3) again by (simp add: start_rest_def)
    from Start_rest [OF _ that this] st(2) show ?thesis by simp
  qed
  ultimately show ?thesis using st r rt(2) by (auto simp: Shutdown_def)
qed

theorem failed_front_end_leaves_raft_running_witness:
  "\<exists>rt s'. NewRaftTransport True True True = Inr rt
    \<and> Start \<lparr>ioLock = Inr True, ioDB = True, ioListen = True, ioRaftListen = True, ioHTTP = Some False, ioGRPC = None\<rparr> (new_lifecycle rt) = (Some StartHTTP, s')
    \<and> fst (Start \<lparr>ioLock = Inr True, ioDB = True, ioListen = True, ioRaftListen = True, ioHTTP = None, ioGRPC = None\<rparr> s') = Some (StartRaft RtStarted)"
proof -
  let ?io = "\<lparr>ioLock = Inr True, ioDB = True, ioListen = True, ioRaftListen = True, ioHTTP = Some False, ioGRPC = None\<rparr>"
  obtain rt where rt: "NewRaftTransport True True True = Inr rt" by (simp add: NewRaftTransport_def)
  obtain s' where s': "Start ?io (new_lifecycle rt) = (Some StartHTTP, s')"
    using rt by (auto simp: Start_def start_rest_def start_http_def Let_def rt_Start_def NewRaftTransport_def new_lifecycle_def)
  show ?thesis
    using failed_front_end_leaves_raft_running [OF rt refl _ _ _ _ _ s', where io' = "?io\<lparr>ioHTTP := None\<rparr>"] rt s' by auto
qed

end
