(* ===== verification/Spec2Isabelle.thy ===== *)
theory Spec2Isabelle
  imports Cluster Replication Campaigns Lifecycle
begin

text \<open>
  This library models kvgo, a key-value store replicated with raft, as far as its Go sources under
  \<open>src/src\<close> decide what it computes, and proves what its parts promise each other and their clients.

  \<^bold>\<open>The program.\<close> A client sends a request over a multiplexed connection. The server encodes a put,
  wraps it in an envelope with a request identifier and proposes it to raft; a get asks raft for a
  read index. The raft node produces batches; the raft host saves them, sends the messages over the
  peer connections and hands committed entries to the apply loop, which writes them into the sharded
  engine and wakes the waiting handlers. The engine commits its writes in groups to an index file and
  a value file per shard; raft keeps its own segmented log and a snapshot file.

  \<^bold>\<open>How the code is modelled.\<close> Functions and methods are HOL functions of the same name where it is
  free, with the receiver as a record passed in and returned; \<open>uint64\<close>, \<open>uint32\<close> and \<open>byte\<close> are words
  of their width. A panic, including an index out of range, is the left case of a sum
  (\<open>Prelude\<close>: \<open>and_then\<close>, \<open>fold_then\<close>); an error is a value. Goroutines are step relations or lists
  of events over a shared state, and a blocking function is cut where it blocks. Whatever the disk,
  the network, the clock or the random source decides, and which ready case a \<open>select\<close> takes, is an
  argument, so the theorems hold for every choice. Protobuf marshalling is an argument with the round
  trip as hypothesis.

  \<^bold>\<open>Raft\<close> (\<open>src/src/raft\<close>, \<open>server/raft.go\<close>).
  \<^item> \<open>Raft_Types\<close>, \<open>Quorum\<close>, \<open>Tracker\<close>, \<open>Read_Only\<close>: messages, majorities, progress, read requests. The
    locale \<open>quorum_system\<close> carries the arguments about intersecting majorities. The committed index
    computed by sorting is the largest one acknowledged by a majority.
  \<^item> \<open>Raft_Codec\<close>, \<open>Framing\<close>, \<open>Raft_WAL\<close>, \<open>Raft_Storage\<close>, \<open>Raft_Recovery\<close>: records, log segments, the
    durable storage and its recovery. A save is found again after a restart; a crash inside its write
    leaves the state before it or the saved one, and the directory can always be opened. The runs are those before
    the first snapshot or compaction. The locale \<open>framed_stream\<close> is the common theory of byte streams cut into
    records.
  \<^item> \<open>Log_Interface\<close>, \<open>Raft_Log\<close>: the log of a node over storage and unstable entries, with the
    locales \<open>indexed_log\<close> and \<open>closed_log\<close> for what is read of it.
  \<^item> \<open>Raft_Core\<close>: all of \<open>raft.go\<close>. \<open>Raft_Steps\<close> proves relations between the states before and after
    a step once, in the locales \<open>step_relation\<close> and \<open>run_relation\<close>; \<open>Raft_Safety\<close>, \<open>Election\<close> and
    \<open>Raft_Total\<close> interpret them: terms, votes, commit index, timeouts, promises and the absence of
    panics. \<open>Campaigns\<close> shows who becomes leader, \<open>Replication\<close> how logs are extended and committed.
  \<^item> \<open>Node\<close>, \<open>Host\<close>, \<open>Cluster\<close>: the event loop of a node, the host around it, and any number of them on
    a network that loses, repeats and reorders messages while servers crash and restart. No two nodes
    are leader in one term unless a message of an earlier leader has reached a candidate; the code accepts such
    a message, \<open>Raft_Safety\<close> proves that a node can then vote twice, and \<open>Cluster\<close> evaluates a run of three nodes
    that ends with two leaders of one term. The runs of a single node (\<open>raft_run\<close>) leave such messages out.

  \<^bold>\<open>Engine\<close> (\<open>src/src/engine\<close>).
  \<^item> \<open>Engine_WAL\<close>, \<open>Engine_Shard\<close>: the two files of a shard, its map, the group committer with flushes
    that fail anywhere, compaction and cleanup.
  \<^item> \<open>Engine_Durable\<close>: acknowledged writes survive a crash, cleanup keeps the values, and two ways in
    which values are lost: compaction with offsets that were never set, and reads at offset zero.
  \<^item> \<open>Engine_DB\<close>: the sharded database implements a map, also over close and open, in runs of writes and
    flushes; its locale \<open>state_machine\<close> is what the server uses of it.

  \<^bold>\<open>Connections\<close> (\<open>src/src/protocol\<close>, \<open>src/src/transport\<close>).
  \<^item> \<open>Protocol\<close>: requests and responses decode to what was encoded, and no input makes a decoder panic.
  \<^item> \<open>Stream_Transport\<close>, \<open>Peer_Transport\<close>: frames on a connection, the TCP transports, and the links
    between raft nodes with their queues and reconnection; a link delivers a prefix of what was written.
  \<^item> \<open>Multiplexed\<close>: requests and replies matched by identifier; a reply reaches its own request.

  \<^bold>\<open>Server\<close> (\<open>src/src/server\<close>, \<open>src/src/pkg/wait\<close>).
  \<^item> \<open>Waiting\<close>: the two wait lists, with the locale \<open>waiter\<close>.
  \<^item> \<open>Server\<close>: the apply loop and the proposals, interleaved by \<open>server_step\<close>. A round of the loop is cut
    before every access to shared state (\<open>run_point\<close>, \<open>loop_take\<close>, \<open>loop_next\<close>), and its pieces make up \<open>server_run_event\<close>.
    A put is answered when its entry is applied, a read sees a prefix of the log that reaches its index,
    replicas agree, and identifiers of two servers can collide. The first three assume that every key of the
    database can be read: not so for a value at offset zero that is not in memory (\<open>Engine_Durable\<close>).
  \<^item> \<open>Dispatch\<close>: options, dispatcher and the three front ends. A client gets exactly one answer, its own.
  \<^item> \<open>Lifecycle\<close>: creating, starting and stopping a server, and what a failed start leaves running.

  \<^bold>\<open>Bounds.\<close> Loops over data are structural recursion or have a termination proof; there is no fuel.
  \<open>allocateID\<close> may run forever in principle and is a partial function, proved to return while an
  identifier is free. Premises that keep terms, indices and request numbers away from \<open>2\<^sup>6\<^sup>4\<close> stand in the
  statements. Time is an integer in nanoseconds and the jitter of the backoff a rational.

  \<^bold>\<open>Not modelled.\<close> The accept loops and connection tables and the goroutine that exits the process after
  a fatal database error are only I/O. Mutexes are not modelled: each critical section is one step. Three
  places take several critical sections as one step: \<open>Request_send\<close> allocates an identifier, registers it and
  writes the frame; \<open>readLoop_round\<close> looks a request up, removes it and sends to its channel; a handler takes a
  new request identifier and registers it (\<open>proposePut_start\<close>, \<open>proposeRead_start\<close>). Frames and cancellations that
  fall between these sections are not covered. Go's \<open>int\<close> is 64 bits wide throughout.
  Sharing of byte slices between caller and callee is not modelled either. Dialling, addresses,
  logging, platform locks, the commands under \<open>cmd\<close>, generated protobuf code and test doubles are left
  out; what they return is an argument where it matters.
\<close>

end
